(* ===== verification/Go_Prelude.thy ===== *)
theory Go_Prelude
  imports Complex_Main "HOL-Library.Signed_Division"
begin

text \<open>
  The part of Go and of its standard library that every component uses: results that may be
  an error or a panic, the machine-integer wrap-around of \<open>int64\<close>, the arithmetic of
  \<open>math/big.Int\<close> (truncated division, bit length, shifts, integer square root) and the
  decimal text of a \<open>big.Int\<close>. The collections \<open>res_simps\<close> (results) and
  \<open>big_simps\<close> (big integers) carry the proofs of the component theories.
\<close>

named_theorems res_simps \<open>unfolding of the error monad\<close>
named_theorems big_simps \<open>unfolding of big.Int operations\<close>

section \<open>Errors and panics\<close>

text \<open>
  A Go function that may panic or return an error is a function into \<open>'a res\<close>: \<open>Panic\<close>
  is an unrecovered panic with its message, \<open>Err\<close> a returned error.
\<close>

datatype go_err = Panic string | Err string

type_synonym 'a res = "go_err + 'a"

definition bindE :: "'a res \<Rightarrow> ('a \<Rightarrow> 'b res) \<Rightarrow> 'b res" where
  "bindE m f = (case m of Inl e \<Rightarrow> Inl e | Inr x \<Rightarrow> f x)"

lemma bindE_Inl [simp, res_simps]: "bindE (Inl e) f = Inl e"
  by (simp add: bindE_def)

lemma bindE_Inr [simp, res_simps]: "bindE (Inr x) f = f x"
  by (simp add: bindE_def)

lemma bindE_eq_Inr: "bindE m f = Inr y \<longleftrightarrow> (\<exists>x. m = Inr x \<and> f x = Inr y)"
  by (cases m) auto

lemma bindE_InrE [elim!]:
  assumes "bindE m f = Inr y"
  obtains x where "m = Inr x" and "f x = Inr y"
  using assms by (auto simp: bindE_eq_Inr)

lemma bindE_assoc [res_simps]: "bindE (bindE m f) g = bindE m (\<lambda>x. bindE (f x) g)"
  by (cases m) auto

lemma bindE_cong: "m = m' \<Longrightarrow> (\<And>x. m' = Inr x \<Longrightarrow> f x = g x) \<Longrightarrow> bindE m f = bindE m' g"
  by (cases m') auto

fun is_ok :: "'a res \<Rightarrow> bool" where
  "is_ok (Inl e) = False"
| "is_ok (Inr x) = True"

lemma is_ok_iff: "is_ok m \<longleftrightarrow> (\<exists>x. m = Inr x)"
  by (cases m) auto

text \<open>Reading a slice: an index beyond its end panics.\<close>

definition go_index :: "'a list \<Rightarrow> nat \<Rightarrow> 'a res" where
  "go_index xs i = (if i < length xs then Inr (xs ! i) else Inl (Panic ''index out of range''))"

text \<open>A loop \<open>for _, x := range xs\<close> whose body may fail is a monadic fold.\<close>

fun foldE :: "('s \<Rightarrow> 'a \<Rightarrow> 's res) \<Rightarrow> 's \<Rightarrow> 'a list \<Rightarrow> 's res" where
  "foldE f s [] = Inr s"
| "foldE f s (x # xs) = bindE (f s x) (\<lambda>s'. foldE f s' xs)"

lemma foldE_total:
  assumes "\<And>s x. x \<in> set xs \<Longrightarrow> \<exists>s'. f s x = Inr s'"
  shows "\<exists>t. foldE f s xs = Inr t"
  using assms
proof (induction xs arbitrary: s)
  case (Cons x xs)
  obtain s' where "f s x = Inr s'" using Cons.prems by force
  with Cons show ?case by simp
qed simp

lemma foldE_append: "foldE f s (xs @ ys) = bindE (foldE f s xs) (\<lambda>s'. foldE f s' ys)"
  by (induction xs arbitrary: s) (auto simp: bindE_assoc)

text \<open>A loop that appends to its result.\<close>

lemma foldE_collect:
  "(\<And>i acc. i \<in> set xs \<Longrightarrow> F acc i = Inr (acc @ h i)) \<Longrightarrow> foldE F acc xs = Inr (acc @ concat (map h xs))"
  by (induction xs arbitrary: acc) auto

text \<open>An invariant that every step keeps holds of the result of the loop.\<close>

lemma foldE_invariant:
  assumes "foldE f s xs = Inr t" and "P s"
    and "\<And>s x s'. x \<in> set xs \<Longrightarrow> P s \<Longrightarrow> f s x = Inr s' \<Longrightarrow> P s'"
  shows "P t"
  using assms by (induction xs arbitrary: s) auto

section \<open>Machine integers\<close>

text \<open>Conversion to \<open>int64\<close>: the value modulo \<open>2 ^ 64\<close> in two's complement.\<close>

definition int64 :: "int \<Rightarrow> int" where
  "int64 x = (x + 2 ^ 63) mod 2 ^ 64 - 2 ^ 63"

definition IsInt64 :: "int \<Rightarrow> bool" where
  "IsInt64 x \<longleftrightarrow> - (2 ^ 63) \<le> x \<and> x < 2 ^ 63"

definition IsUint64 :: "int \<Rightarrow> bool" where
  "IsUint64 x \<longleftrightarrow> 0 \<le> x \<and> x < 2 ^ 64"

lemma int64_id [simp]: "IsInt64 x \<Longrightarrow> int64 x = x"
  by (simp add: int64_def IsInt64_def)

lemma IsInt64_int64 [simp]: "IsInt64 (int64 x)"
proof -
  have "0 \<le> (x + 2 ^ 63) mod 2 ^ 64" and "(x + 2 ^ 63) mod 2 ^ 64 < 2 ^ 64"
    by simp_all
  then show ?thesis by (simp add: int64_def IsInt64_def)
qed

section \<open>Arbitrary-precision integers (\<open>math/big.Int\<close>)\<close>

text \<open>
  A \<open>*big.Int\<close> that is not nil is its value. \<open>Quo\<close> and \<open>Rem\<close> truncate towards zero
  (\<open>sdiv\<close> and \<open>smod\<close> of the library), \<open>Mod\<close> is Euclidean, and all of them panic on a
  zero divisor.
\<close>

abbreviation division_by_zero :: "'a res" where
  "division_by_zero \<equiv> Inl (Panic ''division by zero'')"

definition big_Quo :: "int \<Rightarrow> int \<Rightarrow> int res" where
  "big_Quo a b = (if b = 0 then division_by_zero else Inr (a sdiv b))"

definition big_Rem :: "int \<Rightarrow> int \<Rightarrow> int res" where
  "big_Rem a b = (if b = 0 then division_by_zero else Inr (a smod b))"

definition big_QuoRem :: "int \<Rightarrow> int \<Rightarrow> (int \<times> int) res" where
  "big_QuoRem a b = (if b = 0 then division_by_zero else Inr (a sdiv b, a smod b))"

definition big_Mod :: "int \<Rightarrow> int \<Rightarrow> int res" where
  "big_Mod a b = (if b = 0 then division_by_zero else Inr (a mod \<bar>b\<bar>))"

definition big_Sign :: "int \<Rightarrow> int" where
  "big_Sign a = (if a < 0 then -1 else if a = 0 then 0 else 1)"

definition big_Cmp :: "int \<Rightarrow> int \<Rightarrow> int" where
  "big_Cmp a b = (if a < b then -1 else if a = b then 0 else 1)"

definition big_Lsh :: "int \<Rightarrow> nat \<Rightarrow> int" where
  "big_Lsh a n = a * 2 ^ n"

definition big_Rsh :: "int \<Rightarrow> nat \<Rightarrow> int" where
  "big_Rsh a n = a div 2 ^ n"

fun bit_len :: "nat \<Rightarrow> nat" where
  "bit_len n = (if n = 0 then 0 else Suc (bit_len (n div 2)))"

declare bit_len.simps [simp del]

definition BitLen :: "int \<Rightarrow> nat" where
  "BitLen a = bit_len (nat \<bar>a\<bar>)"

lemma big_Sign_iff [simp]:
  "big_Sign a = 0 \<longleftrightarrow> a = 0" "big_Sign a = -1 \<longleftrightarrow> a < 0" "big_Sign a = 1 \<longleftrightarrow> 0 < a"
  "0 < big_Sign a \<longleftrightarrow> 0 < a" "big_Sign a \<le> 0 \<longleftrightarrow> a \<le> 0"
  by (auto simp: big_Sign_def)

lemma big_Cmp_iff [simp]:
  "big_Cmp a b = 0 \<longleftrightarrow> a = b" "big_Cmp a b = -1 \<longleftrightarrow> a < b" "big_Cmp a b = 1 \<longleftrightarrow> b < a"
  "0 < big_Cmp a b \<longleftrightarrow> b < a" "0 \<le> big_Cmp a b \<longleftrightarrow> b \<le> a" "big_Cmp a b < 0 \<longleftrightarrow> a < b"
  "big_Cmp a b \<le> 0 \<longleftrightarrow> a \<le> b"
  by (auto simp: big_Cmp_def)

lemmas big_div_simps [big_simps] = big_Quo_def big_Rem_def big_QuoRem_def big_Mod_def

lemma bit_len_le_iff: "bit_len n \<le> k \<longleftrightarrow> n < 2 ^ k"
proof (induction n arbitrary: k rule: bit_len.induct)
  case (1 n)
  show ?case
  proof (cases "n = 0")
    case True
    then show ?thesis by (simp add: bit_len.simps)
  next
    case False
    show ?thesis
    proof (cases k)
      case 0
      with False show ?thesis by (simp add: bit_len.simps [of n])
    next
      case (Suc j)
      have "bit_len n \<le> k \<longleftrightarrow> n div 2 < 2 ^ j"
        using False "1.IH" by (simp add: bit_len.simps [of n] Suc)
      also have "\<dots> \<longleftrightarrow> n < 2 ^ k"
        by (simp add: Suc less_mult_imp_div_less div_less_iff_less_mult mult.commute)
      finally show ?thesis .
    qed
  qed
qed

lemma BitLen_le_iff [big_simps]: "BitLen a \<le> k \<longleftrightarrow> \<bar>a\<bar> < 2 ^ k"
proof -
  have "BitLen a \<le> k \<longleftrightarrow> nat \<bar>a\<bar> < nat (2 ^ k)"
    by (simp add: BitLen_def bit_len_le_iff nat_power_eq)
  then show ?thesis by simp
qed

lemma BitLen_gt_iff [big_simps]: "k < BitLen a \<longleftrightarrow> 2 ^ k \<le> \<bar>a\<bar>"
  using BitLen_le_iff [of a k] by linarith

lemma BitLen_0 [simp]: "BitLen 0 = 0"
  by (simp add: BitLen_def bit_len.simps)

lemma BitLen_minus [simp]: "BitLen (- a) = BitLen a"
  by (simp add: BitLen_def)

lemma BitLen_mono: "\<bar>a\<bar> \<le> \<bar>b\<bar> \<Longrightarrow> BitLen a \<le> BitLen b"
  by (metis BitLen_le_iff le_less_trans order_refl)

subsection \<open>Truncated division\<close>

lemma sdiv_nonneg: "0 \<le> (a::int) \<Longrightarrow> 0 < b \<Longrightarrow> a sdiv b = a div b"
  by (simp add: signed_divide_int_def sgn_if)

lemma smod_nonneg: "0 \<le> (a::int) \<Longrightarrow> 0 < b \<Longrightarrow> a smod b = a mod b"
  by (simp add: smod_int_alt_def sgn_if)

lemma sdiv_neg: "(a::int) < 0 \<Longrightarrow> 0 < b \<Longrightarrow> a sdiv b = - ((- a) div b)"
  by (simp add: signed_divide_int_def sgn_if)

lemma smod_neg: "(a::int) < 0 \<Longrightarrow> 0 < b \<Longrightarrow> a smod b = - ((- a) mod b)"
  by (simp add: smod_int_alt_def sgn_if)

lemma sdiv_neg_neg: "(a::int) < 0 \<Longrightarrow> b < 0 \<Longrightarrow> a sdiv b = (- a) div (- b)"
  by (simp add: signed_divide_int_def sgn_if)

lemma sdiv_pos_neg: "0 \<le> (a::int) \<Longrightarrow> b < 0 \<Longrightarrow> a sdiv b = - (a div (- b))"
  by (simp add: signed_divide_int_def sgn_if)

lemma sdiv_abs: "\<bar>a sdiv b\<bar> = \<bar>a\<bar> div \<bar>b\<bar>" for a b :: int
  by (cases "a = 0"; cases "b = 0")
    (simp_all add: signed_divide_int_def abs_mult abs_sgn_eq pos_imp_zdiv_nonneg_iff)

lemma sdiv_mult_bound:
  fixes a b :: int
  assumes "b \<noteq> 0"
  shows "\<bar>a - b * (a sdiv b)\<bar> < \<bar>b\<bar>"
proof -
  have "a - b * (a sdiv b) = a smod b"
    by (simp add: minus_mult_sdiv_eq_smod)
  moreover have "\<bar>a smod b\<bar> < \<bar>b\<bar>"
    using assms by (simp add: smod_int_alt_def abs_mult sgn_if)
  ultimately show ?thesis by simp
qed

lemma smod_0_iff: "a smod b = 0 \<longleftrightarrow> b dvd a" for a b :: int
  by (auto simp: smod_int_alt_def sgn_if)

subsection \<open>Floor and ceiling of a quotient\<close>

lemma mult_div_le: "0 < b \<Longrightarrow> b * (a div b) \<le> a" for a b :: int
  by (metis add_le_same_cancel1 minus_mod_eq_mult_div pos_mod_sign diff_ge_0_iff_ge
      diff_minus_eq_add le_add_same_cancel1 mult_div_mod_eq)

lemma less_mult_div: "0 < b \<Longrightarrow> a < b * (a div b) + b" for a b :: int
proof -
  assume b: "0 < b"
  have "a = b * (a div b) + a mod b" by simp
  moreover have "a mod b < b" using b by simp
  ultimately show ?thesis by linarith
qed

lemma le_div_iff: "0 < b \<Longrightarrow> k \<le> a div b \<longleftrightarrow> b * k \<le> a" for a b k :: int
proof
  assume b: "0 < b" and "k \<le> a div b"
  then have "b * k \<le> b * (a div b)" by simp
  with mult_div_le [OF b, of a] show "b * k \<le> a" by linarith
next
  assume b: "0 < b" and "b * k \<le> a"
  with less_mult_div [OF b, of a] have "b * k < b * (a div b + 1)" by (simp add: algebra_simps)
  with b show "k \<le> a div b" by simp
qed

definition ceil_div :: "int \<Rightarrow> int \<Rightarrow> int" where
  "ceil_div a b = - ((- a) div b)"

lemma ceil_div_code: "0 < b \<Longrightarrow> ceil_div a b = a div b + (if a mod b = 0 then 0 else 1)"
  by (auto simp: ceil_div_def zdiv_zminus1_eq_if)

lemma ceil_div_le_iff: "0 < b \<Longrightarrow> ceil_div a b \<le> k \<longleftrightarrow> a \<le> b * k"
  using le_div_iff [of b "- k" "- a"] by (simp add: ceil_div_def) linarith

lemma ceil_div_ge: "0 < b \<Longrightarrow> a \<le> b * ceil_div a b"
  using ceil_div_le_iff [of b a "ceil_div a b"] by simp

lemma ceil_div_less: "0 < b \<Longrightarrow> b * ceil_div a b < a + b"
  using less_mult_div [of b "- a"] by (simp add: ceil_div_def algebra_simps)

lemma ceil_div_mono: "0 < b \<Longrightarrow> a \<le> a' \<Longrightarrow> ceil_div a b \<le> ceil_div a' b"
  by (simp add: ceil_div_def zdiv_mono1)

lemma ceil_div_nonneg: "0 < b \<Longrightarrow> 0 \<le> a \<Longrightarrow> 0 \<le> ceil_div a b"
  using ceil_div_ge [of b a] by (metis mult_le_0_iff mult_pos_neg not_le order.trans)

lemma div_le_ceil_div: "0 < b \<Longrightarrow> a div b \<le> ceil_div a b"
  by (simp add: ceil_div_code)

lemma ceil_div_le_Suc_div: "0 < b \<Longrightarrow> ceil_div a b \<le> a div b + 1"
  by (simp add: ceil_div_code)

section \<open>Integer square root (\<open>big.Int.Sqrt\<close>)\<close>

fun isqrt :: "nat \<Rightarrow> nat" where
  "isqrt n = (if n = 0 then 0
     else let r = 2 * isqrt (n div 4) in if (r + 1) * (r + 1) \<le> n then r + 1 else r)"

declare isqrt.simps [simp del]

definition big_Sqrt :: "int \<Rightarrow> int res" where
  "big_Sqrt a = (if a < 0 then Inl (Panic ''square root of negative number'')
     else Inr (int (isqrt (nat a))))"

lemma isqrt_bounds: "isqrt n * isqrt n \<le> n \<and> n < (isqrt n + 1) * (isqrt n + 1)"
proof (induction n rule: isqrt.induct)
  case (1 n)
  show ?case
  proof (cases "n = 0")
    case True
    then show ?thesis by (simp add: isqrt.simps)
  next
    case False
    define s where "s = isqrt (n div 4)"
    from False "1.IH" have lo: "s * s \<le> n div 4" and hi: "n div 4 < (s + 1) * (s + 1)"
      by (simp_all add: s_def)
    from lo have "4 * (s * s) \<le> n" by linarith
    moreover from hi have "n < 4 * ((s + 1) * (s + 1))" by linarith
    ultimately show ?thesis
      using False by (simp add: isqrt.simps [of n] Let_def s_def [symmetric] algebra_simps)
  qed
qed

end
