(* ===== verification/BigInt_Model.thy ===== *)
theory BigInt_Model
  imports Go_Prelude
begin

text \<open>
  \<open>osmomath/int.go\<close>: \<open>BigInt\<close>, an integer of at most \<open>maxBitLen\<close> bits over \<open>big.Int\<close>.
  A struct whose pointer is nil is \<open>None\<close> in the functions that look at it; the arithmetic
  is over structs that are not nil. The invariant \<open>BigInt_ok\<close> is the bit bound.
\<close>

datatype BigInt = BigInt (bi: int)

definition maxBitLen :: nat where
  "maxBitLen = 1024"

section \<open>Helpers over \<open>*big.Int\<close>\<close>

definition big_equal :: "int \<Rightarrow> int \<Rightarrow> bool" where
  "big_equal i i2 \<longleftrightarrow> big_Cmp i i2 = 0"

definition big_gt :: "int \<Rightarrow> int \<Rightarrow> bool" where
  "big_gt i i2 \<longleftrightarrow> big_Cmp i i2 = 1"

definition big_gte :: "int \<Rightarrow> int \<Rightarrow> bool" where
  "big_gte i i2 \<longleftrightarrow> big_Cmp i i2 \<ge> 0"

definition big_lt :: "int \<Rightarrow> int \<Rightarrow> bool" where
  "big_lt i i2 \<longleftrightarrow> big_Cmp i i2 = -1"

definition big_lte :: "int \<Rightarrow> int \<Rightarrow> bool" where
  "big_lte i i2 \<longleftrightarrow> big_Cmp i i2 \<le> 0"

definition big_min :: "int \<Rightarrow> int \<Rightarrow> int" where
  "big_min i i2 = (if big_Cmp i i2 = 1 then i2 else i)"

definition big_max :: "int \<Rightarrow> int \<Rightarrow> int" where
  "big_max i i2 = (if big_Cmp i i2 = -1 then i2 else i)"

lemma big_compare_simps [simp]:
  "big_equal a b \<longleftrightarrow> a = b" "big_gt a b \<longleftrightarrow> b < a" "big_gte a b \<longleftrightarrow> b \<le> a"
  "big_lt a b \<longleftrightarrow> a < b" "big_lte a b \<longleftrightarrow> a \<le> b" "big_min a b = min a b" "big_max a b = max a b"
  by (auto simp: big_equal_def big_gt_def big_gte_def big_lt_def big_lte_def big_min_def big_max_def
      big_simps)

section \<open>Constructors and conversions\<close>

definition BigInt_IsNil :: "BigInt option \<Rightarrow> bool" where
  "BigInt_IsNil i \<longleftrightarrow> i = None"

definition BigInt_BigInt :: "BigInt option \<Rightarrow> int option" where
  "BigInt_BigInt i = (if BigInt_IsNil i then None else map_option bi i)"

definition NewBigInt :: "int \<Rightarrow> BigInt" where
  "NewBigInt n = BigInt n"

definition NewBigIntFromUint64 :: "nat \<Rightarrow> BigInt" where
  "NewBigIntFromUint64 n = BigInt (int n)"

definition NewBigIntFromBigInt :: "int option \<Rightarrow> BigInt option res" where
  "NewBigIntFromBigInt i = (case i of
     None \<Rightarrow> Inr None
   | Some n \<Rightarrow> if maxBitLen < BitLen n then Inl (Panic ''NewIntFromBigInt() out of bound'')
       else Inr (Some (BigInt n)))"

definition NewBigIntWithDecimal :: "int \<Rightarrow> int \<Rightarrow> BigInt res" where
  "NewBigIntWithDecimal n dec =
    (if dec < 0 then Inl (Panic ''NewIntWithDecimal() decimal is negative'')
     else let i = n * 10 ^ nat dec in
       if maxBitLen < BitLen i then Inl (Panic ''NewIntWithDecimal() out of bound'')
       else Inr (BigInt i))"

definition ZeroBigInt :: BigInt where
  "ZeroBigInt = BigInt 0"

definition OneBigInt :: BigInt where
  "OneBigInt = BigInt 1"

definition BigInt_IsInt64 :: "BigInt \<Rightarrow> bool" where
  "BigInt_IsInt64 i \<longleftrightarrow> IsInt64 (bi i)"

definition BigInt_Int64 :: "BigInt \<Rightarrow> int res" where
  "BigInt_Int64 i = (if \<not> IsInt64 (bi i) then Inl (Panic ''Int64() out of bound'') else Inr (bi i))"

definition BigInt_IsUint64 :: "BigInt \<Rightarrow> bool" where
  "BigInt_IsUint64 i \<longleftrightarrow> IsUint64 (bi i)"

definition BigInt_Uint64 :: "BigInt \<Rightarrow> nat res" where
  "BigInt_Uint64 i = (if \<not> IsUint64 (bi i) then Inl (Panic ''Uint64() out of bounds'')
     else Inr (nat (bi i)))"

definition BigInt_Sign :: "BigInt \<Rightarrow> int" where
  "BigInt_Sign i = big_Sign (bi i)"

definition BigInt_IsZero :: "BigInt \<Rightarrow> bool" where
  "BigInt_IsZero i \<longleftrightarrow> big_Sign (bi i) = 0"

definition BigInt_IsNegative :: "BigInt \<Rightarrow> bool" where
  "BigInt_IsNegative i \<longleftrightarrow> big_Sign (bi i) = -1"

definition BigInt_IsPositive :: "BigInt \<Rightarrow> bool" where
  "BigInt_IsPositive i \<longleftrightarrow> big_Sign (bi i) = 1"

definition BigInt_Equal :: "BigInt \<Rightarrow> BigInt \<Rightarrow> bool" where
  "BigInt_Equal i i2 \<longleftrightarrow> big_equal (bi i) (bi i2)"

definition BigInt_GT :: "BigInt \<Rightarrow> BigInt \<Rightarrow> bool" where
  "BigInt_GT i i2 \<longleftrightarrow> big_gt (bi i) (bi i2)"

definition BigInt_GTE :: "BigInt \<Rightarrow> BigInt \<Rightarrow> bool" where
  "BigInt_GTE i i2 \<longleftrightarrow> big_gte (bi i) (bi i2)"

definition BigInt_LT :: "BigInt \<Rightarrow> BigInt \<Rightarrow> bool" where
  "BigInt_LT i i2 \<longleftrightarrow> big_lt (bi i) (bi i2)"

definition BigInt_LTE :: "BigInt \<Rightarrow> BigInt \<Rightarrow> bool" where
  "BigInt_LTE i i2 \<longleftrightarrow> big_lte (bi i) (bi i2)"

section \<open>Arithmetic\<close>

abbreviation int_overflow :: "'a res" where
  "int_overflow \<equiv> Inl (Panic ''Int overflow'')"

definition BigInt_Add :: "BigInt \<Rightarrow> BigInt \<Rightarrow> BigInt res" where
  "BigInt_Add i i2 = (let r = bi i + bi i2 in
     if maxBitLen < BitLen r then int_overflow else Inr (BigInt r))"

definition BigInt_AddRaw :: "BigInt \<Rightarrow> int \<Rightarrow> BigInt res" where
  "BigInt_AddRaw i i2 = BigInt_Add i (NewBigInt i2)"

definition BigInt_Sub :: "BigInt \<Rightarrow> BigInt \<Rightarrow> BigInt res" where
  "BigInt_Sub i i2 = (let r = bi i - bi i2 in
     if maxBitLen < BitLen r then int_overflow else Inr (BigInt r))"

definition BigInt_SubRaw :: "BigInt \<Rightarrow> int \<Rightarrow> BigInt res" where
  "BigInt_SubRaw i i2 = BigInt_Sub i (NewBigInt i2)"

definition BigInt_Mul :: "BigInt \<Rightarrow> BigInt \<Rightarrow> BigInt res" where
  "BigInt_Mul i i2 =
    (if int (BitLen (bi i)) + int (BitLen (bi i2)) - 1 > int maxBitLen then int_overflow
     else let r = bi i * bi i2 in
       if maxBitLen < BitLen r then int_overflow else Inr (BigInt r))"

definition BigInt_MulRaw :: "BigInt \<Rightarrow> int \<Rightarrow> BigInt res" where
  "BigInt_MulRaw i i2 = BigInt_Mul i (NewBigInt i2)"

definition BigInt_Quo :: "BigInt \<Rightarrow> BigInt \<Rightarrow> BigInt res" where
  "BigInt_Quo i i2 = (if big_Sign (bi i2) = 0 then Inl (Panic ''Division by zero'')
     else bindE (big_Quo (bi i) (bi i2)) (\<lambda>q. Inr (BigInt q)))"

definition BigInt_QuoRaw :: "BigInt \<Rightarrow> int \<Rightarrow> BigInt res" where
  "BigInt_QuoRaw i i2 = BigInt_Quo i (NewBigInt i2)"

definition BigInt_Mod :: "BigInt \<Rightarrow> BigInt \<Rightarrow> BigInt res" where
  "BigInt_Mod i i2 = (if BigInt_Sign i2 = 0 then Inl (Panic ''division-by-zero'')
     else bindE (big_Mod (bi i) (bi i2)) (\<lambda>m. Inr (BigInt m)))"

definition BigInt_ModRaw :: "BigInt \<Rightarrow> int \<Rightarrow> BigInt res" where
  "BigInt_ModRaw i i2 = BigInt_Mod i (NewBigInt i2)"

definition BigInt_Neg :: "BigInt \<Rightarrow> BigInt" where
  "BigInt_Neg i = BigInt (- bi i)"

definition BigInt_Abs :: "BigInt \<Rightarrow> BigInt" where
  "BigInt_Abs i = BigInt \<bar>bi i\<bar>"

definition MinBigInt :: "BigInt \<Rightarrow> BigInt \<Rightarrow> BigInt" where
  "MinBigInt i1 i2 = BigInt (big_min (bi i1) (bi i2))"

definition MaxBigInt :: "BigInt \<Rightarrow> BigInt \<Rightarrow> BigInt" where
  "MaxBigInt i i2 = BigInt (big_max (bi i) (bi i2))"

section \<open>The bit bound\<close>

definition BigInt_ok :: "BigInt \<Rightarrow> bool" where
  "BigInt_ok i \<longleftrightarrow> BitLen (bi i) \<le> maxBitLen"

lemma BigInt_ok_iff: "BigInt_ok i \<longleftrightarrow> \<bar>bi i\<bar> < 2 ^ maxBitLen"
  by (simp add: BigInt_ok_def BitLen_le_iff)

text \<open>
  The arithmetic of a bounded integer type as an interface: an operation returns the exact
  result when it fits the bound and panics with an overflow otherwise. \<open>BigInt\<close> is one
  provider (bound \<open>maxBitLen\<close>), \<open>BigDec\<close> the other (bound \<open>maxDecBitLen\<close>).
\<close>

locale bounded_integers =
  fixes val :: "'a \<Rightarrow> int" and mk :: "int \<Rightarrow> 'a" and bits :: nat
    and Add :: "'a \<Rightarrow> 'a \<Rightarrow> 'a res" and Sub :: "'a \<Rightarrow> 'a \<Rightarrow> 'a res" and Neg :: "'a \<Rightarrow> 'a"
  assumes val_mk: "val (mk n) = n" and mk_val: "mk (val a) = a"
    and Add_eq: "Add a b = (if \<bar>val a + val b\<bar> < 2 ^ bits then Inr (mk (val a + val b)) else int_overflow)"
    and Sub_eq: "Sub a b = (if \<bar>val a - val b\<bar> < 2 ^ bits then Inr (mk (val a - val b)) else int_overflow)"
    and Neg_eq: "Neg a = mk (- val a)"
begin

lemma Add_commute: "Add a b = Add b a"
  by (simp add: Add_eq add.commute)

lemma Sub_as_Add: "Sub a b = Add a (Neg b)"
  by (simp add: Add_eq Sub_eq Neg_eq val_mk)

lemma Add_ok: "Add a b = Inr c \<Longrightarrow> \<bar>val c\<bar> < 2 ^ bits \<and> val c = val a + val b"
  by (auto simp: Add_eq val_mk split: if_splits)

lemma Sub_ok: "Sub a b = Inr c \<Longrightarrow> \<bar>val c\<bar> < 2 ^ bits \<and> val c = val a - val b"
  by (auto simp: Sub_eq val_mk split: if_splits)

text \<open>Subtraction undoes an addition that did not overflow.\<close>

lemma Add_Sub_cancel: "\<bar>val a\<bar> < 2 ^ bits \<Longrightarrow> Add a b = Inr c \<Longrightarrow> Sub c b = Inr a"
  by (auto simp: Add_eq Sub_eq val_mk mk_val split: if_splits)

lemma Add_total: "\<bar>val a\<bar> < 2 ^ bits \<Longrightarrow> \<bar>val b\<bar> < 2 ^ bits \<Longrightarrow> val a * val b \<le> 0 \<Longrightarrow> is_ok (Add a b)"
  by (auto simp: Add_eq mult_le_0_iff)

end

interpretation bint: bounded_integers bi BigInt maxBitLen BigInt_Add BigInt_Sub BigInt_Neg
  by unfold_locales
    (auto simp: BigInt_Add_def BigInt_Sub_def BigInt_Neg_def Let_def BitLen_gt_iff)

text \<open>The product's bit length is at least the sum of the lengths less one.\<close>

lemma BitLen_pos_bound: "a \<noteq> 0 \<Longrightarrow> 2 ^ (BitLen a - 1) \<le> \<bar>a\<bar>"
  by (metis BitLen_gt_iff BitLen_le_iff One_nat_def abs_le_zero_iff diff_less less_numeral_extra(1)
      linorder_not_less neq0_conv power_0 zero_less_abs_iff int_one_le_iff_zero_less le_zero_eq)

lemma BitLen_mult_ge:
  assumes "a \<noteq> 0" and "b \<noteq> 0"
  shows "BitLen a + BitLen b \<le> BitLen (a * b) + 1"
proof -
  have "2 ^ (BitLen a - 1 + (BitLen b - 1)) \<le> \<bar>a * b\<bar>"
    unfolding power_add abs_mult
    by (intro mult_mono BitLen_pos_bound assms) simp_all
  then have "BitLen a - 1 + (BitLen b - 1) < BitLen (a * b)"
    by (simp add: BitLen_gt_iff)
  then show ?thesis by linarith
qed

text \<open>
  The pre-check of \<open>Mul\<close> on the operands' lengths only rejects products that do not fit: on
  operands within the bound, \<open>Mul\<close> panics exactly when the product is out of range.
\<close>

lemma BigInt_Mul_eq:
  assumes "BigInt_ok i" and "BigInt_ok j"
  shows "BigInt_Mul i j = (if \<bar>bi i * bi j\<bar> < 2 ^ maxBitLen then Inr (BigInt (bi i * bi j)) else int_overflow)"
proof (cases "bi i = 0 \<or> bi j = 0")
  case True
  with assms show ?thesis
    by (auto simp: BigInt_Mul_def BigInt_ok_def Let_def)
next
  case False
  then have "BitLen (bi i) + BitLen (bi j) \<le> BitLen (bi i * bi j) + 1"
    using BitLen_mult_ge [of "bi i" "bi j"] by simp
  then have "int (BitLen (bi i)) + int (BitLen (bi j)) - 1 > int maxBitLen \<Longrightarrow> maxBitLen < BitLen (bi i * bi j)"
    by linarith
  then show ?thesis
    by (auto simp: BigInt_Mul_def Let_def BitLen_gt_iff)
qed

lemma BigInt_Quo_ok: "BigInt_ok i \<Longrightarrow> BigInt_Quo i j = Inr k \<Longrightarrow> BigInt_ok k"
proof -
  assume i: "BigInt_ok i" and "BigInt_Quo i j = Inr k"
  then have k: "bi k = bi i sdiv bi j"
    by (auto simp: BigInt_Quo_def big_simps split: if_splits)
  have "\<bar>bi k\<bar> \<le> \<bar>bi i\<bar>"
    unfolding k sdiv_abs by (metis abs_0 abs_ge_zero div_by_0 int_one_le_iff_zero_less
        pos_imp_zdiv_nonneg_iff zdiv_mono2 div_by_1 zero_less_one order.order_iff_strict)
  with i show ?thesis by (simp add: BigInt_ok_iff)
qed

lemma BigInt_Mod_range: "BigInt_Mod i j = Inr k \<Longrightarrow> 0 \<le> bi k \<and> bi k < \<bar>bi j\<bar>"
  by (auto simp: BigInt_Mod_def BigInt_Sign_def big_simps split: if_splits)

end
