(* ===== verification/BigDec_Model.thy ===== *)
theory BigDec_Model
  imports BigInt_Model
begin

text \<open>
  \<open>osmomath/decimal.go\<close>: \<open>BigDec\<close>, a fixed-point decimal with 36 fractional digits held as
  the integer \<open>value * 10 ^ 36\<close>. This theory holds the constructors, the comparisons, every
  rounding of the code, the arithmetic and the conversions to integers and to the SDK's
  18-digit \<open>Dec\<close>. A method whose name ends in \<open>Mut\<close> overwrites its receiver with the value
  it returns, so it is the function from the old to the new value.

  \<open>Dec\<close> is \<open>LegacyDec\<close> of the Cosmos SDK. The code here reads and writes only the
  \<open>big.Int\<close> behind it (\<open>BigInt\<close>, \<open>BigIntMut\<close>), which is all that is modelled of it.
\<close>

datatype BigDec = BigDec (bdi: int)

datatype Dec = Dec (deci: int)

section \<open>Constants\<close>

definition BigDecPrecision :: nat where
  "BigDecPrecision = 36"

definition DecPrecision :: nat where
  "DecPrecision = 18"

definition BigDecimalPrecisionBits :: nat where
  "BigDecimalPrecisionBits = 120"

definition maxDecBitLen :: nat where
  "maxDecBitLen = maxBitLen + BigDecimalPrecisionBits"

definition defaultBigDecPrecisionReuse :: int where
  "defaultBigDecPrecisionReuse = 10 ^ BigDecPrecision"

definition precisionReuseSDKDec :: int where
  "precisionReuseSDKDec = 10 ^ DecPrecision"

definition squaredPrecisionReuse :: int where
  "squaredPrecisionReuse = defaultBigDecPrecisionReuse * defaultBigDecPrecisionReuse"

definition bigDecDecPrecisionFactorDiff :: int where
  "bigDecDecPrecisionFactorDiff = 10 ^ (BigDecPrecision - DecPrecision)"

definition fivePrecision :: int where
  "fivePrecision = defaultBigDecPrecisionReuse sdiv 2"

definition fivePrecisionSDKDec :: int where
  "fivePrecisionSDKDec = precisionReuseSDKDec sdiv 2"

lemmas bigdec_consts = BigDecPrecision_def DecPrecision_def BigDecimalPrecisionBits_def
  maxDecBitLen_def maxBitLen_def defaultBigDecPrecisionReuse_def precisionReuseSDKDec_def
  squaredPrecisionReuse_def bigDecDecPrecisionFactorDiff_def fivePrecision_def
  fivePrecisionSDKDec_def

lemma prec_pos [simp]:
  "0 < defaultBigDecPrecisionReuse" "0 < precisionReuseSDKDec" "0 < squaredPrecisionReuse"
  "0 < bigDecDecPrecisionFactorDiff" "0 \<le> defaultBigDecPrecisionReuse" "0 \<le> precisionReuseSDKDec"
  "0 \<le> bigDecDecPrecisionFactorDiff"
  by (simp_all add: bigdec_consts)

lemma prec_nonzero [simp]:
  "defaultBigDecPrecisionReuse \<noteq> 0" "precisionReuseSDKDec \<noteq> 0" "squaredPrecisionReuse \<noteq> 0"
  "bigDecDecPrecisionFactorDiff \<noteq> 0"
  by (simp_all add: bigdec_consts)

section \<open>Constructors\<close>

definition calcPrecisionMultiplier :: "int \<Rightarrow> int res" where
  "calcPrecisionMultiplier prec =
    (if prec > int BigDecPrecision then Inl (Panic ''too much precision'')
     else Inr (10 ^ nat (int BigDecPrecision - prec)))"

definition precisionMultiplier :: "int \<Rightarrow> int res" where
  "precisionMultiplier prec =
    (if prec > int BigDecPrecision then Inl (Panic ''too much precision'')
     else if prec < 0 then Inl (Panic ''index out of range'')
     else calcPrecisionMultiplier prec)"

definition ZeroBigDec :: BigDec where
  "ZeroBigDec = BigDec 0"

definition OneBigDec :: BigDec where
  "OneBigDec = BigDec defaultBigDecPrecisionReuse"

definition SmallestBigDec :: BigDec where
  "SmallestBigDec = BigDec 1"

definition twoBigDec :: BigDec where
  "twoBigDec = BigDec (2 * defaultBigDecPrecisionReuse)"

definition NewBigDecWithPrec :: "int \<Rightarrow> int \<Rightarrow> BigDec res" where
  "NewBigDecWithPrec i prec = bindE (precisionMultiplier prec) (\<lambda>m. Inr (BigDec (i * m)))"

definition NewBigDec :: "int \<Rightarrow> BigDec res" where
  "NewBigDec i = NewBigDecWithPrec i 0"

definition NewBigDecFromBigIntWithPrec :: "int \<Rightarrow> int \<Rightarrow> BigDec res" where
  "NewBigDecFromBigIntWithPrec i prec = bindE (precisionMultiplier prec) (\<lambda>m. Inr (BigDec (i * m)))"

definition NewBigDecFromBigInt :: "int \<Rightarrow> BigDec res" where
  "NewBigDecFromBigInt i = NewBigDecFromBigIntWithPrec i 0"

definition NewBigDecFromBigIntMutWithPrec :: "int \<Rightarrow> int \<Rightarrow> BigDec res" where
  "NewBigDecFromBigIntMutWithPrec i prec = bindE (precisionMultiplier prec) (\<lambda>m. Inr (BigDec (i * m)))"

definition NewBigDecFromBigIntMut :: "int \<Rightarrow> BigDec res" where
  "NewBigDecFromBigIntMut i = NewBigDecFromBigIntMutWithPrec i 0"

definition NewBigDecFromIntWithPrec :: "BigInt \<Rightarrow> int \<Rightarrow> BigDec res" where
  "NewBigDecFromIntWithPrec i prec = bindE (precisionMultiplier prec) (\<lambda>m. Inr (BigDec (bi i * m)))"

definition NewBigDecFromInt :: "BigInt \<Rightarrow> BigDec res" where
  "NewBigDecFromInt i = NewBigDecFromIntWithPrec i 0"

definition BigInt_ToDec :: "BigInt \<Rightarrow> BigDec res" where
  "BigInt_ToDec i = NewBigDecFromInt i"

definition NewBigDecFromDecMulDec :: "Dec \<Rightarrow> Dec \<Rightarrow> BigDec" where
  "NewBigDecFromDecMulDec a b = BigDec (deci a * deci b)"

lemma precisionMultiplier_0 [simp]: "precisionMultiplier 0 = Inr defaultBigDecPrecisionReuse"
  by (simp add: precisionMultiplier_def calcPrecisionMultiplier_def bigdec_consts)

lemma NewBigDec_eq [simp]:
  "NewBigDec n = Inr (BigDec (n * defaultBigDecPrecisionReuse))"
  "NewBigDecFromBigInt n = Inr (BigDec (n * defaultBigDecPrecisionReuse))"
  "NewBigDecFromBigIntMut n = Inr (BigDec (n * defaultBigDecPrecisionReuse))"
  by (simp_all add: NewBigDec_def NewBigDecWithPrec_def NewBigDecFromBigInt_def
      NewBigDecFromBigIntWithPrec_def NewBigDecFromBigIntMut_def NewBigDecFromBigIntMutWithPrec_def)

section \<open>Comparisons and sign\<close>

definition BigDec_IsNil :: "BigDec option \<Rightarrow> bool" where
  "BigDec_IsNil d \<longleftrightarrow> d = None"

definition BigDec_IsZero :: "BigDec \<Rightarrow> bool" where
  "BigDec_IsZero d \<longleftrightarrow> big_Sign (bdi d) = 0"

definition BigDec_IsNegative :: "BigDec \<Rightarrow> bool" where
  "BigDec_IsNegative d \<longleftrightarrow> big_Sign (bdi d) = -1"

definition BigDec_IsPositive :: "BigDec \<Rightarrow> bool" where
  "BigDec_IsPositive d \<longleftrightarrow> big_Sign (bdi d) = 1"

definition BigDec_Equal :: "BigDec \<Rightarrow> BigDec \<Rightarrow> bool" where
  "BigDec_Equal d d2 \<longleftrightarrow> big_Cmp (bdi d) (bdi d2) = 0"

definition BigDec_GT :: "BigDec \<Rightarrow> BigDec \<Rightarrow> bool" where
  "BigDec_GT d d2 \<longleftrightarrow> big_Cmp (bdi d) (bdi d2) > 0"

definition BigDec_GTE :: "BigDec \<Rightarrow> BigDec \<Rightarrow> bool" where
  "BigDec_GTE d d2 \<longleftrightarrow> big_Cmp (bdi d) (bdi d2) \<ge> 0"

definition BigDec_LT :: "BigDec \<Rightarrow> BigDec \<Rightarrow> bool" where
  "BigDec_LT d d2 \<longleftrightarrow> big_Cmp (bdi d) (bdi d2) < 0"

definition BigDec_LTE :: "BigDec \<Rightarrow> BigDec \<Rightarrow> bool" where
  "BigDec_LTE d d2 \<longleftrightarrow> big_Cmp (bdi d) (bdi d2) \<le> 0"

definition BigDec_Neg :: "BigDec \<Rightarrow> BigDec" where
  "BigDec_Neg d = BigDec (- bdi d)"

definition BigDec_NegMut :: "BigDec \<Rightarrow> BigDec" where
  "BigDec_NegMut d = BigDec (- bdi d)"

definition BigDec_Abs :: "BigDec \<Rightarrow> BigDec" where
  "BigDec_Abs d = BigDec \<bar>bdi d\<bar>"

definition BigDec_AbsMut :: "BigDec \<Rightarrow> BigDec" where
  "BigDec_AbsMut d = BigDec \<bar>bdi d\<bar>"

definition BigDec_BigInt :: "BigDec option \<Rightarrow> int option" where
  "BigDec_BigInt d = (if BigDec_IsNil d then None else map_option bdi d)"

definition BigDec_BigIntMut :: "BigDec option \<Rightarrow> int option" where
  "BigDec_BigIntMut d = (if BigDec_IsNil d then None else map_option bdi d)"

definition BigDec_Clone :: "BigDec \<Rightarrow> BigDec" where
  "BigDec_Clone d = BigDec (bdi d)"

definition MinBigDec :: "BigDec \<Rightarrow> BigDec \<Rightarrow> BigDec" where
  "MinBigDec d1 d2 = (if BigDec_LT d1 d2 then d1 else d2)"

definition MaxBigDec :: "BigDec \<Rightarrow> BigDec \<Rightarrow> BigDec" where
  "MaxBigDec d1 d2 = (if BigDec_LT d1 d2 then d2 else d1)"

fun decs_equal_from :: "BigDec list \<Rightarrow> BigDec list \<Rightarrow> bool" where
  "decs_equal_from (d1 # d1s) (d2 # d2s) = (if \<not> BigDec_Equal d1 d2 then False else decs_equal_from d1s d2s)"
| "decs_equal_from _ _ = True"

definition DecsEqual :: "BigDec list \<Rightarrow> BigDec list \<Rightarrow> bool" where
  "DecsEqual d1s d2s = (if length d1s \<noteq> length d2s then False else decs_equal_from d1s d2s)"

lemma BigDec_cmp_simps [simp]:
  "BigDec_IsZero d \<longleftrightarrow> bdi d = 0" "BigDec_IsNegative d \<longleftrightarrow> bdi d < 0" "BigDec_IsPositive d \<longleftrightarrow> 0 < bdi d"
  "BigDec_Equal d e \<longleftrightarrow> d = e" "BigDec_GT d e \<longleftrightarrow> bdi e < bdi d" "BigDec_GTE d e \<longleftrightarrow> bdi e \<le> bdi d"
  "BigDec_LT d e \<longleftrightarrow> bdi d < bdi e" "BigDec_LTE d e \<longleftrightarrow> bdi d \<le> bdi e"
  by (auto simp: BigDec_IsZero_def BigDec_IsNegative_def BigDec_IsPositive_def BigDec_Equal_def
      BigDec_GT_def BigDec_GTE_def BigDec_LT_def BigDec_LTE_def big_simps intro: BigDec.expand)

lemma BigDec_sign_simps [simp]:
  "bdi (BigDec_Neg d) = - bdi d" "bdi (BigDec_NegMut d) = - bdi d" "bdi (BigDec_Abs d) = \<bar>bdi d\<bar>"
  "bdi (BigDec_AbsMut d) = \<bar>bdi d\<bar>" "BigDec_Clone d = d" "bdi ZeroBigDec = 0"
  "bdi OneBigDec = defaultBigDecPrecisionReuse" "bdi SmallestBigDec = 1"
  "bdi twoBigDec = 2 * defaultBigDecPrecisionReuse"
  by (simp_all add: BigDec_Neg_def BigDec_NegMut_def BigDec_Abs_def BigDec_AbsMut_def BigDec_Clone_def
      ZeroBigDec_def OneBigDec_def SmallestBigDec_def twoBigDec_def)

lemma DecsEqual_iff: "DecsEqual xs ys \<longleftrightarrow> xs = ys"
proof -
  have "length xs = length ys \<Longrightarrow> decs_equal_from xs ys \<longleftrightarrow> xs = ys"
    by (induction xs ys rule: decs_equal_from.induct) auto
  then show ?thesis by (auto simp: DecsEqual_def)
qed

section \<open>Roundings\<close>

text \<open>
  The two copies of the banker's rounding (36 and 18 digits), the truncation and the rounding
  up. The recursion of the rounding on a negative input is on its negation.
\<close>

function chopPrecisionAndRound :: "int \<Rightarrow> int" where
  "chopPrecisionAndRound d =
    (if big_Sign d = -1 then - chopPrecisionAndRound (- d)
     else let quo = d sdiv defaultBigDecPrecisionReuse; rem = d smod defaultBigDecPrecisionReuse in
       if big_Sign rem = 0 then quo
       else if big_Cmp rem fivePrecision = -1 then quo
       else if big_Cmp rem fivePrecision = 1 then quo + 1
       else if even quo then quo else quo + 1)"
  by pat_completeness auto
termination
  by (relation "measure (\<lambda>d. if d < 0 then 1 else 0)") (auto simp: big_Sign_def split: if_splits)

function chopPrecisionAndRoundSdkDec :: "int \<Rightarrow> int" where
  "chopPrecisionAndRoundSdkDec d =
    (if big_Sign d = -1 then - chopPrecisionAndRoundSdkDec (- d)
     else let quo = d sdiv precisionReuseSDKDec; rem = d smod precisionReuseSDKDec in
       if big_Sign rem = 0 then quo
       else if big_Cmp rem fivePrecisionSDKDec = -1 then quo
       else if big_Cmp rem fivePrecisionSDKDec = 1 then quo + 1
       else if even quo then quo else quo + 1)"
  by pat_completeness auto
termination
  by (relation "measure (\<lambda>d. if d < 0 then 1 else 0)") (auto simp: big_Sign_def split: if_splits)

declare chopPrecisionAndRound.simps [simp del] chopPrecisionAndRoundSdkDec.simps [simp del]

definition incBasedOnRem :: "int \<Rightarrow> int \<Rightarrow> int" where
  "incBasedOnRem rem d = (if big_Sign rem = 0 then d else d + 1)"

definition chopPrecisionAndTruncate :: "int \<Rightarrow> int \<Rightarrow> int res" where
  "chopPrecisionAndTruncate d precisionReuse = big_Quo d precisionReuse"

definition chopPrecisionAndTruncateMut :: "int \<Rightarrow> int \<Rightarrow> int res" where
  "chopPrecisionAndTruncateMut d precisionReuse = big_Quo d precisionReuse"

definition chopPrecisionAndRoundUpMut :: "int \<Rightarrow> int \<Rightarrow> int res" where
  "chopPrecisionAndRoundUpMut d precisionReuse =
    (if big_Sign d = -1
     then bindE (chopPrecisionAndTruncateMut (- d) precisionReuse) (\<lambda>t. Inr (- t))
     else bindE (big_QuoRem d precisionReuse) (\<lambda>(quo, rem). Inr (incBasedOnRem rem quo)))"

definition chopPrecisionAndRoundUpDec :: "int \<Rightarrow> int res" where
  "chopPrecisionAndRoundUpDec d = chopPrecisionAndRoundUpMut d precisionReuseSDKDec"

definition chopPrecisionAndRoundNonMutative :: "int \<Rightarrow> int" where
  "chopPrecisionAndRoundNonMutative d = chopPrecisionAndRound d"

text \<open>
  The banker's rounding as an interface: what its clients rely on is the rounding to the
  nearest multiple with ties to even, not the code's case analysis.
\<close>

locale bankers_rounding =
  fixes prec half :: int and chop :: "int \<Rightarrow> int"
  assumes prec_half: "prec = 2 * half" and half_pos: "0 < half"
    and chop_neg: "d < 0 \<Longrightarrow> chop d = - chop (- d)"
    and chop_nonneg: "0 \<le> d \<Longrightarrow> chop d =
      (if d mod prec < half then d div prec else if half < d mod prec then d div prec + 1
       else if even (d div prec) then d div prec else d div prec + 1)"
begin

lemma prec_positive: "0 < prec"
  using prec_half half_pos by simp

lemma chop_spec_nonneg:
  assumes "0 \<le> d"
  shows "\<bar>d - prec * chop d\<bar> \<le> half \<and> (\<bar>d - prec * chop d\<bar> = half \<longrightarrow> even (chop d))"
proof -
  have m: "prec * (d div prec) + d mod prec = d" by simp
  have "0 \<le> d mod prec" and "d mod prec < prec" using prec_positive by simp_all
  with m prec_half half_pos show ?thesis
    unfolding chop_nonneg [OF assms] by (auto simp: algebra_simps)
qed

lemma chop_spec: "\<bar>d - prec * chop d\<bar> \<le> half \<and> (\<bar>d - prec * chop d\<bar> = half \<longrightarrow> even (chop d))"
proof (cases "0 \<le> d")
  case True
  then show ?thesis by (rule chop_spec_nonneg)
next
  case False
  then have "\<bar>- d - prec * chop (- d)\<bar> \<le> half \<and> (\<bar>- d - prec * chop (- d)\<bar> = half \<longrightarrow> even (chop (- d)))"
    by (intro chop_spec_nonneg) simp
  moreover have c: "chop d = - chop (- d)" using False by (intro chop_neg) simp
  moreover have "- d - prec * chop (- d) = - (d - prec * chop d)" by (simp add: c)
  ultimately show ?thesis by (metis abs_minus_cancel even_minus)
qed

lemma chop_bounds: "prec * chop d \<le> d + half" "d \<le> prec * chop d + half"
  using chop_spec [of d] by (simp_all add: abs_le_iff)

text \<open>The result is determined by the specification.\<close>

lemma chop_unique:
  assumes "\<bar>d - prec * q\<bar> \<le> half" and "\<bar>d - prec * q\<bar> = half \<longrightarrow> even q"
  shows "chop d = q"
proof (rule ccontr)
  assume ne: "chop d \<noteq> q"
  define c where "c = chop d"
  have c: "\<bar>d - prec * c\<bar> \<le> half" "\<bar>d - prec * c\<bar> = half \<longrightarrow> even c"
    using chop_spec [of d] by (simp_all add: c_def)
  have "\<bar>prec * c - prec * q\<bar> = prec * \<bar>c - q\<bar>"
    using prec_positive by (simp add: abs_mult flip: right_diff_distrib)
  moreover have "prec * 1 \<le> prec * \<bar>c - q\<bar>"
    using ne prec_positive by (intro mult_left_mono) (auto simp: c_def)
  moreover have "\<bar>prec * c - prec * q\<bar> \<le> prec"
    using c(1) assms(1) prec_half by linarith
  ultimately have one: "\<bar>c - q\<bar> = 1" and "\<bar>prec * c - prec * q\<bar> = prec"
    using prec_positive by auto
  then have "\<bar>d - prec * c\<bar> = half" and "\<bar>d - prec * q\<bar> = half"
    using c(1) assms(1) prec_half by linarith+
  with c(2) assms(2) have "even c" and "even q" by simp_all
  with one show False by presburger
qed

lemma chop_mult [simp]: "chop (prec * k) = k"
  using half_pos by (intro chop_unique) simp_all

lemma chop_0 [simp]: "chop 0 = 0"
  using chop_mult [of 0] by simp

lemma chop_mono:
  assumes "d \<le> d'"
  shows "chop d \<le> chop d'"
proof (rule ccontr)
  assume "\<not> chop d \<le> chop d'"
  then have "prec * (chop d' + 1) \<le> prec * chop d"
    using prec_positive by (intro mult_left_mono) simp_all
  then have "prec * chop d' + prec \<le> prec * chop d" by (simp add: algebra_simps)
  moreover have "prec * chop d \<le> d + half" and "d' \<le> prec * chop d' + half"
    by (fact chop_bounds)+
  ultimately have "d = d'" using assms prec_half by linarith
  with \<open>\<not> chop d \<le> chop d'\<close> show False by simp
qed

lemma chop_odd: "chop (- d) = - chop d"
proof (cases d "0 :: int" rule: linorder_cases)
  case less
  then show ?thesis by (simp only: chop_neg [OF less] minus_minus)
next
  case greater
  with chop_neg [of "- d"] show ?thesis by simp
qed simp

lemma chop_nonneg_ge: "0 \<le> d \<Longrightarrow> 0 \<le> chop d"
  using chop_mono [of 0 d] by simp

end

lemma fivePrecision_half:
  "defaultBigDecPrecisionReuse = 2 * fivePrecision" "precisionReuseSDKDec = 2 * fivePrecisionSDKDec"
  "0 < fivePrecision" "0 < fivePrecisionSDKDec"
  by (simp_all add: bigdec_consts)

interpretation r36: bankers_rounding defaultBigDecPrecisionReuse fivePrecision chopPrecisionAndRound
proof unfold_locales
  show "d < 0 \<Longrightarrow> chopPrecisionAndRound d = - chopPrecisionAndRound (- d)" for d
    by (simp add: chopPrecisionAndRound.simps [of d] big_Sign_def)
  show "0 \<le> d \<Longrightarrow> chopPrecisionAndRound d =
      (if d mod defaultBigDecPrecisionReuse < fivePrecision then d div defaultBigDecPrecisionReuse
       else if fivePrecision < d mod defaultBigDecPrecisionReuse then d div defaultBigDecPrecisionReuse + 1
       else if even (d div defaultBigDecPrecisionReuse) then d div defaultBigDecPrecisionReuse
       else d div defaultBigDecPrecisionReuse + 1)" for d
    using fivePrecision_half
    by (auto simp: chopPrecisionAndRound.simps [of d] sdiv_nonneg smod_nonneg Let_def big_simps)
qed (simp_all add: fivePrecision_half)

interpretation r18: bankers_rounding precisionReuseSDKDec fivePrecisionSDKDec chopPrecisionAndRoundSdkDec
proof unfold_locales
  show "d < 0 \<Longrightarrow> chopPrecisionAndRoundSdkDec d = - chopPrecisionAndRoundSdkDec (- d)" for d
    by (simp add: chopPrecisionAndRoundSdkDec.simps [of d] big_Sign_def)
  show "0 \<le> d \<Longrightarrow> chopPrecisionAndRoundSdkDec d =
      (if d mod precisionReuseSDKDec < fivePrecisionSDKDec then d div precisionReuseSDKDec
       else if fivePrecisionSDKDec < d mod precisionReuseSDKDec then d div precisionReuseSDKDec + 1
       else if even (d div precisionReuseSDKDec) then d div precisionReuseSDKDec
       else d div precisionReuseSDKDec + 1)" for d
    using fivePrecision_half
    by (auto simp: chopPrecisionAndRoundSdkDec.simps [of d] sdiv_nonneg smod_nonneg Let_def big_simps)
qed (simp_all add: fivePrecision_half)

end
