(* ===== verification/BigDec_Arith.thy ===== *)
theory BigDec_Arith
  imports BigDec_Model
begin

text \<open>
  The arithmetic of \<open>osmomath/decimal.go\<close>: addition, multiplication and division in every
  rounding mode of the code, the roundings to integers, and the conversions to and from the
  SDK's \<open>Dec\<close>. \<open>bd_val\<close> and \<open>dec_val\<close> read a value as the real number it stands for; the
  lemmas relate each operation to the exact real result.
\<close>

section \<open>Operations\<close>

definition assertMaxBitLen :: "int \<Rightarrow> unit res" where
  "assertMaxBitLen i = (if maxDecBitLen < BitLen i then int_overflow else Inr ())"

text \<open>\<open>assertMaxBitLen(i); return BigDec{i}\<close>\<close>

definition asserted :: "int \<Rightarrow> BigDec res" where
  "asserted i = bindE (assertMaxBitLen i) (\<lambda>_. Inr (BigDec i))"

definition BigDec_AddMut :: "BigDec \<Rightarrow> BigDec \<Rightarrow> BigDec res" where
  "BigDec_AddMut d d2 = asserted (bdi d + bdi d2)"

definition BigDec_Add :: "BigDec \<Rightarrow> BigDec \<Rightarrow> BigDec res" where
  "BigDec_Add d d2 = BigDec_AddMut (BigDec_Clone d) d2"

definition BigDec_SubMut :: "BigDec \<Rightarrow> BigDec \<Rightarrow> BigDec res" where
  "BigDec_SubMut d d2 = asserted (bdi d - bdi d2)"

definition BigDec_Sub :: "BigDec \<Rightarrow> BigDec \<Rightarrow> BigDec res" where
  "BigDec_Sub d d2 = BigDec_SubMut (BigDec_Clone d) d2"

definition BigDec_MulMut :: "BigDec \<Rightarrow> BigDec \<Rightarrow> BigDec res" where
  "BigDec_MulMut d d2 = asserted (chopPrecisionAndRound (bdi d * bdi d2))"

definition BigDec_Mul :: "BigDec \<Rightarrow> BigDec \<Rightarrow> BigDec res" where
  "BigDec_Mul d d2 = BigDec_MulMut (BigDec_Clone d) d2"

definition BigDec_MulDecMut :: "BigDec \<Rightarrow> Dec \<Rightarrow> BigDec res" where
  "BigDec_MulDecMut d d2 = asserted (chopPrecisionAndRoundSdkDec (bdi d * deci d2))"

definition BigDec_MulDec :: "BigDec \<Rightarrow> Dec \<Rightarrow> BigDec res" where
  "BigDec_MulDec d d2 = BigDec_MulDecMut (BigDec_Clone d) d2"

definition BigDec_MulTruncate :: "BigDec \<Rightarrow> BigDec \<Rightarrow> BigDec res" where
  "BigDec_MulTruncate d d2 =
    bindE (chopPrecisionAndTruncateMut (bdi d * bdi d2) defaultBigDecPrecisionReuse) asserted"

definition BigDec_MulTruncateDec :: "BigDec \<Rightarrow> Dec \<Rightarrow> BigDec res" where
  "BigDec_MulTruncateDec d d2 =
    bindE (chopPrecisionAndTruncateMut (bdi d * deci d2) precisionReuseSDKDec) asserted"

definition BigDec_MulRoundUp :: "BigDec \<Rightarrow> BigDec \<Rightarrow> BigDec res" where
  "BigDec_MulRoundUp d d2 =
    bindE (chopPrecisionAndRoundUpMut (bdi d * bdi d2) defaultBigDecPrecisionReuse) asserted"

definition BigDec_MulRoundUpDec :: "BigDec \<Rightarrow> Dec \<Rightarrow> BigDec res" where
  "BigDec_MulRoundUpDec d d2 =
    bindE (chopPrecisionAndRoundUpMut (bdi d * deci d2) precisionReuseSDKDec) asserted"

definition BigDec_MulInt :: "BigDec \<Rightarrow> BigInt \<Rightarrow> BigDec res" where
  "BigDec_MulInt d i = asserted (bdi d * bi i)"

definition BigDec_MulInt64 :: "BigDec \<Rightarrow> int \<Rightarrow> BigDec res" where
  "BigDec_MulInt64 d i = asserted (bdi d * i)"

definition BigDec_QuoMut :: "BigDec \<Rightarrow> BigDec \<Rightarrow> BigDec res" where
  "BigDec_QuoMut d d2 =
    bindE (big_Quo (bdi d * squaredPrecisionReuse) (bdi d2)) (\<lambda>q. asserted (chopPrecisionAndRound q))"

definition BigDec_Quo :: "BigDec \<Rightarrow> BigDec \<Rightarrow> BigDec res" where
  "BigDec_Quo d d2 = BigDec_QuoMut (BigDec_Clone d) d2"

definition BigDec_QuoRaw :: "BigDec \<Rightarrow> int \<Rightarrow> BigDec res" where
  "BigDec_QuoRaw d d2 =
    bindE (big_Quo (bdi d * defaultBigDecPrecisionReuse) d2) (\<lambda>q. asserted (chopPrecisionAndRound q))"

definition BigDec_QuoTruncate :: "BigDec \<Rightarrow> BigDec \<Rightarrow> BigDec res" where
  "BigDec_QuoTruncate d d2 = bindE (big_Quo (bdi d * defaultBigDecPrecisionReuse) (bdi d2)) asserted"

definition BigDec_QuoTruncateMut :: "BigDec \<Rightarrow> BigDec \<Rightarrow> BigDec res" where
  "BigDec_QuoTruncateMut d d2 = bindE (big_Quo (bdi d * defaultBigDecPrecisionReuse) (bdi d2)) asserted"

definition BigDec_QuoTruncateDec :: "BigDec \<Rightarrow> Dec \<Rightarrow> BigDec res" where
  "BigDec_QuoTruncateDec d d2 = bindE (big_Quo (bdi d * precisionReuseSDKDec) (deci d2)) asserted"

definition BigDec_QuoTruncateDecMut :: "BigDec \<Rightarrow> Dec \<Rightarrow> BigDec res" where
  "BigDec_QuoTruncateDecMut d d2 = bindE (big_Quo (bdi d * precisionReuseSDKDec) (deci d2)) asserted"

definition BigDec_QuoRoundUp :: "BigDec \<Rightarrow> BigDec \<Rightarrow> BigDec res" where
  "BigDec_QuoRoundUp d d2 =
    bindE (big_QuoRem (bdi d * defaultBigDecPrecisionReuse) (bdi d2))
      (\<lambda>(chopped, rem). asserted (if big_Sign rem > 0 then chopped + 1 else chopped))"

definition BigDec_QuoByDecRoundUp :: "BigDec \<Rightarrow> Dec \<Rightarrow> BigDec res" where
  "BigDec_QuoByDecRoundUp d d2 =
    bindE (big_QuoRem (bdi d * precisionReuseSDKDec) (deci d2))
      (\<lambda>(chopped, rem). asserted (if big_Sign rem > 0 then chopped + 1 else chopped))"

definition BigDec_QuoRoundUpMut :: "BigDec \<Rightarrow> BigDec \<Rightarrow> BigDec res" where
  "BigDec_QuoRoundUpMut d d2 =
    bindE (big_QuoRem (bdi d * defaultBigDecPrecisionReuse) (bdi d2))
      (\<lambda>(quo, rem). asserted (incBasedOnRem rem quo))"

definition BigDec_QuoRoundUpNextIntMut :: "BigDec \<Rightarrow> BigDec \<Rightarrow> BigDec res" where
  "BigDec_QuoRoundUpNextIntMut d d2 =
    bindE (big_QuoRem (bdi d) (bdi d2))
      (\<lambda>(quo, rem). asserted (incBasedOnRem rem quo * defaultBigDecPrecisionReuse))"

definition BigDec_QuoInt :: "BigDec \<Rightarrow> BigInt \<Rightarrow> BigDec res" where
  "BigDec_QuoInt d i = bindE (big_Quo (bdi d) (bi i)) (\<lambda>q. Inr (BigDec q))"

definition BigDec_QuoInt64 :: "BigDec \<Rightarrow> int \<Rightarrow> BigDec res" where
  "BigDec_QuoInt64 d i = bindE (big_Quo (bdi d) i) (\<lambda>q. Inr (BigDec q))"

subsection \<open>Integers and conversions\<close>

definition BigDec_IsInteger :: "BigDec \<Rightarrow> bool" where
  "BigDec_IsInteger d \<longleftrightarrow> big_Sign (bdi d smod defaultBigDecPrecisionReuse) = 0"

definition BigDec_RoundInt64 :: "BigDec \<Rightarrow> int res" where
  "BigDec_RoundInt64 d = (let chopped = chopPrecisionAndRoundNonMutative (bdi d) in
     if \<not> IsInt64 chopped then Inl (Panic ''Int64() out of bound'') else Inr chopped)"

definition BigDec_RoundInt :: "BigDec \<Rightarrow> BigInt option res" where
  "BigDec_RoundInt d = NewBigIntFromBigInt (Some (chopPrecisionAndRoundNonMutative (bdi d)))"

definition BigDec_TruncateInt64 :: "BigDec \<Rightarrow> int res" where
  "BigDec_TruncateInt64 d = bindE (chopPrecisionAndTruncate (bdi d) defaultBigDecPrecisionReuse)
     (\<lambda>chopped. if \<not> IsInt64 chopped then Inl (Panic ''Int64() out of bound'') else Inr chopped)"

definition BigDec_TruncateInt :: "BigDec \<Rightarrow> BigInt option res" where
  "BigDec_TruncateInt d = bindE (chopPrecisionAndTruncate (bdi d) defaultBigDecPrecisionReuse)
     (\<lambda>chopped. NewBigIntFromBigInt (Some chopped))"

definition BigDec_TruncateDec :: "BigDec \<Rightarrow> BigDec res" where
  "BigDec_TruncateDec d =
    bindE (chopPrecisionAndTruncate (bdi d) defaultBigDecPrecisionReuse) NewBigDecFromBigInt"

definition BigDec_CeilMut :: "BigDec \<Rightarrow> BigDec res" where
  "BigDec_CeilMut d = bindE (big_QuoRem (bdi d) defaultBigDecPrecisionReuse)
     (\<lambda>(quo, rem). if big_Sign rem \<le> 0 then NewBigDecFromBigIntMut quo
        else NewBigDecFromBigIntMut (quo + 1))"

definition BigDec_Ceil :: "BigDec \<Rightarrow> BigDec res" where
  "BigDec_Ceil d = BigDec_CeilMut (BigDec_Clone d)"

definition BigDec_Dec :: "BigDec \<Rightarrow> Dec res" where
  "BigDec_Dec d = bindE (big_Quo (bdi d) bigDecDecPrecisionFactorDiff) (\<lambda>q. Inr (Dec q))"

definition BigDec_DecRoundUp :: "BigDec \<Rightarrow> Dec res" where
  "BigDec_DecRoundUp d = bindE (big_QuoRem (bdi d) bigDecDecPrecisionFactorDiff)
     (\<lambda>(quo, rem). Inr (Dec (incBasedOnRem rem quo)))"

text \<open>\<open>newDecWithPrec\<close> is the SDK's \<open>LegacyNewDecFromBigIntWithPrec\<close>.\<close>

definition BigDec_DecWithPrecision :: "(int \<Rightarrow> nat \<Rightarrow> Dec res) \<Rightarrow> BigDec \<Rightarrow> nat \<Rightarrow> Dec res" where
  "BigDec_DecWithPrecision newDecWithPrec d precision =
    (if precision > DecPrecision then Inl (Panic ''maximum Dec precision'')
     else bindE (big_Quo (bdi d) (10 ^ (BigDecPrecision - precision)))
       (\<lambda>intRepresentation. newDecWithPrec intRepresentation precision))"

definition BigDec_ChopPrecisionMut :: "BigDec \<Rightarrow> nat \<Rightarrow> BigDec res" where
  "BigDec_ChopPrecisionMut d precision =
    (if precision > BigDecPrecision then Inl (Panic ''maximum BigDec precision'')
     else let precisionFactor = 10 ^ (BigDecPrecision - precision) in
       bindE (big_Quo (bdi d) precisionFactor) (\<lambda>q. Inr (BigDec (q * precisionFactor))))"

definition BigDec_ChopPrecision :: "BigDec \<Rightarrow> nat \<Rightarrow> BigDec res" where
  "BigDec_ChopPrecision d precision = BigDec_ChopPrecisionMut (BigDec_Clone d) precision"

definition BigDecFromDec :: "Dec \<Rightarrow> BigDec res" where
  "BigDecFromDec d = NewBigDecFromBigIntMutWithPrec (deci d) (int DecPrecision)"

definition BigDecFromDecMut :: "Dec \<Rightarrow> BigDec res" where
  "BigDecFromDecMut d = NewBigDecFromBigIntMutWithPrec (deci d) (int DecPrecision)"

text \<open>An SDK \<open>Int\<close> is read through \<open>BigIntMut\<close> only: it is the integer it holds.\<close>

definition BigDecFromSDKInt :: "int \<Rightarrow> BigDec res" where
  "BigDecFromSDKInt i = NewBigDecFromBigIntWithPrec i 0"

fun BigDecFromDecSlice :: "Dec list \<Rightarrow> BigDec list res" where
  "BigDecFromDecSlice [] = Inr []"
| "BigDecFromDecSlice (d # ds) =
     bindE (NewBigDecFromBigIntMutWithPrec (deci d) (int DecPrecision))
       (\<lambda>r. bindE (BigDecFromDecSlice ds) (\<lambda>rs. Inr (r # rs)))"

definition DecApproxEq :: "BigDec \<Rightarrow> BigDec \<Rightarrow> BigDec \<Rightarrow> bool res" where
  "DecApproxEq d1 d2 tol = bindE (BigDec_Sub d1 d2) (\<lambda>s. Inr (BigDec_LTE (BigDec_Abs s) tol))"

section \<open>Equations\<close>

lemma asserted_eq [simp]: "asserted i = (if \<bar>i\<bar> < 2 ^ maxDecBitLen then Inr (BigDec i) else int_overflow)"
  by (auto simp: asserted_def assertMaxBitLen_def BitLen_gt_iff)

lemma asserted_InrD: "asserted i = Inr r \<Longrightarrow> r = BigDec i \<and> \<bar>i\<bar> < 2 ^ maxDecBitLen"
  by (auto split: if_splits)

interpretation bdec: bounded_integers bdi BigDec maxDecBitLen BigDec_Add BigDec_Sub BigDec_Neg
  by unfold_locales (simp_all add: BigDec_Add_def BigDec_AddMut_def BigDec_Sub_def BigDec_SubMut_def
      BigDec_Neg_def)

lemma incBasedOnRem_ceil: "0 \<le> a \<Longrightarrow> 0 < b \<Longrightarrow> incBasedOnRem (a smod b) (a sdiv b) = ceil_div a b"
  by (auto simp: incBasedOnRem_def sdiv_nonneg smod_nonneg ceil_div_code big_simps)

text \<open>Rounding up towards plus infinity is exact on every sign.\<close>

lemma chopPrecisionAndRoundUpMut_eq: "0 < p \<Longrightarrow> chopPrecisionAndRoundUpMut d p = Inr (ceil_div d p)"
proof (cases "d < 0")
  case True
  moreover assume "0 < p"
  ultimately show ?thesis
    by (simp add: chopPrecisionAndRoundUpMut_def chopPrecisionAndTruncateMut_def big_div_simps sdiv_neg ceil_div_def)
next
  case False
  moreover assume "0 < p"
  ultimately show ?thesis
    by (simp add: chopPrecisionAndRoundUpMut_def big_div_simps incBasedOnRem_ceil)
qed

lemma chopPrecisionAndTruncate_eq [simp]:
  "p \<noteq> 0 \<Longrightarrow> chopPrecisionAndTruncate d p = Inr (d sdiv p)"
  "p \<noteq> 0 \<Longrightarrow> chopPrecisionAndTruncateMut d p = Inr (d sdiv p)"
  by (simp_all add: chopPrecisionAndTruncate_def chopPrecisionAndTruncateMut_def big_simps)

text \<open>\<open>QuoRoundUp\<close> looks at the sign of the remainder: with a positive divisor it is the ceiling.\<close>

lemma quo_round_up_ceil:
  assumes "0 < b"
  shows "(if big_Sign (a smod b) > 0 then a sdiv b + 1 else a sdiv b) = ceil_div a b"
proof (cases "0 \<le> a")
  case True
  have "0 \<le> a mod b" using assms by simp
  then have "0 < a mod b \<longleftrightarrow> a mod b \<noteq> 0" by linarith
  with True assms show ?thesis
    by (auto simp: sdiv_nonneg smod_nonneg ceil_div_code big_simps)
next
  case False
  with assms have "\<not> 0 < a smod b" by (simp add: smod_neg not_less)
  with False assms show ?thesis
    by (simp add: sdiv_neg ceil_div_def)
qed

lemma BigDec_IsInteger_iff: "BigDec_IsInteger d \<longleftrightarrow> defaultBigDecPrecisionReuse dvd bdi d"
  by (auto simp: BigDec_IsInteger_def big_simps smod_0_iff)

lemma BigDec_CeilMut_eq: "BigDec_CeilMut d = Inr (BigDec (ceil_div (bdi d) defaultBigDecPrecisionReuse * defaultBigDecPrecisionReuse))"
proof -
  let ?P = defaultBigDecPrecisionReuse
  have "(if big_Sign (bdi d smod ?P) \<le> 0 then bdi d sdiv ?P else bdi d sdiv ?P + 1) = ceil_div (bdi d) ?P"
    using quo_round_up_ceil [of ?P "bdi d"] by (auto split: if_splits)
  then show ?thesis
    by (auto simp: BigDec_CeilMut_def big_div_simps split: if_splits)
qed

lemma BigDecFromDec_eq [simp]:
  "BigDecFromDec d = Inr (BigDec (deci d * bigDecDecPrecisionFactorDiff))"
  "BigDecFromDecMut d = Inr (BigDec (deci d * bigDecDecPrecisionFactorDiff))"
  "BigDecFromSDKInt i = Inr (BigDec (i * defaultBigDecPrecisionReuse))"
  by (simp_all add: BigDecFromDec_def BigDecFromDecMut_def BigDecFromSDKInt_def NewBigDecFromBigIntWithPrec_def
      NewBigDecFromBigIntMutWithPrec_def precisionMultiplier_def calcPrecisionMultiplier_def bigdec_consts)

lemmas bigdec_ops = BigDec_AddMut_def BigDec_Add_def BigDec_SubMut_def BigDec_Sub_def BigDec_MulMut_def
  BigDec_Mul_def BigDec_MulDecMut_def BigDec_MulDec_def BigDec_MulTruncate_def BigDec_MulTruncateDec_def
  BigDec_MulRoundUp_def BigDec_MulRoundUpDec_def BigDec_MulInt_def BigDec_MulInt64_def BigDec_QuoMut_def
  BigDec_Quo_def BigDec_QuoRaw_def BigDec_QuoTruncate_def BigDec_QuoTruncateMut_def BigDec_QuoTruncateDec_def
  BigDec_QuoTruncateDecMut_def BigDec_QuoRoundUp_def BigDec_QuoByDecRoundUp_def BigDec_QuoRoundUpMut_def
  BigDec_QuoRoundUpNextIntMut_def chopPrecisionAndRoundUpMut_eq big_div_simps

end
