(* ===== verification/BigDec_Rounding.thy ===== *)
theory BigDec_Rounding
  imports BigDec_Arith
begin

text \<open>
  What the arithmetic of \<open>BigDec\<close> promises, stated against exact real arithmetic: the nearest
  representable product, the two-sided bounds of the truncating and of the rounding-up
  operations, the accuracy of division, the roundings to integers, and where the rounding-up
  operations leave the exact ceiling on negative operands.
\<close>

section \<open>Values as real numbers\<close>

definition ulp :: real where
  "ulp = 1 / 10 ^ 36"

definition bd_val :: "BigDec \<Rightarrow> real" where
  "bd_val d = real_of_int (bdi d) * ulp"

definition dec_val :: "Dec \<Rightarrow> real" where
  "dec_val d = real_of_int (deci d) / 10 ^ 18"

definition BigDec_ok :: "BigDec \<Rightarrow> bool" where
  "BigDec_ok d \<longleftrightarrow> \<bar>bdi d\<bar> < 2 ^ maxDecBitLen"

definition MaxRepr :: BigDec where
  "MaxRepr = BigDec (2 ^ maxDecBitLen - 1)"

lemma ulp_pos [simp]: "0 < ulp" "0 \<le> ulp" "ulp \<noteq> 0" "\<not> ulp < 0" "\<not> ulp \<le> 0"
  by (simp_all add: ulp_def)

lemma prec_ulp: "real_of_int defaultBigDecPrecisionReuse * ulp = 1"
  by (simp add: ulp_def bigdec_consts)

lemma factor_ulp: "real_of_int bigDecDecPrecisionFactorDiff * ulp = 1 / 10 ^ 18"
  by (simp add: ulp_def bigdec_consts)

lemma ulp_times_ulp: "x * ulp \<le> y * ulp \<longleftrightarrow> x \<le> y" "x * ulp < y * ulp \<longleftrightarrow> x < y" for x y :: real
  by simp_all

lemma bd_val_mult: "bd_val d * bd_val e = real_of_int (bdi d * bdi e) * ulp * ulp"
  by (simp add: bd_val_def)

lemma bd_val_prec: "bd_val r = real_of_int (defaultBigDecPrecisionReuse * bdi r) * ulp * ulp"
proof -
  have "bd_val r = real_of_int (bdi r) * ulp * (real_of_int defaultBigDecPrecisionReuse * ulp)"
    by (simp add: prec_ulp bd_val_def)
  then show ?thesis by simp
qed

text \<open>A comparison of a value with a product is a comparison of integers.\<close>

lemma bd_val_le_mult: "bd_val r \<le> bd_val d * bd_val e \<longleftrightarrow> defaultBigDecPrecisionReuse * bdi r \<le> bdi d * bdi e"
  unfolding bd_val_mult bd_val_prec [of r] by (simp flip: of_int_mult)

lemma mult_le_bd_val: "bd_val d * bd_val e \<le> bd_val r \<longleftrightarrow> bdi d * bdi e \<le> defaultBigDecPrecisionReuse * bdi r"
  unfolding bd_val_mult bd_val_prec [of r] by (simp flip: of_int_mult)

lemma bd_val_mono: "bd_val d \<le> bd_val e \<longleftrightarrow> bdi d \<le> bdi e" "bd_val d < bd_val e \<longleftrightarrow> bdi d < bdi e"
  by (simp_all add: bd_val_def)

lemma bd_val_Neg [simp]: "bd_val (BigDec_Neg d) = - bd_val d"
  by (simp add: bd_val_def)

lemma bd_val_eq_iff: "bd_val d = bd_val e \<longleftrightarrow> d = e"
  by (auto simp: bd_val_def BigDec.expand)

lemma bd_val_sgn: "0 \<le> bd_val d \<longleftrightarrow> 0 \<le> bdi d" "0 < bd_val d \<longleftrightarrow> 0 < bdi d" "bd_val d < 0 \<longleftrightarrow> bdi d < 0"
  by (simp_all add: bd_val_def zero_le_mult_iff zero_less_mult_iff mult_less_0_iff)

lemma dist_to_product:
  "\<bar>bd_val r - bd_val d * bd_val e\<bar> = real_of_int \<bar>defaultBigDecPrecisionReuse * bdi r - bdi d * bdi e\<bar> * (ulp * ulp)"
proof -
  have "bd_val r - bd_val d * bd_val e
      = real_of_int (defaultBigDecPrecisionReuse * bdi r - bdi d * bdi e) * (ulp * ulp)"
    unfolding bd_val_mult bd_val_prec [of r] by (simp add: algebra_simps)
  then show ?thesis by (simp add: abs_mult)
qed

section \<open>Multiplication\<close>

lemma chop_abs_bound:
  assumes "\<bar>x\<bar> \<le> defaultBigDecPrecisionReuse * k"
  shows "\<bar>chopPrecisionAndRound x\<bar> \<le> k"
proof -
  have "chopPrecisionAndRound x \<le> k"
    using r36.chop_mono [of x "defaultBigDecPrecisionReuse * k"] assms by simp
  moreover have "chopPrecisionAndRound (- x) \<le> k"
    using r36.chop_mono [of "- x" "defaultBigDecPrecisionReuse * k"] assms by simp
  ultimately show ?thesis by (simp add: r36.chop_odd abs_le_iff)
qed

lemma chop_nearest:
  assumes "q \<noteq> chopPrecisionAndRound x"
  shows "\<bar>x - defaultBigDecPrecisionReuse * chopPrecisionAndRound x\<bar> \<le> \<bar>x - defaultBigDecPrecisionReuse * q\<bar> \<and>
    (\<bar>x - defaultBigDecPrecisionReuse * q\<bar> = \<bar>x - defaultBigDecPrecisionReuse * chopPrecisionAndRound x\<bar>
      \<longrightarrow> even (chopPrecisionAndRound x))"
proof -
  let ?P = defaultBigDecPrecisionReuse and ?c = "chopPrecisionAndRound x"
  have "?P * 1 \<le> ?P * \<bar>?c - q\<bar>" using assms by (intro mult_left_mono) auto
  moreover have "?P * \<bar>?c - q\<bar> = \<bar>?P * ?c - ?P * q\<bar>"
    by (simp add: abs_mult flip: right_diff_distrib)
  ultimately have "2 * fivePrecision \<le> \<bar>?P * ?c - ?P * q\<bar>"
    using fivePrecision_half by simp
  with r36.chop_spec [of x] show ?thesis by linarith
qed

text \<open>C6: \<open>BigDec.Mul\<close> returns the representable value nearest to the exact product, the even one
  of two equally near, whenever the product does not exceed the largest representable value in
  magnitude; it panics only beyond that bound.\<close>

theorem BigDec_Mul_nearest:
  assumes "\<bar>bd_val d * bd_val e\<bar> \<le> bd_val MaxRepr"
  shows "\<exists>r. BigDec_Mul d e = Inr r \<and>
    (\<forall>r'. \<bar>bd_val r - bd_val d * bd_val e\<bar> \<le> \<bar>bd_val r' - bd_val d * bd_val e\<bar>) \<and>
    (\<forall>r'. r' \<noteq> r \<and> \<bar>bd_val r' - bd_val d * bd_val e\<bar> = \<bar>bd_val r - bd_val d * bd_val e\<bar> \<longrightarrow> even (bdi r))"
proof -
  let ?P = defaultBigDecPrecisionReuse and ?x = "bdi d * bdi e"
  let ?r = "BigDec (chopPrecisionAndRound ?x)"
  have "bd_val d * bd_val e \<le> bd_val MaxRepr" and "bd_val (BigDec_Neg d) * bd_val e \<le> bd_val MaxRepr"
    using assms by (simp_all only: bd_val_Neg mult_minus_left abs_le_iff)
  then have "\<bar>?x\<bar> \<le> ?P * (2 ^ maxDecBitLen - 1)"
    unfolding mult_le_bd_val by (auto simp: MaxRepr_def abs_le_iff)
  then have "\<bar>chopPrecisionAndRound ?x\<bar> < 2 ^ maxDecBitLen"
    using chop_abs_bound by fastforce
  then have ret: "BigDec_Mul d e = Inr ?r"
    by (simp add: bigdec_ops)
  have near: "\<bar>?P * bdi ?r - ?x\<bar> \<le> \<bar>?P * bdi r' - ?x\<bar>" for r'
    using chop_nearest [of "bdi r'" ?x] by (cases "bdi r' = bdi ?r") (auto simp: abs_minus_commute)
  have tie: "even (bdi ?r)" if "r' \<noteq> ?r" and "\<bar>?P * bdi r' - ?x\<bar> = \<bar>?P * bdi ?r - ?x\<bar>" for r'
    using chop_nearest [of "bdi r'" ?x] that
    by (metis BigDec.collapse BigDec.sel abs_minus_commute)
  show ?thesis
    unfolding dist_to_product
    using ret near tie by (intro exI [of _ ?r]) (auto simp: ulp_def simp flip: of_int_abs)
qed

theorem BigDec_Mul_nearest_witness:
  "\<exists>r. BigDec_Mul twoBigDec SmallestBigDec = Inr r \<and>
    (\<forall>r'. \<bar>bd_val r - bd_val twoBigDec * bd_val SmallestBigDec\<bar> \<le> \<bar>bd_val r' - bd_val twoBigDec * bd_val SmallestBigDec\<bar>)"
proof -
  have "\<bar>bd_val twoBigDec * bd_val SmallestBigDec\<bar> \<le> bd_val MaxRepr"
    by (simp add: bd_val_def ulp_def MaxRepr_def bigdec_consts)
  from BigDec_Mul_nearest [OF this] show ?thesis by blast
qed

text \<open>C26: For a non-negative product, \<open>MulTruncate\<close> and \<open>MulRoundUp\<close> enclose it: the truncated
  product is at most the exact one, the rounded-up product at least, they are at most one unit
  in the last place apart, and they agree exactly when the product is representable.\<close>

theorem BigDec_Mul_enclosure:
  assumes "BigDec_MulTruncate d e = Inr t" and "BigDec_MulRoundUp d e = Inr u" and "0 \<le> bd_val d * bd_val e"
  shows "bd_val t \<le> bd_val d * bd_val e \<and> bd_val d * bd_val e \<le> bd_val u \<and> bd_val u - bd_val t \<le> ulp \<and>
    (t = u \<longleftrightarrow> bd_val t = bd_val d * bd_val e)"
proof -
  let ?P = defaultBigDecPrecisionReuse and ?x = "bdi d * bdi e"
  have x: "0 \<le> ?x" using assms(3) unfolding bd_val_mult by (simp add: zero_le_mult_iff)
  have t: "bdi t = ?x div ?P" and u: "bdi u = ceil_div ?x ?P"
    using assms(1,2) x by (auto simp: bigdec_ops sdiv_nonneg split: if_splits)
  have le: "bd_val t \<le> bd_val d * bd_val e" "bd_val d * bd_val e \<le> bd_val u"
    unfolding bd_val_le_mult mult_le_bd_val t u by (simp_all add: mult_div_le ceil_div_ge)
  have "bdi u \<le> bdi t + 1" unfolding t u by (simp add: ceil_div_le_Suc_div)
  then have "bd_val u - bd_val t \<le> ulp"
    by (simp add: bd_val_def flip: left_diff_distrib of_int_diff)
  moreover have "t = u \<longleftrightarrow> bd_val t = bd_val d * bd_val e"
  proof
    assume "t = u"
    with le show "bd_val t = bd_val d * bd_val e" by simp
  next
    assume "bd_val t = bd_val d * bd_val e"
    then have "bd_val d * bd_val e \<le> bd_val t" by simp
    then have "bdi u \<le> bdi t" unfolding mult_le_bd_val u by (simp add: ceil_div_le_iff)
    moreover have "bdi t \<le> bdi u" unfolding t u by (simp add: div_le_ceil_div)
    ultimately show "t = u" by (simp add: BigDec.expand)
  qed
  ultimately show ?thesis using le by blast
qed

theorem BigDec_Mul_enclosure_witness:
  "bd_val (BigDec 0) \<le> bd_val SmallestBigDec * bd_val SmallestBigDec \<and>
   bd_val SmallestBigDec * bd_val SmallestBigDec \<le> bd_val (BigDec 1)"
  using BigDec_Mul_enclosure [of SmallestBigDec SmallestBigDec "BigDec 0" "BigDec 1"]
  by (simp add: bigdec_ops bigdec_consts bd_val_def ceil_div_code sdiv_nonneg)

section \<open>Division\<close>

lemma bd_val_div: "bd_val d / bd_val e = real_of_int (bdi d) / real_of_int (bdi e)"
  by (simp add: bd_val_def)

lemma sdiv_real_error:
  assumes "b \<noteq> 0"
  shows "\<bar>real_of_int a / real_of_int b - real_of_int (a sdiv b)\<bar> < 1"
proof -
  have "real_of_int \<bar>a - b * (a sdiv b)\<bar> < real_of_int \<bar>b\<bar>"
    using sdiv_mult_bound [OF assms] by (simp only: of_int_less_iff)
  moreover have "real_of_int a / real_of_int b - real_of_int (a sdiv b) = real_of_int (a - b * (a sdiv b)) / real_of_int b"
    using assms by (simp add: field_simps)
  ultimately show ?thesis using assms by (simp add: abs_divide)
qed

lemma Quo_error:
  assumes "BigDec_Quo d e = Inr r"
  shows "\<bar>bd_val d / bd_val e - bd_val r\<bar> < ulp / 2 + ulp * ulp"
proof -
  let ?P = "real_of_int defaultBigDecPrecisionReuse"
  have nz: "bdi e \<noteq> 0" using assms by (auto simp: bigdec_ops)
  define q where "q = (bdi d * squaredPrecisionReuse) sdiv bdi e"
  have r: "bdi r = chopPrecisionAndRound q"
    using assms nz by (auto simp: bigdec_ops q_def split: if_splits)
  have "\<bar>q - defaultBigDecPrecisionReuse * bdi r\<bar> \<le> fivePrecision"
    unfolding r using r36.chop_spec by blast
  then have "real_of_int \<bar>q - defaultBigDecPrecisionReuse * bdi r\<bar> \<le> real_of_int fivePrecision"
    by (simp only: of_int_le_iff)
  then have a: "\<bar>real_of_int q - ?P * real_of_int (bdi r)\<bar> \<le> ?P / 2"
    using fivePrecision_half by simp
  have b: "\<bar>real_of_int (bdi d * squaredPrecisionReuse) / real_of_int (bdi e) - real_of_int q\<bar> < 1"
    unfolding q_def using nz by (rule sdiv_real_error)
  have "real_of_int (bdi d * squaredPrecisionReuse) / real_of_int (bdi e)
      = real_of_int (bdi d) / real_of_int (bdi e) * (?P * ?P)"
    by (simp add: squaredPrecisionReuse_def)
  with a b have "\<bar>real_of_int (bdi d) / real_of_int (bdi e) * (?P * ?P) - ?P * real_of_int (bdi r)\<bar> < ?P / 2 + 1"
    by linarith
  moreover have "bd_val d / bd_val e - bd_val r
      = (real_of_int (bdi d) / real_of_int (bdi e) * (?P * ?P) - ?P * real_of_int (bdi r)) * (ulp * ulp)"
    by (simp add: bd_val_div bd_val_def ulp_def bigdec_consts field_simps)
  ultimately have "\<bar>bd_val d / bd_val e - bd_val r\<bar> < (?P / 2 + 1) * (ulp * ulp)"
    by (simp add: abs_mult)
  also have "(?P / 2 + 1) * (ulp * ulp) = ulp / 2 + ulp * ulp"
    by (simp add: ulp_def bigdec_consts field_simps)
  finally show ?thesis .
qed

text \<open>C25: \<open>BigDec.Quo\<close> first truncates the quotient at 72 digits and then rounds it to 36: a
  quotient it returns differs from the exact one by less than half a unit in the last place
  plus one unit of the 72nd digit, and a zero divisor panics.\<close>

theorem BigDec_Quo_error:
  "(bdi e = 0 \<longrightarrow> BigDec_Quo d e = division_by_zero) \<and>
   (\<forall>r. BigDec_Quo d e = Inr r \<longrightarrow> \<bar>bd_val d / bd_val e - bd_val r\<bar> < ulp / 2 + ulp * ulp)"
  using Quo_error by (auto simp: bigdec_ops)

theorem BigDec_Quo_error_witness:
  "BigDec_Quo OneBigDec ZeroBigDec = division_by_zero \<and>
   BigDec_Quo OneBigDec (BigDec (3 * defaultBigDecPrecisionReuse)) = Inr (BigDec 333333333333333333333333333333333333) \<and>
   \<bar>bd_val OneBigDec / bd_val (BigDec (3 * defaultBigDecPrecisionReuse)) - bd_val (BigDec 333333333333333333333333333333333333)\<bar>
     < ulp / 2 + ulp * ulp"
proof -
  have "BigDec_Quo OneBigDec (BigDec (3 * defaultBigDecPrecisionReuse)) = Inr (BigDec 333333333333333333333333333333333333)"
    by (simp add: bigdec_ops bigdec_consts chopPrecisionAndRound.simps)
  then show ?thesis
    using BigDec_Quo_error [of ZeroBigDec OneBigDec] BigDec_Quo_error [of "BigDec (3 * defaultBigDecPrecisionReuse)" OneBigDec]
    by simp
qed

lemma quo_real_le:
  assumes "0 < bdi e"
  shows "bd_val r \<le> bd_val d / bd_val e \<longleftrightarrow> bdi e * bdi r \<le> bdi d * defaultBigDecPrecisionReuse"
    and "bd_val d / bd_val e \<le> bd_val r \<longleftrightarrow> bdi d * defaultBigDecPrecisionReuse \<le> bdi e * bdi r"
proof -
  have u: "ulp = 1 / real_of_int defaultBigDecPrecisionReuse" by (simp add: ulp_def bigdec_consts)
  have "bd_val r \<le> bd_val d / bd_val e \<longleftrightarrow> real_of_int (bdi e * bdi r) \<le> real_of_int (bdi d * defaultBigDecPrecisionReuse)"
    unfolding bd_val_div using assms by (simp add: bd_val_def u field_simps)
  then show "bd_val r \<le> bd_val d / bd_val e \<longleftrightarrow> bdi e * bdi r \<le> bdi d * defaultBigDecPrecisionReuse"
    by (simp only: of_int_le_iff)
  have "bd_val d / bd_val e \<le> bd_val r \<longleftrightarrow> real_of_int (bdi d * defaultBigDecPrecisionReuse) \<le> real_of_int (bdi e * bdi r)"
    unfolding bd_val_div using assms by (simp add: bd_val_def u field_simps)
  then show "bd_val d / bd_val e \<le> bd_val r \<longleftrightarrow> bdi d * defaultBigDecPrecisionReuse \<le> bdi e * bdi r"
    by (simp only: of_int_le_iff)
qed

lemma QuoRoundUpMut_nonneg:
  "0 \<le> bdi d \<Longrightarrow> 0 < bdi e \<Longrightarrow> BigDec_QuoRoundUpMut d e = asserted (ceil_div (bdi d * defaultBigDecPrecisionReuse) (bdi e))"
  by (simp add: BigDec_QuoRoundUpMut_def big_div_simps incBasedOnRem_ceil del: asserted_eq)

lemma QuoRoundUp_pos:
  "0 < bdi e \<Longrightarrow> BigDec_QuoRoundUp d e = asserted (ceil_div (bdi d * defaultBigDecPrecisionReuse) (bdi e))"
  using quo_round_up_ceil [of "bdi e" "bdi d * defaultBigDecPrecisionReuse"]
  by (simp add: BigDec_QuoRoundUp_def big_div_simps del: asserted_eq)

text \<open>With a non-negative dividend and a positive divisor, \<open>QuoTruncate\<close> and \<open>QuoRoundUp\<close>
  enclose the exact quotient within one unit in the last place, and the mutating
  \<open>QuoRoundUpMut\<close> returns the same value as \<open>QuoRoundUp\<close>.\<close>

theorem BigDec_Quo_enclosure:
  assumes "0 \<le> bdi d" and "0 < bdi e"
    and "BigDec_QuoTruncate d e = Inr t" and "BigDec_QuoRoundUp d e = Inr u"
  shows "bd_val t \<le> bd_val d / bd_val e \<and> bd_val d / bd_val e \<le> bd_val u \<and> bd_val u - bd_val t \<le> ulp \<and>
    BigDec_QuoRoundUpMut d e = Inr u"
proof -
  let ?x = "bdi d * defaultBigDecPrecisionReuse"
  have x: "0 \<le> ?x" using assms(1) by simp
  have t: "bdi t = ?x div bdi e"
    using assms(2,3) x by (auto simp: bigdec_ops sdiv_nonneg split: if_splits)
  have u: "bdi u = ceil_div ?x (bdi e)"
    using assms(4) unfolding QuoRoundUp_pos [OF assms(2)] by (auto split: if_splits)
  have "bdi u \<le> bdi t + 1" unfolding t u using assms(2) by (rule ceil_div_le_Suc_div)
  then have "bd_val u - bd_val t \<le> ulp"
    by (simp add: bd_val_def flip: left_diff_distrib of_int_diff)
  moreover have "bd_val t \<le> bd_val d / bd_val e" "bd_val d / bd_val e \<le> bd_val u"
    unfolding quo_real_le [OF assms(2)] t u using assms(2) by (simp_all add: mult_div_le ceil_div_ge)
  moreover have "BigDec_QuoRoundUpMut d e = Inr u"
    using assms(4) QuoRoundUp_pos [OF assms(2)] QuoRoundUpMut_nonneg [OF assms(1,2)] by simp
  ultimately show ?thesis by blast
qed

theorem BigDec_Quo_enclosure_witness:
  "bd_val (BigDec 333333333333333333333333333333333333) \<le> bd_val OneBigDec / bd_val (BigDec (3 * defaultBigDecPrecisionReuse)) \<and>
   BigDec_QuoRoundUpMut OneBigDec (BigDec (3 * defaultBigDecPrecisionReuse)) = Inr (BigDec 333333333333333333333333333333333334)"
proof -
  let ?e = "BigDec (3 * defaultBigDecPrecisionReuse)"
  have "0 \<le> bdi OneBigDec" "0 < bdi ?e"
    "BigDec_QuoTruncate OneBigDec ?e = Inr (BigDec 333333333333333333333333333333333333)"
    "BigDec_QuoRoundUp OneBigDec ?e = Inr (BigDec 333333333333333333333333333333333334)"
    by (simp_all add: bigdec_ops bigdec_consts)
  from BigDec_Quo_enclosure [OF this] show ?thesis by blast
qed



end
