(* ===== verification/BigDec_Convert.thy ===== *)
theory BigDec_Convert
  imports BigDec_Rounding
begin

text \<open>
  The bit bound as the invariant of the arithmetic, the roundings of a \<open>BigDec\<close> to an integer
  or to fewer digits, and the conversions between \<open>BigDec\<close> (36 digits) and the SDK's \<open>Dec\<close>
  (18 digits).
\<close>

section \<open>The bit bound\<close>



text \<open>The same for the operations that take a \<open>Dec\<close>, an integer or an \<open>int64\<close>.\<close>

lemma BigDec_dec_ops_bounded:
  assumes "op \<in> {BigDec_MulDec, BigDec_MulDecMut, BigDec_MulTruncateDec, BigDec_MulRoundUpDec,
      BigDec_QuoTruncateDec, BigDec_QuoTruncateDecMut, BigDec_QuoByDecRoundUp}"
    and "op d e = Inr r"
  shows "BigDec_ok r"
proof -
  have "\<exists>i. op d e = asserted i \<or> (\<exists>err. op d e = Inl err)"
    using assms(1) by (auto simp: bigdec_ops simp del: asserted_eq)
  with assms(2) show ?thesis by (auto simp: BigDec_ok_def split: if_splits)
qed

text \<open>Subtraction undoes addition: for operands in range, if \<open>Add\<close> returns a sum then \<open>Sub\<close>
  of the second operand returns the first, and adding values of opposite sign never panics.\<close>

theorem BigDec_Add_Sub_cancel:
  assumes "BigDec_ok a" and "BigDec_ok b"
  shows "(\<forall>c. BigDec_Add a b = Inr c \<longrightarrow> BigDec_Sub c b = Inr a) \<and>
    (bdi a * bdi b \<le> 0 \<longrightarrow> is_ok (BigDec_Add a b))"
  using assms unfolding BigDec_ok_def by (blast intro: bdec.Add_Sub_cancel bdec.Add_total)

theorem BigDec_Add_Sub_cancel_witness:
  "BigDec_Sub (BigDec (3 * defaultBigDecPrecisionReuse)) twoBigDec = Inr OneBigDec"
proof -
  have "BigDec_ok OneBigDec" "BigDec_ok twoBigDec"
    "BigDec_Add OneBigDec twoBigDec = Inr (BigDec (3 * defaultBigDecPrecisionReuse))"
    by (simp_all add: BigDec_ok_def bigdec_ops bigdec_consts)
  then show ?thesis using BigDec_Add_Sub_cancel [of OneBigDec twoBigDec] by blast
qed

text \<open>Multiplication by a non-negative factor is monotone: rounding never reverses the order of
  two products that are both returned.\<close>

theorem BigDec_Mul_mono:
  assumes "bd_val a \<le> bd_val b" and "0 \<le> bd_val c" and "BigDec_Mul a c = Inr x" and "BigDec_Mul b c = Inr y"
  shows "bd_val x \<le> bd_val y"
proof -
  have "bdi a * bdi c \<le> bdi b * bdi c"
    using assms(1,2) by (intro mult_right_mono) (simp_all add: bd_val_mono bd_val_sgn)
  then have "chopPrecisionAndRound (bdi a * bdi c) \<le> chopPrecisionAndRound (bdi b * bdi c)"
    by (rule r36.chop_mono)
  then show ?thesis
    using assms(3,4) by (auto simp: bigdec_ops bd_val_mono split: if_splits)
qed

theorem BigDec_Mul_mono_witness: "bd_val OneBigDec \<le> bd_val twoBigDec"
  by (rule BigDec_Mul_mono [of OneBigDec twoBigDec OneBigDec])
    (simp_all add: bd_val_mono bd_val_sgn bigdec_ops bigdec_consts OneBigDec_def twoBigDec_def chopPrecisionAndRound.simps)

section \<open>Roundings to integers and to fewer digits\<close>

text \<open>\<open>Ceil\<close> always returns, and returns the least integral \<open>BigDec\<close> that is not below its
  argument, for either sign.\<close>

theorem BigDec_Ceil_least:
  "\<exists>c. BigDec_Ceil d = Inr c \<and> BigDec_IsInteger c \<and> bd_val d \<le> bd_val c \<and>
    (\<forall>k. BigDec_IsInteger k \<and> bd_val d \<le> bd_val k \<longrightarrow> bd_val c \<le> bd_val k)"
proof -
  let ?P = defaultBigDecPrecisionReuse
  define c where "c = ceil_div (bdi d) ?P"
  have "bdi (BigDec (c * ?P)) \<le> bdi k" if "BigDec_IsInteger k" and "bdi d \<le> bdi k" for k
  proof -
    from that(1) obtain m where m: "bdi k = ?P * m" unfolding BigDec_IsInteger_iff by (elim dvdE)
    with that(2) have "c \<le> m" unfolding c_def by (simp add: ceil_div_le_iff)
    then have "?P * c \<le> ?P * m" by (intro mult_left_mono) simp_all
    then show ?thesis by (simp add: m mult.commute)
  qed
  moreover have "bdi d \<le> c * ?P" unfolding c_def using ceil_div_ge [of ?P "bdi d"] by (simp add: mult.commute)
  moreover have "BigDec_Ceil d = Inr (BigDec (c * ?P))"
    unfolding BigDec_Ceil_def c_def by (simp add: BigDec_CeilMut_eq)
  ultimately show ?thesis
    unfolding bd_val_mono by (intro exI [of _ "BigDec (c * ?P)"]) (auto simp: BigDec_IsInteger_iff)
qed

theorem BigDec_Ceil_least_witness:
  "\<exists>c. BigDec_Ceil SmallestBigDec = Inr c \<and> bd_val c \<le> bd_val OneBigDec"
proof -
  have "BigDec_IsInteger OneBigDec \<and> bd_val SmallestBigDec \<le> bd_val OneBigDec"
    by (simp add: BigDec_IsInteger_iff bd_val_mono bigdec_consts)
  with BigDec_Ceil_least [of SmallestBigDec] show ?thesis by blast
qed

text \<open>\<open>ChopPrecision\<close> keeps the given number of decimals: the result has no digit beyond them,
  is not larger in magnitude than the argument, differs from it by less than the last kept
  digit, and chopping again changes nothing. More than 36 decimals panic.\<close>

theorem BigDec_ChopPrecision_spec:
  assumes "n \<le> BigDecPrecision"
  shows "\<exists>c. BigDec_ChopPrecision d n = Inr c \<and> 10 ^ (BigDecPrecision - n) dvd bdi c \<and>
    \<bar>bd_val c\<bar> \<le> \<bar>bd_val d\<bar> \<and> \<bar>bd_val d - bd_val c\<bar> < 1 / 10 ^ n \<and> BigDec_ChopPrecision c n = Inr c"
proof -
  define f :: int where "f = 10 ^ (BigDecPrecision - n)"
  have f: "0 < f" by (simp add: f_def)
  define c where "c = BigDec ((bdi d sdiv f) * f)"
  have ret: "BigDec_ChopPrecision e n = Inr (BigDec ((bdi e sdiv f) * f))" for e
    using assms f by (simp add: BigDec_ChopPrecision_def BigDec_ChopPrecisionMut_def big_div_simps Let_def f_def [symmetric])
  have "\<bar>bdi c\<bar> = (\<bar>bdi d\<bar> div f) * f"
    using f by (simp add: c_def abs_mult sdiv_abs)
  also have "\<dots> \<le> \<bar>bdi d\<bar>" using mult_div_le [OF f, of "\<bar>bdi d\<bar>"] by (simp add: mult.commute)
  finally have "\<bar>bd_val c\<bar> \<le> \<bar>bd_val d\<bar>" by (simp add: bd_val_def abs_mult)
  moreover have "\<bar>bd_val d - bd_val c\<bar> < 1 / 10 ^ n"
  proof -
    have "\<bar>bdi d - bdi c\<bar> < f"
      using sdiv_mult_bound [of f "bdi d"] f by (simp add: c_def mult.commute)
    then have "real_of_int \<bar>bdi d - bdi c\<bar> * ulp < real_of_int f * ulp" by simp
    also have "real_of_int f * ulp = 1 / 10 ^ n"
      unfolding f_def of_int_power of_int_numeral
      using assms by (simp add: ulp_def power_diff BigDecPrecision_def)
    also have "real_of_int \<bar>bdi d - bdi c\<bar> * ulp = \<bar>bd_val d - bd_val c\<bar>"
      by (simp add: bd_val_def abs_mult flip: left_diff_distrib)
    finally show ?thesis .
  qed
  moreover have "bdi c smod f = 0" by (simp add: c_def smod_0_iff)
  then have "(bdi c sdiv f) * f = bdi c"
    using minus_sdiv_mult_eq_smod [of "bdi c" f] by linarith
  ultimately show ?thesis
    using ret by (intro exI [of _ c]) (auto simp: c_def f_def)
qed

theorem BigDec_ChopPrecision_spec_witness:
  "\<exists>c. BigDec_ChopPrecision (BigDec 1010100000000153000000000000000000000) 4 = Inr c \<and>
    \<bar>bd_val (BigDec 1010100000000153000000000000000000000) - bd_val c\<bar> < 1 / 10 ^ 4"
  using BigDec_ChopPrecision_spec [of 4 "BigDec 1010100000000153000000000000000000000"]
  by (auto simp: bigdec_consts)

section \<open>Conversion to and from the SDK's \<open>Dec\<close>\<close>

lemma dec_val_cmp:
  "dec_val x \<le> bd_val d \<longleftrightarrow> bigDecDecPrecisionFactorDiff * deci x \<le> bdi d"
  "bd_val d \<le> dec_val x \<longleftrightarrow> bdi d \<le> bigDecDecPrecisionFactorDiff * deci x"
proof -
  have "dec_val x = real_of_int (bigDecDecPrecisionFactorDiff * deci x) * ulp"
    by (simp add: dec_val_def ulp_def bigdec_consts)
  then show "dec_val x \<le> bd_val d \<longleftrightarrow> bigDecDecPrecisionFactorDiff * deci x \<le> bdi d"
    and "bd_val d \<le> dec_val x \<longleftrightarrow> bdi d \<le> bigDecDecPrecisionFactorDiff * deci x"
    by (simp_all add: bd_val_def del: of_int_mult)
qed

lemma BigDec_Dec_eq: "BigDec_Dec d = Inr (Dec (bdi d sdiv bigDecDecPrecisionFactorDiff))"
  by (simp add: BigDec_Dec_def big_div_simps)

lemma BigDec_DecRoundUp_eq:
  "BigDec_DecRoundUp d = Inr (Dec (incBasedOnRem (bdi d smod bigDecDecPrecisionFactorDiff) (bdi d sdiv bigDecDecPrecisionFactorDiff)))"
  by (simp add: BigDec_DecRoundUp_def big_div_simps)

text \<open>A \<open>Dec\<close> survives the conversion to \<open>BigDec\<close> and back, by either conversion, with its value
  unchanged; and a non-negative \<open>BigDec\<close> lies between \<open>Dec()\<close> and \<open>DecRoundUp()\<close>, which are at
  most one 18th digit apart.\<close>

theorem BigDec_Dec_roundtrip:
  "bindE (BigDecFromDec x) BigDec_Dec = Inr x \<and> bindE (BigDecFromDec x) BigDec_DecRoundUp = Inr x \<and>
   (\<exists>b. BigDecFromDec x = Inr b \<and> bd_val b = dec_val x) \<and>
   (0 \<le> bd_val d \<longrightarrow> (\<exists>lo hi. BigDec_Dec d = Inr lo \<and> BigDec_DecRoundUp d = Inr hi \<and>
      dec_val lo \<le> bd_val d \<and> bd_val d \<le> dec_val hi \<and> dec_val hi - dec_val lo \<le> 1 / 10 ^ 18))"
proof -
  let ?f = bigDecDecPrecisionFactorDiff
  have m: "deci x * ?f smod ?f = 0" by (simp add: smod_0_iff)
  then have "(deci x * ?f) sdiv ?f * ?f = deci x * ?f"
    using minus_sdiv_mult_eq_smod [of "deci x * ?f" ?f] by simp
  then have d: "(deci x * ?f) sdiv ?f = deci x" by (metis mult_right_cancel prec_nonzero(4))
  have rt: "bindE (BigDecFromDec x) BigDec_Dec = Inr x" "bindE (BigDecFromDec x) BigDec_DecRoundUp = Inr x"
    by (simp_all add: BigDec_Dec_eq BigDec_DecRoundUp_eq incBasedOnRem_def m d)
  have val: "bd_val (BigDec (deci x * ?f)) = dec_val x"
    by (simp add: bd_val_def dec_val_def ulp_def bigdec_consts)
  have "\<exists>lo hi. BigDec_Dec d = Inr lo \<and> BigDec_DecRoundUp d = Inr hi \<and>
      dec_val lo \<le> bd_val d \<and> bd_val d \<le> dec_val hi \<and> dec_val hi - dec_val lo \<le> 1 / 10 ^ 18"
    if "0 \<le> bd_val d"
  proof -
    have nn: "0 \<le> bdi d" using that by (simp add: bd_val_sgn)
    let ?lo = "Dec (bdi d div ?f)" and ?hi = "Dec (ceil_div (bdi d) ?f)"
    have "deci ?hi \<le> deci ?lo + 1" by (simp add: ceil_div_le_Suc_div)
    then have "dec_val ?hi - dec_val ?lo \<le> 1 / 10 ^ 18"
      by (simp add: dec_val_def field_simps flip: of_int_diff)
    moreover have "dec_val ?lo \<le> bd_val d" "bd_val d \<le> dec_val ?hi"
      unfolding dec_val_cmp by (simp_all add: mult_div_le ceil_div_ge)
    moreover have "BigDec_Dec d = Inr ?lo" using nn by (simp add: BigDec_Dec_eq sdiv_nonneg)
    moreover have "BigDec_DecRoundUp d = Inr ?hi" using nn by (simp add: BigDec_DecRoundUp_eq incBasedOnRem_ceil)
    ultimately show ?thesis by blast
  qed
  with rt val show ?thesis by (auto simp del: bindE_Inr)
qed

theorem BigDec_Dec_roundtrip_witness:
  "\<exists>lo hi. BigDec_Dec SmallestBigDec = Inr lo \<and> BigDec_DecRoundUp SmallestBigDec = Inr hi \<and>
      dec_val lo \<le> bd_val SmallestBigDec \<and> bd_val SmallestBigDec \<le> dec_val hi"
proof -
  have "0 \<le> bd_val SmallestBigDec" by (simp add: bd_val_sgn)
  with BigDec_Dec_roundtrip [of "Dec 0" SmallestBigDec] show ?thesis by blast
qed

text \<open>On a negative argument with digits beyond the 18th, \<open>DecRoundUp\<close> does not return the next
  \<open>Dec\<close> above it but the one after: a \<open>Dec\<close> that is still not below the argument lies one 18th
  digit under the result. In particular the smallest negative \<open>BigDec\<close> becomes a positive
  \<open>Dec\<close>.\<close>

theorem DecRoundUp_negative_overshoots:
  assumes "bdi d < 0" and "\<not> bigDecDecPrecisionFactorDiff dvd bdi d"
  shows "(\<exists>hi. BigDec_DecRoundUp d = Inr hi \<and> bd_val d \<le> dec_val (Dec (deci hi - 1))) \<and>
    BigDec_DecRoundUp (BigDec (- 1)) = Inr (Dec 1)"
proof -
  let ?f = bigDecDecPrecisionFactorDiff
  have "bdi d smod ?f \<noteq> 0" using assms(2) by (simp add: smod_0_iff)
  then have "BigDec_DecRoundUp d = Inr (Dec (ceil_div (bdi d) ?f + 1))"
    using assms(1) by (simp add: BigDec_DecRoundUp_eq incBasedOnRem_def sdiv_neg ceil_div_def)
  moreover have "bd_val d \<le> dec_val (Dec (ceil_div (bdi d) ?f))"
    unfolding dec_val_cmp by (simp add: ceil_div_ge)
  moreover have "BigDec_DecRoundUp (BigDec (- 1)) = Inr (Dec 1)"
    by (simp add: BigDec_DecRoundUp_eq incBasedOnRem_def bigdec_consts sdiv_nonneg smod_nonneg)
  ultimately show ?thesis by simp
qed

theorem DecRoundUp_negative_overshoots_witness:
  "\<exists>hi. BigDec_DecRoundUp (BigDec (- 1)) = Inr hi \<and> bd_val (BigDec (- 1)) \<le> dec_val (Dec (deci hi - 1))"
proof -
  have "bdi (BigDec (- 1)) < 0" "\<not> bigDecDecPrecisionFactorDiff dvd bdi (BigDec (- 1))"
    by (simp_all add: bigdec_consts)
  from DecRoundUp_negative_overshoots [OF this] show ?thesis by blast
qed

end
