(* ===== verification/Go_Text.thy ===== *)
theory Go_Text
  imports Go_Prelude
begin

text \<open>
  The text of a \<open>big.Int\<close> in Go's standard library: \<open>MarshalText\<close> (decimal digits, a minus
  sign for a negative number), \<open>SetString\<close> in base 10, and the scanner in base 0 behind
  \<open>UnmarshalText\<close> and \<open>SetString(s, 0)\<close>, with its base prefixes and digit separators; and
  \<open>strings.Split\<close> at a dot. Strings are byte strings.
\<close>

section \<open>Printing\<close>

definition digit_char :: "nat \<Rightarrow> char" where
  "digit_char n = char_of (48 + n)"

fun nat_text :: "nat \<Rightarrow> string" where
  "nat_text n = (if n < 10 then [digit_char n] else nat_text (n div 10) @ [digit_char (n mod 10)])"

declare nat_text.simps [simp del]

definition big_MarshalText :: "int \<Rightarrow> string" where
  "big_MarshalText i = (if i < 0 then CHR ''-'' # nat_text (nat (- i)) else nat_text (nat i))"

section \<open>Scanning\<close>

text \<open>The value of a digit in a base up to 36, or a value no base accepts.\<close>

definition digit_value :: "char \<Rightarrow> nat" where
  "digit_value c = (let n = of_char c :: nat in
     if 48 \<le> n \<and> n \<le> 57 then n - 48
     else if 97 \<le> n \<and> n \<le> 122 then n - 87
     else if 65 \<le> n \<and> n \<le> 90 then n - 55
     else 99)"

text \<open>Digits of base 10 to the end of the text.\<close>

fun scan10 :: "nat \<Rightarrow> string \<Rightarrow> nat option" where
  "scan10 acc [] = Some acc"
| "scan10 acc (c # cs) = (if digit_value c < 10 then scan10 (10 * acc + digit_value c) cs else None)"

fun scan_sign :: "string \<Rightarrow> bool \<times> string" where
  "scan_sign (c # cs) = (if c = CHR ''-'' then (True, cs) else if c = CHR ''+'' then (False, cs) else (False, c # cs))"
| "scan_sign [] = (False, [])"

definition with_sign :: "bool \<Rightarrow> nat \<Rightarrow> int" where
  "with_sign neg n = (if neg then - int n else int n)"

text \<open>\<open>new(big.Int).SetString(s, 10)\<close>: an optional sign and at least one decimal digit.\<close>

definition big_SetString10 :: "string \<Rightarrow> int option" where
  "big_SetString10 s = (case scan_sign s of (neg, cs) \<Rightarrow>
     if cs = [] then None else map_option (with_sign neg) (scan10 0 cs))"

text \<open>
  The digits of a number in base 0: \<open>_\<close> may stand between two digits or after the prefix.
  \<open>sep_ok\<close> says whether the previous byte was a digit (or the prefix).
\<close>

fun scan_digits0 :: "nat \<Rightarrow> bool \<Rightarrow> nat \<Rightarrow> nat \<Rightarrow> string \<Rightarrow> (nat \<times> nat) option" where
  "scan_digits0 base sep_ok acc count [] = (if sep_ok \<or> count = 0 then Some (acc, count) else None)"
| "scan_digits0 base sep_ok acc count (c # cs) =
    (if c = CHR ''_'' then if sep_ok \<and> cs \<noteq> [] then scan_digits0 base False acc count cs else None
     else if digit_value c < base then scan_digits0 base True (base * acc + digit_value c) (Suc count) cs
     else None)"

definition base_prefix :: "string \<Rightarrow> nat \<times> string \<times> bool" where
  "base_prefix s = (case s of
     c # d # cs \<Rightarrow>
       if c = CHR ''0'' then
         if d \<in> {CHR ''b'', CHR ''B''} then (2, cs, True)
         else if d \<in> {CHR ''o'', CHR ''O''} then (8, cs, True)
         else if d \<in> {CHR ''x'', CHR ''X''} then (16, cs, True)
         else (8, d # cs, True)
       else (10, s, False)
   | _ \<Rightarrow> (10, s, False))"

definition big_scan0 :: "string \<Rightarrow> int option" where
  "big_scan0 s = (case scan_sign s of (neg, cs) \<Rightarrow>
     (case base_prefix cs of (base, ds, pre) \<Rightarrow>
       (case scan_digits0 base pre 0 0 ds of
          Some (n, count) \<Rightarrow> if count = 0 then None else Some (with_sign neg n)
        | None \<Rightarrow> None)))"

section \<open>\<open>strings.Split(s, ".")\<close>\<close>

fun split_dot :: "string \<Rightarrow> string list" where
  "split_dot [] = [[]]"
| "split_dot (c # cs) = (if c = CHR ''.'' then [] # split_dot cs
     else case split_dot cs of p # ps \<Rightarrow> (c # p) # ps | [] \<Rightarrow> [[c]])"

section \<open>Lemmas\<close>

definition all_digits :: "string \<Rightarrow> bool" where
  "all_digits s \<longleftrightarrow> (\<forall>c \<in> set s. digit_value c < 10)"

lemma digit_value_char: "n < 10 \<Longrightarrow> digit_value (digit_char n) = n"
  by (simp add: digit_value_def digit_char_def Let_def)

lemma digit_char_zero [simp]: "digit_char 0 = CHR ''0''"
  by code_simp

lemma nat_text_nonempty [simp]: "nat_text n \<noteq> []"
  by (subst nat_text.simps) simp

lemma all_digits_nat_text: "all_digits (nat_text n)"
proof (induction n rule: nat_text.induct)
  case (1 n)
  then show ?case
    by (subst nat_text.simps) (auto simp: all_digits_def digit_value_char)
qed

lemma scan10_append: "scan10 a (xs @ ys) = (case scan10 a xs of None \<Rightarrow> None | Some b \<Rightarrow> scan10 b ys)"
  by (induction xs arbitrary: a) simp_all

lemma scan10_nat_text: "scan10 0 (nat_text n) = Some n"
proof (induction n rule: nat_text.induct)
  case (1 n)
  show ?case
  proof (cases "n < 10")
    case True
    then show ?thesis by (subst nat_text.simps) (simp add: digit_value_char)
  next
    case False
    with "1.IH" have "scan10 0 (nat_text (n div 10)) = Some (n div 10)" by simp
    with False show ?thesis
      by (subst nat_text.simps) (simp add: scan10_append digit_value_char)
  qed
qed

lemma digit_value_zero [simp]: "digit_value CHR ''0'' = 0"
  by (simp add: digit_value_def)

lemma scan10_zeros: "scan10 0 (replicate k CHR ''0'' @ s) = scan10 0 s"
  by (induction k) simp_all

lemma scan10_zeros_right: "scan10 a (replicate k CHR ''0'') = Some (a * 10 ^ k)"
  by (induction k arbitrary: a) (simp_all add: ac_simps)

lemma not_digit_chars [simp]: "\<not> digit_value CHR ''.'' < 10" "\<not> digit_value CHR ''-'' < 10" "\<not> digit_value CHR ''+'' < 10"
  by (simp_all add: digit_value_def)

lemma all_digits_no_dot: "all_digits s \<Longrightarrow> CHR ''.'' \<notin> set s"
  using not_digit_chars(1) by (auto simp: all_digits_def)

lemma all_digits_append [simp]: "all_digits (xs @ ys) \<longleftrightarrow> all_digits xs \<and> all_digits ys"
  by (auto simp: all_digits_def)

lemma all_digits_zeros [simp]: "all_digits (replicate k CHR ''0'')"
  by (simp add: all_digits_def)

lemma scan_sign_digits: "all_digits s \<Longrightarrow> s \<noteq> [] \<Longrightarrow> scan_sign s = (False, s)"
  by (cases s) (auto simp: all_digits_def)

lemma SetString10_digits: "all_digits s \<Longrightarrow> s \<noteq> [] \<Longrightarrow> big_SetString10 s = map_option int (scan10 0 s)"
  by (simp add: big_SetString10_def scan_sign_digits with_sign_def [abs_def])

lemma split_dot_none: "CHR ''.'' \<notin> set s \<Longrightarrow> split_dot s = [s]"
  by (induction s) auto

lemma split_dot_two: "CHR ''.'' \<notin> set a \<Longrightarrow> CHR ''.'' \<notin> set b \<Longrightarrow> split_dot (a @ CHR ''.'' # b) = [a, b]"
  by (induction a) (auto simp: split_dot_none)

text \<open>A decimal text that does not start with a zero is read by the base-0 scanner as it is.\<close>

lemma scan_digits0_base10:
  assumes "all_digits s"
  shows "scan_digits0 10 True a k s = map_option (\<lambda>n. (n, k + length s)) (scan10 a s)"
  using assms
proof (induction s arbitrary: a k)
  case (Cons c cs)
  then have c: "digit_value c < 10" by (simp add: all_digits_def)
  moreover have "\<not> digit_value CHR ''_'' < 10" by (simp add: digit_value_def)
  ultimately have "c \<noteq> CHR ''_''" by auto
  with c Cons show ?case by (simp add: all_digits_def)
qed simp

lemma hd_nat_text: "0 < n \<Longrightarrow> hd (nat_text n) \<noteq> CHR ''0''"
proof (induction n rule: nat_text.induct)
  case (1 n)
  show ?case
  proof (cases "n < 10")
    case True
    have "digit_value (digit_char n) = n" using True by (rule digit_value_char)
    with True 1 show ?thesis by (subst nat_text.simps) (metis digit_value_zero list.sel(1) less_irrefl)
  next
    case False
    with 1 show ?thesis by (subst nat_text.simps) simp
  qed
qed

lemma big_scan0_nat_text: "big_scan0 (nat_text n) = Some (int n)"
proof (cases "n = 0")
  case True
  then show ?thesis
    by (simp add: big_scan0_def nat_text.simps base_prefix_def digit_value_def with_sign_def)
next
  case False
  then have "base_prefix (nat_text n) = (10, nat_text n, False)"
    using hd_nat_text [of n] by (auto simp: base_prefix_def split: list.splits)
  moreover obtain c cs where t: "nat_text n = c # cs" by (metis nat_text_nonempty neq_Nil_conv)
  moreover have d: "digit_value c < 10" "all_digits cs"
    using all_digits_nat_text [of n] by (simp_all add: t all_digits_def)
  moreover from d have "c \<noteq> CHR ''_''" by (auto simp: digit_value_def)
  moreover have "scan10 (digit_value c) cs = Some n"
    using scan10_nat_text [of n] d by (simp add: t)
  ultimately show ?thesis
    using scan_sign_digits [OF all_digits_nat_text nat_text_nonempty, of n]
    by (simp add: big_scan0_def scan_digits0_base10 with_sign_def)
qed

lemma big_scan0_MarshalText: "big_scan0 (big_MarshalText i) = Some i"
proof (cases "i < 0")
  case True
  then have "big_scan0 (nat_text (nat (- i))) = Some (- i)"
    using big_scan0_nat_text [of "nat (- i)"] by simp
  then show ?thesis
    using True scan_sign_digits [OF all_digits_nat_text nat_text_nonempty, of "nat (- i)"]
    by (auto simp: big_scan0_def big_MarshalText_def with_sign_def split: prod.splits option.splits if_splits)
next
  case False
  then show ?thesis using big_scan0_nat_text [of "nat i"] by (simp add: big_MarshalText_def)
qed

end
