(* ===== verification/BigDec_Text.thy ===== *)
theory BigDec_Text
  imports BigDec_Convert Go_Text
begin

text \<open>
  The text and the wire formats of \<open>osmomath/int.go\<close> and \<open>osmomath/decimal.go\<close>: parsing and
  printing of decimals, \<open>Marshal\<close>, \<open>MarshalTo\<close>, \<open>Unmarshal\<close> and \<open>Size\<close>. A struct whose
  \<open>i\<close> is nil is \<open>None\<close>. An error of \<open>Unmarshal\<close> drops the receiver, which the callers of a
  failed unmarshalling do not read.
\<close>

section \<open>\<open>BigInt\<close>\<close>

definition unmarshalText :: "string \<Rightarrow> int res" where
  "unmarshalText txt = (case big_scan0 txt of
     None \<Rightarrow> Inl (Err ''math/big: cannot unmarshal into a *big.Int'')
   | Some i \<Rightarrow> if BitLen i > maxBitLen then Inl (Err ''integer out of range'') else Inr i)"

definition newIntegerFromString :: "string \<Rightarrow> int option" where
  "newIntegerFromString s = big_scan0 s"

text \<open>The second component is \<open>ok\<close>.\<close>

definition NewBigIntFromString :: "string \<Rightarrow> BigInt option \<times> bool" where
  "NewBigIntFromString s = (case newIntegerFromString s of
     None \<Rightarrow> (None, False)
   | Some i \<Rightarrow> if BitLen i > maxBitLen then (None, False) else (Some (BigInt i), True))"

definition BigInt_Marshal :: "BigInt option \<Rightarrow> string" where
  "BigInt_Marshal x = big_MarshalText (case x of None \<Rightarrow> 0 | Some b \<Rightarrow> bi b)"

definition BigInt_String :: "BigInt option \<Rightarrow> string" where
  "BigInt_String x = (case x of None \<Rightarrow> ''<nil>'' | Some b \<Rightarrow> big_MarshalText (bi b))"

text \<open>\<open>copy(data, bz)\<close> overwrites a prefix of the buffer.\<close>

definition copy_into :: "string \<Rightarrow> string \<Rightarrow> string" where
  "copy_into data bz = take (length data) bz @ drop (length bz) data"

definition BigInt_MarshalTo :: "BigInt option \<Rightarrow> string \<Rightarrow> string \<times> nat" where
  "BigInt_MarshalTo x data = (let i = (case x of None \<Rightarrow> 0 | Some b \<Rightarrow> bi b) in
     if BitLen i = 0 then (copy_into data ''0'', 1)
     else let bz = BigInt_Marshal (Some (BigInt i)) in (copy_into data bz, length bz))"

definition BigInt_Unmarshal :: "BigInt option \<Rightarrow> string \<Rightarrow> BigInt option res" where
  "BigInt_Unmarshal x data = (if data = [] then Inr x
     else case big_scan0 data of
       None \<Rightarrow> Inl (Err ''math/big: cannot unmarshal into a *big.Int'')
     | Some i \<Rightarrow> if BitLen i > maxBitLen then Inl (Err ''integer out of range'') else Inr (Some (BigInt i)))"

definition BigInt_Size :: "BigInt option \<Rightarrow> nat" where
  "BigInt_Size x = length (BigInt_Marshal x)"

section \<open>\<open>BigDec\<close>: parsing and printing\<close>

definition ErrEmptyDecimalStr :: go_err where
  "ErrEmptyDecimalStr = Err ''decimal string cannot be empty''"

definition ErrInvalidDecimalLength :: go_err where
  "ErrInvalidDecimalLength = Err ''invalid decimal length''"

definition ErrInvalidDecimalStr :: go_err where
  "ErrInvalidDecimalStr = Err ''invalid decimal string''"

definition NewBigDecFromStr :: "string \<Rightarrow> BigDec res" where
  "NewBigDecFromStr str0 =
    (if str0 = [] then Inl ErrEmptyDecimalStr
     else
       let neg = (hd str0 = CHR ''-''); str = (if neg then tl str0 else str0) in
       if str = [] then Inl ErrEmptyDecimalStr
       else
         let strs = split_dot str in
         if length strs > 2 then Inl ErrInvalidDecimalStr
         else if length strs = 2 \<and> (strs ! 1 = [] \<or> strs ! 0 = []) then Inl ErrInvalidDecimalLength
         else
           let lenDecs = (if length strs = 2 then length (strs ! 1) else 0);
               combinedStr = (if length strs = 2 then strs ! 0 @ strs ! 1 else strs ! 0) in
           if lenDecs > BigDecPrecision then Inl (Err ''invalid precision'')
           else
             (case big_SetString10 (combinedStr @ replicate (BigDecPrecision - lenDecs) CHR ''0'') of
                None \<Rightarrow> Inl (Err ''failed to set decimal string'')
              | Some combined \<Rightarrow>
                  if BitLen combined > maxBitLen then Inl (Err ''decimal out of range'')
                  else Inr (BigDec (if neg then - combined else combined))))"

definition MustNewBigDecFromStr :: "string \<Rightarrow> BigDec res" where
  "MustNewBigDecFromStr s = (case NewBigDecFromStr s of
     Inl (Err e) \<Rightarrow> Inl (Panic e) | Inl (Panic e) \<Rightarrow> Inl (Panic e) | Inr d \<Rightarrow> Inr d)"

definition BigDec_String :: "BigDec option \<Rightarrow> string" where
  "BigDec_String x = (case x of None \<Rightarrow> ''<nil>'' | Some d0 \<Rightarrow>
     let isNeg = BigDec_IsNegative d0;
         d = (if isNeg then BigDec_Neg d0 else d0);
         bzInt = big_MarshalText (bdi d);
         inputSize = length bzInt;
         bzStr = (if inputSize \<le> BigDecPrecision
                  then ''0.'' @ replicate (BigDecPrecision - inputSize) CHR ''0'' @ bzInt
                  else take (inputSize - BigDecPrecision) bzInt @ ''.'' @ drop (inputSize - BigDecPrecision) bzInt)
     in if isNeg then ''-'' @ bzStr else bzStr)"

section \<open>\<open>BigDec\<close>: wire format\<close>

definition BigDec_Marshal :: "BigDec option \<Rightarrow> string" where
  "BigDec_Marshal x = big_MarshalText (case x of None \<Rightarrow> 0 | Some d \<Rightarrow> bdi d)"

definition BigDec_MarshalTo :: "BigDec option \<Rightarrow> string \<Rightarrow> string \<times> nat" where
  "BigDec_MarshalTo x data = (let i = (case x of None \<Rightarrow> 0 | Some d \<Rightarrow> bdi d) in
     if big_Sign i = 0 then (copy_into data ''0'', 1)
     else let bz = BigDec_Marshal (Some (BigDec i)) in (copy_into data bz, length bz))"

definition BigDec_Unmarshal :: "BigDec option \<Rightarrow> string \<Rightarrow> BigDec option res" where
  "BigDec_Unmarshal x data = (if data = [] then Inr x
     else case big_scan0 data of
       None \<Rightarrow> Inl (Err ''math/big: cannot unmarshal into a *big.Int'')
     | Some i \<Rightarrow> if BitLen i > maxBitLen then Inl (Err ''decimal out of range'') else Inr (Some (BigDec i)))"

definition BigDec_Size :: "BigDec option \<Rightarrow> nat" where
  "BigDec_Size x = length (BigDec_Marshal x)"

section \<open>Lemmas\<close>

lemma big_MarshalText_nonempty [simp]: "big_MarshalText i \<noteq> []"
  by (simp add: big_MarshalText_def)

lemma big_MarshalText_zero: "big_MarshalText 0 = ''0''"
  by (simp add: big_MarshalText_def nat_text.simps)

lemma BitLen_zero_iff: "BitLen i = 0 \<longleftrightarrow> i = 0"
  using BitLen_le_iff [of i 0] by auto

lemma copy_into_fits: "length bz = length data \<Longrightarrow> copy_into data bz = bz"
  by (simp add: copy_into_def)

text \<open>The unsigned text of \<open>String\<close> and what the parser makes of it.\<close>

definition dec_text :: "nat \<Rightarrow> string" where
  "dec_text m = (let t = nat_text m; n = length t in
     if n \<le> BigDecPrecision then ''0.'' @ replicate (BigDecPrecision - n) CHR ''0'' @ t
     else take (n - BigDecPrecision) t @ ''.'' @ drop (n - BigDecPrecision) t)"

lemma BigDec_String_eq:
  "BigDec_String (Some d) = (if bdi d < 0 then ''-'' else []) @ dec_text (nat \<bar>bdi d\<bar>)"
  by (auto simp: BigDec_String_def dec_text_def Let_def BigDec_IsNegative_def BigDec_Neg_def big_MarshalText_def)

lemma dec_text_parts:
  obtains a b where "dec_text m = a @ CHR ''.'' # b" "all_digits a" "all_digits b" "a \<noteq> []" "length b = BigDecPrecision"
    "scan10 0 (a @ b) = Some m"
proof (cases "length (nat_text m) \<le> BigDecPrecision")
  case True
  have "scan10 0 ((''0'' @ replicate (BigDecPrecision - length (nat_text m)) CHR ''0'') @ nat_text m) = Some m"
    by (simp add: scan10_zeros scan10_nat_text)
  with True show ?thesis
    by (intro that [of "''0''" "replicate (BigDecPrecision - length (nat_text m)) CHR ''0'' @ nat_text m"])
      (simp_all add: dec_text_def Let_def all_digits_nat_text all_digits_def [of "''0''"])
next
  case False
  let ?k = "length (nat_text m) - BigDecPrecision"
  have "all_digits (take ?k (nat_text m) @ drop ?k (nat_text m))"
    using all_digits_nat_text by simp
  then have "all_digits (take ?k (nat_text m))" "all_digits (drop ?k (nat_text m))"
    unfolding all_digits_append by blast+
  with False show ?thesis
    by (intro that [of "take ?k (nat_text m)" "drop ?k (nat_text m)"])
      (simp_all add: dec_text_def Let_def scan10_nat_text)
qed

lemma parse_dec_text:
  "NewBigDecFromStr ((if neg then ''-'' else []) @ dec_text m) =
    (if BitLen (int m) > maxBitLen then Inl (Err ''decimal out of range'')
     else Inr (BigDec (if neg then - int m else int m)))"
proof -
  obtain a b where p: "dec_text m = a @ CHR ''.'' # b" "all_digits a" "all_digits b" "a \<noteq> []" "length b = BigDecPrecision"
    "scan10 0 (a @ b) = Some m"
    by (rule dec_text_parts)
  from p have s: "split_dot (a @ CHR ''.'' # b) = [a, b]"
    by (simp add: split_dot_two all_digits_no_dot)
  from p have h: "hd (a @ CHR ''.'' # b) \<noteq> CHR ''-''"
    by (cases a) (auto simp: all_digits_def)
  from p have t: "big_SetString10 (a @ b) = Some (int m)"
    by (simp add: SetString10_digits)
  from p have "b \<noteq> []" by (auto simp: BigDecPrecision_def)
  with p s h t show ?thesis
    by (cases a) (simp_all add: NewBigDecFromStr_def Let_def)
qed

lemma BitLen_abs: "BitLen \<bar>i\<bar> = BitLen i"
  by (simp add: BitLen_def)

text \<open>The number a string of decimal digits stands for.\<close>

definition digits_val :: "string \<Rightarrow> nat" where
  "digits_val s = foldl (\<lambda>v c. 10 * v + digit_value c) 0 s"

lemma scan10_foldl: "all_digits s \<Longrightarrow> scan10 a s = Some (foldl (\<lambda>v c. 10 * v + digit_value c) a s)"
  by (induction s arbitrary: a) (auto simp: all_digits_def)

lemma foldl_digits_shift:
  "foldl (\<lambda>v c. 10 * v + digit_value c) a s = a * 10 ^ length s + digits_val s"
proof (induction s arbitrary: a)
  case (Cons c s)
  have "digits_val (c # s) = digit_value c * 10 ^ length s + digits_val s"
    using Cons.IH [of "digit_value c"] by (simp add: digits_val_def)
  moreover have "foldl (\<lambda>v c. 10 * v + digit_value c) a (c # s) = (10 * a + digit_value c) * 10 ^ length s + digits_val s"
    by (simp only: foldl.simps Cons.IH)
  ultimately show ?case by (simp only: length_Cons power_Suc) (simp add: algebra_simps)
qed (simp add: digits_val_def)

lemma digits_val_append: "digits_val (a @ b) = digits_val a * 10 ^ length b + digits_val b"
  using foldl_digits_shift [of "digits_val a" b] by (simp add: digits_val_def)

lemma digits_val_zeros: "digits_val (replicate k CHR ''0'') = 0"
  by (induction k) (simp_all add: digits_val_def)

section \<open>Properties\<close>

text \<open>\<open>NewBigDecFromStr\<close> reads a decimal text exactly: whole digits \<open>a\<close> and at most 36
  decimals \<open>b\<close> give the mantissa of \<open>a.b\<close>, negated after a minus sign, with an error instead
  of a value exactly when the mantissa needs more than 1024 bits.\<close>

theorem NewBigDecFromStr_value:
  assumes "all_digits a" "a \<noteq> []" "all_digits b" "b \<noteq> []" "length b \<le> BigDecPrecision"
  defines "m \<equiv> (int (digits_val a) * 10 ^ length b + int (digits_val b)) * 10 ^ (BigDecPrecision - length b)"
  shows "NewBigDecFromStr (a @ ''.'' @ b) = (if BitLen m > maxBitLen then Inl (Err ''decimal out of range'') else Inr (BigDec m)) \<and>
    NewBigDecFromStr (''-'' @ a @ ''.'' @ b) = (if BitLen m > maxBitLen then Inl (Err ''decimal out of range'') else Inr (BigDec (- m)))"
proof (intro conjI)
  let ?z = "replicate (BigDecPrecision - length b) CHR ''0''"
  have "split_dot (a @ ''.'' @ b) = [a, b]"
    using assms by (simp add: split_dot_two all_digits_no_dot)
  moreover have "hd (a @ ''.'' @ b) \<noteq> CHR ''-''"
    using assms by (cases a) (auto simp: all_digits_def)
  moreover have "big_SetString10 ((a @ b) @ ?z) = Some m"
  proof -
    have "all_digits ((a @ b) @ ?z)" "(a @ b) @ ?z \<noteq> []" using assms by simp_all
    then have "big_SetString10 ((a @ b) @ ?z) = Some (int (digits_val ((a @ b) @ ?z)))"
      unfolding digits_val_def by (metis SetString10_digits scan10_foldl option.map(2))
    then show ?thesis
      by (simp add: digits_val_append digits_val_zeros m_def power_add algebra_simps)
  qed
  ultimately show "NewBigDecFromStr (a @ ''.'' @ b) = (if BitLen m > maxBitLen then Inl (Err ''decimal out of range'') else Inr (BigDec m))"
    and "NewBigDecFromStr (''-'' @ a @ ''.'' @ b) = (if BitLen m > maxBitLen then Inl (Err ''decimal out of range'') else Inr (BigDec (- m)))"
    using assms by (simp_all add: NewBigDecFromStr_def Let_def)
qed

theorem NewBigDecFromStr_value_witness:
  "NewBigDecFromStr ''12.5'' = Inr (BigDec (125 * 10 ^ 35)) \<and> NewBigDecFromStr ''-12.5'' = Inr (BigDec (- (125 * 10 ^ 35)))"
proof -
  have d: "all_digits ''12''" "all_digits ''5''" by (simp_all add: all_digits_def digit_value_def)
  have v: "digits_val ''12'' = 12" "digits_val ''5'' = 5" by (simp_all add: digits_val_def digit_value_def)
  have "\<not> BitLen (125 * 10 ^ 35) > maxBitLen"
    unfolding not_less BitLen_le_iff by (simp add: maxBitLen_def)
  with NewBigDecFromStr_value [OF d(1) _ d(2)] show ?thesis
    by (simp add: v BigDecPrecision_def)
qed

text \<open>C23: Printing and parsing are inverse: \<open>NewBigDecFromStr\<close> returns every decimal of at most
  1024 bits from its \<open>String\<close>, and reports an error for the text of any larger one.\<close>

theorem BigDec_String_roundtrip:
  "NewBigDecFromStr (BigDec_String (Some d)) =
    (if BitLen (bdi d) \<le> maxBitLen then Inr d else Inl (Err ''decimal out of range''))"
  using parse_dec_text [of "bdi d < 0" "nat \<bar>bdi d\<bar>"]
  by (cases d) (auto simp: BigDec_String_eq BitLen_abs)

text \<open>C16: The wire format round-trips whatever the receiver held: \<open>Unmarshal\<close> of \<open>Marshal\<close> gives
  back a decimal of at most 1024 bits and an error above; \<open>MarshalTo\<close> a buffer of \<open>Size\<close>
  bytes writes exactly the bytes of \<open>Marshal\<close>; and no bytes leave the receiver as it was.\<close>

theorem BigDec_Marshal_roundtrip:
  assumes "length data = BigDec_Size (Some d)"
  shows "BigDec_Unmarshal x (BigDec_Marshal (Some d)) =
      (if BitLen (bdi d) \<le> maxBitLen then Inr (Some d) else Inl (Err ''decimal out of range'')) \<and>
    BigDec_MarshalTo (Some d) data = (BigDec_Marshal (Some d), BigDec_Size (Some d)) \<and>
    BigDec_Unmarshal x [] = Inr x"
  using assms
  by (cases d) (simp add: BigDec_Unmarshal_def BigDec_Marshal_def big_scan0_MarshalText BigDec_MarshalTo_def
      BigDec_Size_def copy_into_fits Let_def big_MarshalText_zero)

theorem BigDec_Marshal_roundtrip_witness:
  "BigDec_Unmarshal None ''-1'' = Inr (Some (BigDec (- 1))) \<and> BigDec_MarshalTo (Some (BigDec (- 1))) ''xy'' = (''-1'', 2)"
proof -
  have m: "BigDec_Marshal (Some (BigDec (- 1))) = ''-1''" by code_simp
  have b: "BitLen (- 1) \<le> maxBitLen" unfolding BitLen_le_iff by (simp add: maxBitLen_def)
  have s: "BigDec_Size (Some (BigDec (- 1))) = 2" by (simp add: BigDec_Size_def m)
  then have l: "length ''xy'' = BigDec_Size (Some (BigDec (- 1)))" by simp
  show ?thesis
    using BigDec_Marshal_roundtrip [OF l, of None] b by (simp add: m s)
qed

text \<open>The same holds for \<open>BigInt\<close>, for its text and for its wire format.\<close>

theorem BigInt_Marshal_roundtrip:
  assumes "length data = BigInt_Size (Some b)" "BitLen (bi b) \<le> maxBitLen"
  shows "BigInt_Unmarshal x (BigInt_Marshal (Some b)) = Inr (Some b) \<and>
    BigInt_MarshalTo (Some b) data = (BigInt_Marshal (Some b), BigInt_Size (Some b)) \<and>
    NewBigIntFromString (BigInt_String (Some b)) = (Some b, True) \<and>
    unmarshalText (BigInt_String (Some b)) = Inr (bi b)"
  using assms
  by (simp_all add: BigInt_Unmarshal_def BigInt_Marshal_def big_scan0_MarshalText BigInt_MarshalTo_def
      BigInt_Size_def copy_into_fits Let_def big_MarshalText_zero BitLen_zero_iff NewBigIntFromString_def
      newIntegerFromString_def BigInt_String_def unmarshalText_def)

theorem BigInt_Marshal_roundtrip_witness:
  "BigInt_Unmarshal None ''42'' = Inr (Some (BigInt 42)) \<and> NewBigIntFromString ''42'' = (Some (BigInt 42), True)"
proof -
  have m: "BigInt_Marshal (Some (BigInt 42)) = ''42''" "BigInt_String (Some (BigInt 42)) = ''42''" by code_simp+
  have b: "BitLen (bi (BigInt 42)) \<le> maxBitLen" unfolding BitLen_le_iff by (simp add: maxBitLen_def)
  have l: "length ''xy'' = BigInt_Size (Some (BigInt 42))" by (simp add: BigInt_Size_def m)
  show ?thesis
    using BigInt_Marshal_roundtrip [OF l b, of None] by (simp add: m)
qed

text \<open>The bound of the arithmetic is wider than the bound of the formats: the sum of two
  decimals that both round-trip is computed without a panic, and neither its text nor its
  bytes can be read back.\<close>

theorem BigDec_sum_not_readable:
  "BigDec_Unmarshal x (BigDec_Marshal (Some (BigDec (2 ^ 1023)))) = Inr (Some (BigDec (2 ^ 1023))) \<and>
    BigDec_Add (BigDec (2 ^ 1023)) (BigDec (2 ^ 1023)) = Inr (BigDec (2 ^ 1024)) \<and>
    BigDec_Unmarshal x (BigDec_Marshal (Some (BigDec (2 ^ 1024)))) = Inl (Err ''decimal out of range'') \<and>
    NewBigDecFromStr (BigDec_String (Some (BigDec (2 ^ 1024)))) = Inl (Err ''decimal out of range'')"
proof (intro conjI)
  have b: "BitLen (2 ^ 1023) \<le> maxBitLen" "\<not> BitLen (2 ^ 1024) \<le> maxBitLen"
    unfolding BitLen_le_iff by (simp_all add: maxBitLen_def)
  then show "BigDec_Unmarshal x (BigDec_Marshal (Some (BigDec (2 ^ 1023)))) = Inr (Some (BigDec (2 ^ 1023)))"
    "BigDec_Unmarshal x (BigDec_Marshal (Some (BigDec (2 ^ 1024)))) = Inl (Err ''decimal out of range'')"
    by (simp_all add: BigDec_Unmarshal_def BigDec_Marshal_def big_scan0_MarshalText del: power_numeral)
  have "BitLen (2 ^ 1024) \<le> maxDecBitLen"
    unfolding BitLen_le_iff by (simp add: bigdec_consts)
  moreover have "(2::int) ^ 1023 + 2 ^ 1023 = 2 ^ 1024" by simp
  ultimately show "BigDec_Add (BigDec (2 ^ 1023)) (BigDec (2 ^ 1023)) = Inr (BigDec (2 ^ 1024))"
    by (simp add: bigdec_ops bigdec_consts del: power_numeral)
  show "NewBigDecFromStr (BigDec_String (Some (BigDec (2 ^ 1024)))) = Inl (Err ''decimal out of range'')"
    using b(2) parse_dec_text [of False "2 ^ 1024"] by (simp add: BigDec_String_eq nat_power_eq del: power_numeral)
qed

text \<open>The parser takes one minus sign off and leaves a second one to \<open>SetString\<close>: a minus sign
  before the text of a negative decimal is accepted and negates it.\<close>

theorem NewBigDecFromStr_double_sign:
  assumes "bdi d < 0" "BitLen (bdi d) \<le> maxBitLen"
  shows "NewBigDecFromStr (''-'' @ BigDec_String (Some d)) = Inr (BigDec_Neg d)"
proof -
  obtain m where m: "bdi d = - int m" using assms(1) by (metis nonneg_int_cases neg_0_le_iff_le less_imp_le minus_minus)
  obtain a b where p: "dec_text m = a @ CHR ''.'' # b" "all_digits a" "all_digits b" "a \<noteq> []" "length b = BigDecPrecision"
    "scan10 0 (a @ b) = Some m"
    by (rule dec_text_parts)
  have "split_dot ((CHR ''-'' # a) @ CHR ''.'' # b) = [CHR ''-'' # a, b]"
    using p by (intro split_dot_two) (auto dest: all_digits_no_dot)
  moreover have "big_SetString10 ((CHR ''-'' # a) @ b) = Some (- int m)"
    using p by (simp add: big_SetString10_def with_sign_def)
  moreover have "b \<noteq> []" using p(5) by (auto simp: BigDecPrecision_def)
  ultimately show ?thesis
    using assms p m by (simp add: NewBigDecFromStr_def Let_def BigDec_String_eq BigDec_Neg_def)
qed

theorem NewBigDecFromStr_double_sign_witness:
  "bdi (BigDec (- 1)) < 0 \<and> NewBigDecFromStr (''--0.'' @ replicate 35 CHR ''0'' @ ''1'') = Inr (BigDec 1)"
proof -
  have b: "BitLen (bdi (BigDec (- 1))) \<le> maxBitLen" unfolding BitLen_le_iff by (simp add: maxBitLen_def)
  have "BigDec_String (Some (BigDec (- 1))) = ''-0.'' @ replicate 35 CHR ''0'' @ ''1''" by code_simp
  with NewBigDecFromStr_double_sign [OF _ b] show ?thesis by (simp add: BigDec_Neg_def)
qed

end
