(* ===== verification/BigDec_Power.thy ===== *)
theory BigDec_Power
  imports BigDec_Text
begin

text \<open>
  Integer powers and the Newton iteration of \<open>osmomath/decimal.go\<close>: \<open>PowerInteger\<close>,
  \<open>ApproxRoot\<close> and \<open>ApproxSqrt\<close>.
\<close>

section \<open>\<open>PowerInteger\<close>\<close>

text \<open>The loop of square and multiply, from its \<open>i\<close>, \<open>d\<close> and \<open>tmp\<close> to the final \<open>d\<close> and \<open>tmp\<close>.\<close>

fun PowerInteger_loop :: "nat \<Rightarrow> BigDec \<Rightarrow> BigDec \<Rightarrow> (BigDec \<times> BigDec) res" where
  "PowerInteger_loop i d tmp =
    (if i > 1 then
       bindE (if i mod 2 \<noteq> 0 then BigDec_MulMut tmp d else Inr tmp) (\<lambda>tmp'.
       bindE (BigDec_MulMut d d) (\<lambda>d'. PowerInteger_loop (i div 2) d' tmp'))
     else Inr (d, tmp))"

declare PowerInteger_loop.simps [simp del]

definition BigDec_PowerIntegerMut :: "BigDec \<Rightarrow> nat \<Rightarrow> BigDec res" where
  "BigDec_PowerIntegerMut d n =
    (if n = 0 then Inr OneBigDec
     else if n = 1 then Inr d
     else if n = 2 then BigDec_MulMut d d
     else bindE (PowerInteger_loop n d OneBigDec) (\<lambda>(d', tmp). BigDec_MulMut d' tmp))"

definition BigDec_PowerInteger :: "BigDec \<Rightarrow> nat \<Rightarrow> BigDec res" where
  "BigDec_PowerInteger d n = BigDec_PowerIntegerMut (BigDec_Clone d) n"

section \<open>\<open>ApproxRoot\<close>\<close>

definition maxApproxRootIterations :: nat where
  "maxApproxRootIterations = 100"

text \<open>One iteration: the new \<open>guess\<close> and \<open>delta\<close>.\<close>

definition ApproxRoot_step :: "BigDec \<Rightarrow> nat \<Rightarrow> BigDec \<Rightarrow> (BigDec \<times> BigDec) res" where
  "ApproxRoot_step d rt guess =
    bindE (BigDec_PowerInteger guess (rt - 1)) (\<lambda>p.
    let prev = (if BigDec_IsZero p then SmallestBigDec else p) in
    bindE (BigDec_Quo d prev) (\<lambda>q.
    bindE (BigDec_SubMut q guess) (\<lambda>diff.
    bindE (BigDec_QuoInt diff (NewBigIntFromUint64 rt)) (\<lambda>delta.
    bindE (BigDec_Add guess delta) (\<lambda>guess'. Inr (guess', delta))))))"

text \<open>
  The loop, with the iterations that are left. Every panic below it carries a string, which
  the deferred recovery turns into the error \<open>out of bounds\<close> beside the guess reached so far.
\<close>

definition out_of_bounds :: go_err where
  "out_of_bounds = Err ''out of bounds''"

primrec ApproxRoot_loop :: "nat \<Rightarrow> BigDec \<Rightarrow> nat \<Rightarrow> BigDec \<Rightarrow> BigDec \<Rightarrow> BigDec \<times> go_err option" where
  "ApproxRoot_loop 0 d rt guess delta = (guess, None)"
| "ApproxRoot_loop (Suc n) d rt guess delta =
    (if BigDec_GT (BigDec_Abs delta) SmallestBigDec then
       (case ApproxRoot_step d rt guess of
          Inl _ \<Rightarrow> (guess, Some out_of_bounds)
        | Inr (guess', delta') \<Rightarrow> ApproxRoot_loop n d rt guess' delta')
     else (guess, None))"

definition ApproxRoot_nonneg :: "BigDec \<Rightarrow> nat \<Rightarrow> BigDec \<times> go_err option" where
  "ApproxRoot_nonneg d rt =
    (if rt = 1 \<or> BigDec_IsZero d \<or> BigDec_Equal d OneBigDec then (d, None)
     else if rt = 0 then (OneBigDec, None)
     else ApproxRoot_loop maxApproxRootIterations d rt OneBigDec OneBigDec)"

text \<open>
  A negative decimal is negated, its root taken by the recursive call, and negated back; a
  panic of the first negation leaves the named result without a value.
\<close>

definition BigDec_ApproxRoot :: "BigDec \<Rightarrow> nat \<Rightarrow> BigDec option \<times> go_err option" where
  "BigDec_ApproxRoot d rt =
    (if BigDec_IsNegative d then
       (case BigDec_MulInt64 d (- 1) of
          Inl _ \<Rightarrow> (None, Some out_of_bounds)
        | Inr m \<Rightarrow> (case ApproxRoot_nonneg m rt of (absRoot, err) \<Rightarrow>
            (case BigDec_MulInt64 absRoot (- 1) of
               Inl _ \<Rightarrow> (None, Some out_of_bounds)
             | Inr r \<Rightarrow> (Some r, err))))
     else (case ApproxRoot_nonneg d rt of (guess, err) \<Rightarrow> (Some guess, err)))"

definition BigDec_ApproxSqrt :: "BigDec \<Rightarrow> BigDec option \<times> go_err option" where
  "BigDec_ApproxSqrt d = BigDec_ApproxRoot d 2"

section \<open>Lemmas\<close>

text \<open>Integral decimals multiply exactly.\<close>

lemma MulMut_integral:
  "BigDec_MulMut (BigDec (a * defaultBigDecPrecisionReuse)) (BigDec (b * defaultBigDecPrecisionReuse)) =
    asserted (a * b * defaultBigDecPrecisionReuse)"
proof -
  have "a * defaultBigDecPrecisionReuse * (b * defaultBigDecPrecisionReuse) =
      defaultBigDecPrecisionReuse * (a * b * defaultBigDecPrecisionReuse)"
    by (simp add: ac_simps)
  then show ?thesis
    by (simp only: BigDec_MulMut_def BigDec.sel r36.chop_mult)
qed

abbreviation integral :: "int \<Rightarrow> BigDec" where
  "integral k \<equiv> BigDec (k * defaultBigDecPrecisionReuse)"

lemma power_split_half: "(k::int) ^ i = (if i mod 2 \<noteq> 0 then k else 1) * (k * k) ^ (i div 2)"
proof -
  have "k ^ i = k ^ (i mod 2 + 2 * (i div 2))" by simp
  also have "\<dots> = k ^ (i mod 2) * (k * k) ^ (i div 2)"
    by (simp only: power_add power_mult power2_eq_square)
  also have "k ^ (i mod 2) = (if i mod 2 \<noteq> 0 then k else 1)" by (cases "i mod 2 = 0") auto
  finally show ?thesis .
qed

text \<open>The loop keeps the product \<open>tmp * d ^ i\<close>, or overflows.\<close>

lemma PowerInteger_loop_product:
  assumes "0 < i"
  shows "PowerInteger_loop i (integral k) (integral t) = int_overflow \<or>
    (\<exists>k' t'. PowerInteger_loop i (integral k) (integral t) = Inr (integral k', integral t') \<and> k' * t' = t * k ^ i)"
  using assms
proof (induction i arbitrary: k t rule: less_induct)
  case (less i)
  show ?case
  proof (cases "i > 1")
    case False
    with less.prems have "i = 1" by simp
    then show ?thesis by (subst (2) PowerInteger_loop.simps) (auto simp: PowerInteger_loop.simps intro: exI [of _ k])
  next
    case True
    let ?t = "if i mod 2 \<noteq> 0 then t * k else t"
    from True have "PowerInteger_loop (i div 2) (integral (k * k)) (integral ?t) = int_overflow \<or>
        (\<exists>k' t'. PowerInteger_loop (i div 2) (integral (k * k)) (integral ?t) = Inr (integral k', integral t')
          \<and> k' * t' = ?t * (k * k) ^ (i div 2))"
      by (intro less.IH) auto
    moreover have "?t * (k * k) ^ (i div 2) = t * k ^ i"
      by (subst power_split_half [of k i]) simp
    ultimately show ?thesis
      using True by (subst (1 2) PowerInteger_loop.simps) (auto simp: MulMut_integral)
  qed
qed

lemma abs_le_mult: "(b::int) \<noteq> 0 \<Longrightarrow> \<bar>a\<bar> \<le> \<bar>a * b\<bar>"
  using mult_left_mono [of 1 "\<bar>b\<bar>" "\<bar>a\<bar>"] by (simp add: abs_mult)

text \<open>No intermediate value of the loop is larger than the result.\<close>

lemma PowerInteger_loop_no_overflow:
  assumes "0 < i" "k \<noteq> 0" "t \<noteq> 0" "\<bar>t * k ^ i\<bar> * defaultBigDecPrecisionReuse < 2 ^ maxDecBitLen"
  shows "PowerInteger_loop i (integral k) (integral t) \<noteq> int_overflow"
  using assms
proof (induction i arbitrary: k t rule: less_induct)
  case (less i)
  show ?case
  proof (cases "i > 1")
    case False
    then show ?thesis by (subst PowerInteger_loop.simps) simp
  next
    case True
    let ?P = defaultBigDecPrecisionReuse
    let ?t = "if i mod 2 \<noteq> 0 then t * k else t"
    have eq: "?t * (k * k) ^ (i div 2) = t * k ^ i"
      by (subst power_split_half [of k i]) simp
    have lt: "\<bar>x * ?P\<bar> < 2 ^ maxDecBitLen" if "\<bar>x\<bar> \<le> \<bar>t * k ^ i\<bar>" for x
    proof -
      have "\<bar>x * ?P\<bar> = \<bar>x\<bar> * ?P" by (simp add: abs_mult)
      also have "\<dots> \<le> \<bar>t * k ^ i\<bar> * ?P" using that by (rule mult_right_mono) simp
      finally show ?thesis using less.prems(4) by simp
    qed
    have "\<bar>?t\<bar> \<le> \<bar>t * k ^ i\<bar>"
      using less.prems(2) by (subst eq [symmetric]) (intro abs_le_mult, simp)
    moreover have "k * k * (?t * (k * k) ^ (i div 2 - 1)) = t * k ^ i"
      using True by (subst eq [symmetric]) (cases "i div 2", auto)
    then have "\<bar>k * k\<bar> \<le> \<bar>t * k ^ i\<bar>"
      using less.prems(2,3) abs_le_mult [of "?t * (k * k) ^ (i div 2 - 1)" "k * k"] by simp
    moreover have "PowerInteger_loop (i div 2) (integral (k * k)) (integral ?t) \<noteq> int_overflow"
      using True less.prems eq by (intro less.IH) auto
    ultimately show ?thesis
      using True lt [of ?t] lt [of "k * k"] by (subst PowerInteger_loop.simps) (simp add: MulMut_integral split: if_splits)
  qed
qed

lemma PowerInteger_loop_zero:
  "\<bar>t\<bar> \<le> 1 \<Longrightarrow> PowerInteger_loop i (integral 0) (integral t) \<noteq> int_overflow"
proof (induction i arbitrary: t rule: less_induct)
  case (less i)
  have "\<bar>t * defaultBigDecPrecisionReuse\<bar> < 2 ^ maxDecBitLen"
    using mult_right_mono [OF less.prems, of defaultBigDecPrecisionReuse]
    by (simp add: abs_mult bigdec_consts)
  moreover have "i > 1 \<Longrightarrow> PowerInteger_loop (i div 2) (integral 0) (integral u) \<noteq> int_overflow" if "\<bar>u\<bar> \<le> 1" for u
    using less.IH [of "i div 2" u] that by simp
  note this [of 0] this [of t]
  ultimately show ?case
    using less.prems MulMut_integral [of t 0] MulMut_integral [of 0 0] by (subst PowerInteger_loop.simps) auto
qed

lemma one_in_range: "\<bar>defaultBigDecPrecisionReuse\<bar> < 2 ^ maxDecBitLen"
  by (simp add: bigdec_consts)

section \<open>Properties\<close>

lemma PowerInteger_integral:
  assumes "\<bar>k * defaultBigDecPrecisionReuse\<bar> < 2 ^ maxDecBitLen"
  shows "BigDec_PowerInteger (BigDec (k * defaultBigDecPrecisionReuse)) n = asserted (k ^ n * defaultBigDecPrecisionReuse)"
proof -
  consider "n = 0" | "n = 1" | "n = 2" | "n > 2" by linarith
  then show ?thesis
  proof cases
    case 4
    have one: "OneBigDec = integral 1" by (simp add: OneBigDec_def)
    have "PowerInteger_loop n (integral k) (integral 1) \<noteq> int_overflow" if "\<bar>k ^ n * defaultBigDecPrecisionReuse\<bar> < 2 ^ maxDecBitLen"
      using 4 that PowerInteger_loop_no_overflow [of n k 1] PowerInteger_loop_zero [of 1 n]
      by (cases "k = 0") (auto simp: abs_mult)
    with PowerInteger_loop_product [of n k 1] 4 show ?thesis
      by (auto simp: BigDec_PowerInteger_def BigDec_PowerIntegerMut_def BigDec_Clone_def one MulMut_integral)
  qed (use assms one_in_range in \<open>simp_all add: BigDec_PowerInteger_def BigDec_PowerIntegerMut_def BigDec_Clone_def
      MulMut_integral OneBigDec_def power2_eq_square\<close>)
qed

text \<open>C24: \<open>PowerInteger\<close> is exact on integral decimals: by square and multiply it returns the
  \<open>n\<close>-th power, and it panics exactly when that power is beyond the range of the type, so no
  intermediate product overflows first.\<close>

theorem BigDec_PowerInteger_integral:
  assumes "\<bar>k * defaultBigDecPrecisionReuse\<bar> < 2 ^ maxDecBitLen"
  shows "BigDec_PowerInteger (BigDec (k * defaultBigDecPrecisionReuse)) n = asserted (k ^ n * defaultBigDecPrecisionReuse)"
  using assms by (rule PowerInteger_integral)

theorem BigDec_PowerInteger_integral_witness:
  "BigDec_PowerInteger (BigDec (3 * 10 ^ 36)) 5 = Inr (BigDec (243 * 10 ^ 36))"
  using BigDec_PowerInteger_integral [of 3 5] by (simp add: bigdec_consts)

lemma ApproxRoot_loop_bounded:
  assumes "\<bar>bdi g\<bar> < 2 ^ maxDecBitLen"
  shows "\<bar>bdi (fst (ApproxRoot_loop n d rt g delta))\<bar> < 2 ^ maxDecBitLen"
  using assms
proof (induction n arbitrary: g delta)
  case (Suc n)
  have "\<bar>bdi g'\<bar> < 2 ^ maxDecBitLen" if "ApproxRoot_step d rt g = Inr (g', delta')" for g' delta'
    using that by (auto simp: ApproxRoot_step_def Let_def BigDec_Add_def BigDec_AddMut_def split: if_splits)
  with Suc show ?case by (auto split: sum.splits)
qed simp

lemma ApproxRoot_loop_err: "snd (ApproxRoot_loop n d rt g delta) \<in> {None, Some out_of_bounds}"
  by (induction n arbitrary: g delta) (auto split: sum.splits)

lemma ApproxRoot_nonneg_result:
  assumes "\<bar>bdi d\<bar> < 2 ^ maxDecBitLen"
  obtains r err where "ApproxRoot_nonneg d rt = (r, err)" "\<bar>bdi r\<bar> < 2 ^ maxDecBitLen" "err \<in> {None, Some out_of_bounds}"
    "rt = 1 \<or> bdi d = 0 \<or> d = OneBigDec \<Longrightarrow> r = d \<and> err = None"
proof
  show "ApproxRoot_nonneg d rt = (fst (ApproxRoot_nonneg d rt), snd (ApproxRoot_nonneg d rt))" by simp
  show "\<bar>bdi (fst (ApproxRoot_nonneg d rt))\<bar> < 2 ^ maxDecBitLen"
    using assms one_in_range
    by (auto simp: ApproxRoot_nonneg_def OneBigDec_def intro!: ApproxRoot_loop_bounded)
  show "snd (ApproxRoot_nonneg d rt) \<in> {None, Some out_of_bounds}"
    using ApproxRoot_loop_err by (auto simp: ApproxRoot_nonneg_def)
  show "rt = 1 \<or> bdi d = 0 \<or> d = OneBigDec \<Longrightarrow>
      fst (ApproxRoot_nonneg d rt) = d \<and> snd (ApproxRoot_nonneg d rt) = None"
    by (auto simp: ApproxRoot_nonneg_def BigDec_IsZero_def BigDec_Equal_def)
qed

text \<open>\<open>ApproxRoot\<close> always returns a value, within the range of the type, and turns every
  panic below it into an error; the root of a negative decimal is the negated root of its
  absolute value, with the same error; the first root, and every root of zero and of one, is
  the decimal itself.\<close>

theorem BigDec_ApproxRoot_total:
  assumes "0 \<le> bdi d" "bdi d < 2 ^ maxDecBitLen"
  shows "\<exists>r err. BigDec_ApproxRoot d rt = (Some r, err) \<and> \<bar>bdi r\<bar> < 2 ^ maxDecBitLen \<and>
    BigDec_ApproxRoot (BigDec_Neg d) rt = (Some (BigDec_Neg r), err) \<and>
    err \<in> {None, Some out_of_bounds} \<and> (rt = 1 \<or> bdi d = 0 \<or> d = OneBigDec \<longrightarrow> r = d \<and> err = None)"
proof -
  have b: "\<bar>bdi d\<bar> < 2 ^ maxDecBitLen" using assms by simp
  obtain r err where r: "ApproxRoot_nonneg d rt = (r, err)" "\<bar>bdi r\<bar> < 2 ^ maxDecBitLen" "err \<in> {None, Some out_of_bounds}"
    "rt = 1 \<or> bdi d = 0 \<or> d = OneBigDec \<Longrightarrow> r = d \<and> err = None"
    using ApproxRoot_nonneg_result [OF b] by blast
  have "BigDec_ApproxRoot (BigDec_Neg d) rt = (Some (BigDec_Neg r), err)"
    using assms b r by (cases d; cases r; cases "bdi d = 0")
      (auto simp: BigDec_ApproxRoot_def BigDec_Neg_def BigDec_IsNegative_def BigDec_MulInt64_def)
  moreover have "BigDec_ApproxRoot d rt = (Some r, err)"
    using assms r(1) by (simp add: BigDec_ApproxRoot_def BigDec_IsNegative_def)
  ultimately show ?thesis using r(2,3,4) by blast
qed

theorem BigDec_ApproxRoot_total_witness:
  "\<exists>r err. BigDec_ApproxRoot (BigDec 4) 2 = (Some r, err) \<and> BigDec_ApproxRoot (BigDec (- 4)) 2 = (Some (BigDec_Neg r), err)"
  using BigDec_ApproxRoot_total [of "BigDec 4" 2] by (auto simp: BigDec_Neg_def bigdec_consts)

end
