(* ===== verification/BigDec_Log.thy ===== *)
theory BigDec_Log
  imports BigDec_Text
begin

text \<open>
  The logarithms of \<open>osmomath/decimal.go\<close>. \<open>LogBase2\<close> scales its argument into \<open>[1, 2)\<close> and
  then squares it 300 times, reading one binary digit of the logarithm off each square. The
  first scaling loop ends on every input because the counter \<open>y\<close> is checked for overflow.
\<close>

section \<open>Definitions\<close>

definition maxLog2Iterations :: nat where
  "maxLog2Iterations = 300"

definition oneHalfBigDec :: BigDec where
  "oneHalfBigDec = BigDec (defaultBigDecPrecisionReuse div 2)"

definition negOneBigDec :: BigDec where
  "negOneBigDec = BigDec_Neg OneBigDec"

definition logOfEbase2 :: BigDec where
  "logOfEbase2 = BigDec 1442695040888963407359924681001892137"

definition tickLogOf2 :: BigDec where
  "tickLogOf2 = BigDec 144262291094554178391070900057480"

text \<open>\<open>for xCopy.LT(oneBigDec)\<close>\<close>

function LogBase2_up :: "BigDec \<Rightarrow> BigDec \<Rightarrow> (BigDec \<times> BigDec) res" where
  "LogBase2_up x y =
    (if BigDec_LT x OneBigDec
     then (case BigDec_AddMut y negOneBigDec of
         Inl e \<Rightarrow> Inl e
       | Inr y' \<Rightarrow> LogBase2_up (BigDec (big_Lsh (bdi x) 1)) y')
     else Inr (x, y))"
  by pat_completeness auto
termination
proof (relation "measure (\<lambda>(x, y). nat (bdi y + 2 ^ maxDecBitLen))")
  fix x y y'
  assume "BigDec_AddMut y negOneBigDec = Inr y'"
  then have "bdi y' = bdi y - defaultBigDecPrecisionReuse" "\<bar>bdi y'\<bar> < 2 ^ maxDecBitLen"
    by (auto simp: BigDec_AddMut_def negOneBigDec_def OneBigDec_def BigDec_Neg_def split: if_splits)
  moreover have "0 < defaultBigDecPrecisionReuse" by simp
  ultimately show "((BigDec (big_Lsh (bdi x) 1), y'), x, y) \<in> measure (\<lambda>(x, y). nat (bdi y + 2 ^ maxDecBitLen))"
    unfolding in_measure split by linarith
qed simp

text \<open>\<open>for xCopy.GTE(twoBigDec)\<close>\<close>

function LogBase2_down :: "BigDec \<Rightarrow> BigDec \<Rightarrow> (BigDec \<times> BigDec) res" where
  "LogBase2_down x y =
    (if BigDec_GTE x twoBigDec
     then bindE (BigDec_AddMut y OneBigDec) (\<lambda>y'. LogBase2_down (BigDec (big_Rsh (bdi x) 1)) y')
     else Inr (x, y))"
  by pat_completeness auto
termination
proof (relation "measure (\<lambda>(x, y). nat (bdi x))")
  fix x y :: BigDec and y'
  assume "BigDec_GTE x twoBigDec"
  then have "2 * defaultBigDecPrecisionReuse \<le> bdi x" by (simp add: BigDec_GTE_def twoBigDec_def big_simps)
  moreover have "0 < defaultBigDecPrecisionReuse" by simp
  ultimately have "0 < bdi x" by linarith
  then show "((BigDec (big_Rsh (bdi x) 1), y'), x, y) \<in> measure (\<lambda>(x, y). nat (bdi x))"
    by (simp add: big_Rsh_def)
qed simp

declare LogBase2_up.simps [simp del] LogBase2_down.simps [simp del]

text \<open>The loop over the binary digits, with the iterations that are left.\<close>

primrec LogBase2_digits :: "nat \<Rightarrow> BigDec \<Rightarrow> BigDec \<Rightarrow> BigDec \<Rightarrow> BigDec res" where
  "LogBase2_digits 0 x b y = Inr y"
| "LogBase2_digits (Suc n) x b y =
    bindE (BigDec_MulMut x x) (\<lambda>s.
    bindE (if BigDec_GTE s twoBigDec
           then bindE (BigDec_AddMut y b) (\<lambda>y'. Inr (BigDec (big_Rsh (bdi s) 1), y'))
           else Inr (s, y)) (\<lambda>(x', y').
    LogBase2_digits n x' (BigDec (big_Rsh (bdi b) 1)) y'))"

definition BigDec_LogBase2 :: "BigDec \<Rightarrow> BigDec res" where
  "BigDec_LogBase2 x =
    (if BigDec_LTE x ZeroBigDec then Inl (Panic ''log is not defined at <= 0'')
     else bindE (LogBase2_up x ZeroBigDec) (\<lambda>(x1, y1).
          bindE (LogBase2_down x1 y1) (\<lambda>(x2, y2).
          LogBase2_digits maxLog2Iterations x2 oneHalfBigDec y2)))"

definition BigDec_Ln :: "BigDec \<Rightarrow> BigDec res" where
  "BigDec_Ln x = bindE (BigDec_LogBase2 x) (\<lambda>log2x. BigDec_Quo log2x logOfEbase2)"

definition BigDec_TickLog :: "BigDec \<Rightarrow> BigDec res" where
  "BigDec_TickLog x = bindE (BigDec_LogBase2 x) (\<lambda>log2x. BigDec_Quo log2x tickLogOf2)"

definition BigDec_CustomBaseLog :: "BigDec \<Rightarrow> BigDec \<Rightarrow> BigDec res" where
  "BigDec_CustomBaseLog x base =
    (if BigDec_LTE base ZeroBigDec \<or> BigDec_Equal base OneBigDec
     then Inl (Panic ''log is not defined at base <= 0 or base == 1'')
     else bindE (BigDec_LogBase2 x) (\<lambda>log2x_argument.
          bindE (BigDec_LogBase2 base) (\<lambda>log2x_base. BigDec_Quo log2x_argument log2x_base)))"

section \<open>The constants are what the source initialises them with\<close>

lemma oneHalfBigDec_init: "BigDec_Quo OneBigDec twoBigDec = Inr oneHalfBigDec"
  by (simp add: bigdec_ops OneBigDec_def twoBigDec_def oneHalfBigDec_def bigdec_consts sdiv_nonneg smod_nonneg
      chopPrecisionAndRound.simps Let_def)

lemma log_constants_init:
  "MustNewBigDecFromStr ''1.442695040888963407359924681001892137'' = Inr logOfEbase2"
  "MustNewBigDecFromStr ''0.000144262291094554178391070900057480'' = Inr tickLogOf2"
  "MustNewBigDecFromStr ''2'' = Inr twoBigDec"
  by (simp_all add: MustNewBigDecFromStr_def NewBigDecFromStr_def big_SetString10_def digit_value_def
      with_sign_def BitLen_gt_iff scan10_zeros_right o_def bigdec_consts logOfEbase2_def tickLogOf2_def twoBigDec_def)

section \<open>Scaling\<close>

abbreviation P :: int where
  "P \<equiv> defaultBigDecPrecisionReuse"

lemma P_bounds: "2 ^ 119 < P" "P < 2 ^ 120"
  by (simp_all add: bigdec_consts)

lemma AddMut_bounded: "\<bar>bdi y + bdi z\<bar> < 2 ^ maxDecBitLen \<Longrightarrow> BigDec_AddMut y z = Inr (BigDec (bdi y + bdi z))"
  by (simp add: BigDec_AddMut_def)

lemma P_multiple_bounded: "\<bar>j\<bar> \<le> 1200 \<Longrightarrow> \<bar>j * P\<bar> < 2 ^ maxDecBitLen"
proof -
  assume "\<bar>j\<bar> \<le> 1200"
  then have "\<bar>j * P\<bar> \<le> 1200 * P" by (simp add: abs_mult mult_right_mono)
  also have "\<dots> < 2 ^ maxDecBitLen" by (simp add: bigdec_consts)
  finally show ?thesis .
qed

lemma LogBase2_up_result:
  assumes "0 < x0" "x = x0 * 2 ^ j" "y = BigDec (- int j * P)" "j = 0 \<or> x0 * 2 ^ j < 2 * P"
  shows "\<exists>i. LogBase2_up (BigDec x) y = Inr (BigDec (x0 * 2 ^ i), BigDec (- int i * P)) \<and> P \<le> x0 * 2 ^ i
    \<and> (i = 0 \<or> x0 * 2 ^ i < 2 * P)"
  using assms(2-)
proof (induction "BigDec x" y arbitrary: x j rule: LogBase2_up.induct)
  case (1 y)
  show ?case
  proof (cases "x < P")
    case False
    with 1 show ?thesis
      by (intro exI [of _ j]) (auto simp: LogBase2_up.simps BigDec_LT_def OneBigDec_def big_simps)
  next
    case True
    have "(2::int) ^ j \<le> x0 * 2 ^ j" using assms(1) by simp
    with True 1(2) P_bounds(2) have "(2::int) ^ j < 2 ^ 120" by linarith
    then have j: "j < 120" by (rule power_less_imp_less_exp [rotated]) simp
    have add: "BigDec_AddMut y negOneBigDec = Inr (BigDec (- int (Suc j) * P))"
      using P_multiple_bounded [of "- int (Suc j)"] j 1(3)
      by (subst AddMut_bounded) (simp_all add: negOneBigDec_def BigDec_Neg_def OneBigDec_def algebra_simps)
    have "\<exists>i. LogBase2_up (BigDec (big_Lsh (bdi (BigDec x)) 1)) (BigDec (- int (Suc j) * P)) =
        Inr (BigDec (x0 * 2 ^ i), BigDec (- int i * P)) \<and> P \<le> x0 * 2 ^ i \<and> (i = 0 \<or> x0 * 2 ^ i < 2 * P)"
      by (rule 1(1) [OF _ add, of "Suc j"])
        (use True 1(2) in \<open>simp_all add: BigDec_LT_def OneBigDec_def big_simps big_Lsh_def\<close>)
    with True add show ?thesis
      by (subst LogBase2_up.simps) (simp add: BigDec_LT_def OneBigDec_def big_simps)
  qed
qed

lemma LogBase2_down_result:
  assumes "P \<le> x0" "x0 < 2 ^ maxDecBitLen" "P \<le> x0 div 2 ^ j" "y = BigDec (int j * P)"
  shows "\<exists>i. LogBase2_down (BigDec (x0 div 2 ^ j)) y = Inr (BigDec (x0 div 2 ^ i), BigDec (int i * P))
    \<and> P \<le> x0 div 2 ^ i \<and> x0 div 2 ^ i < 2 * P \<and> i \<le> 1200"
  using assms(3-)
proof (induction "BigDec (x0 div 2 ^ j)" y arbitrary: j rule: LogBase2_down.induct)
  case (1 y)
  have "2 ^ j \<le> x0"
    using 1(2) P_bounds(1) by (smt (verit, best) div_pos_pos_trivial zero_less_power assms(1))
  with assms(2) have "(2::int) ^ j < 2 ^ maxDecBitLen" by linarith
  then have "j < maxDecBitLen" by (rule power_less_imp_less_exp [rotated]) simp
  then have j: "j < 1144" by (simp add: bigdec_consts)
  show ?case
  proof (cases "2 * P \<le> x0 div 2 ^ j")
    case False
    with 1 j show ?thesis
      by (intro exI [of _ j]) (auto simp: LogBase2_down.simps BigDec_GTE_def twoBigDec_def big_simps)
  next
    case True
    have add: "BigDec_AddMut y OneBigDec = Inr (BigDec (int (Suc j) * P))"
      using P_multiple_bounded [of "int (Suc j)"] j 1(3)
      by (subst AddMut_bounded) (simp_all add: OneBigDec_def algebra_simps)
    have half: "x0 div 2 ^ j div 2 = x0 div 2 ^ Suc j"
      by (simp add: zdiv_zmult2_eq [symmetric] mult.commute)
    with True have "P \<le> x0 div 2 ^ Suc j" by linarith
    then have "\<exists>i. LogBase2_down (BigDec (x0 div 2 ^ Suc j)) (BigDec (int (Suc j) * P)) =
        Inr (BigDec (x0 div 2 ^ i), BigDec (int i * P)) \<and> P \<le> x0 div 2 ^ i \<and> x0 div 2 ^ i < 2 * P \<and> i \<le> 1200"
      using True half by (intro 1(1)) (simp_all add: BigDec_GTE_def twoBigDec_def big_simps big_Rsh_def)
    with True add half show ?thesis
      by (subst LogBase2_down.simps) (simp add: BigDec_GTE_def twoBigDec_def big_simps big_Rsh_def)
  qed
qed

section \<open>The error of the digits\<close>

text \<open>The logarithm of a mantissa, over the reals.\<close>

definition lg :: "real \<Rightarrow> real" where
  "lg x = log 2 (x / real_of_int P)"

lemma lg_diff_le:
  assumes "real_of_int P \<le> a" "a \<le> b" "b - a \<le> c"
  shows "0 \<le> lg b - lg a" "lg b - lg a \<le> 2 * c / real_of_int P"
proof -
  have P: "0 < real_of_int P" by simp
  with assms have a: "0 < a" "0 < b" by linarith+
  have "lg b - lg a = log 2 (b / a)"
    using a P by (simp add: lg_def log_divide)
  then have l: "lg b - lg a = ln (b / a) / ln 2" by (simp add: log_def)
  have "1 \<le> b / a" using a assms by simp
  then show "0 \<le> lg b - lg a" unfolding l by simp
  have "ln (b / a) = ln (1 + (b - a) / a)" using a by (simp add: field_simps)
  also have "\<dots> \<le> (b - a) / a" using a assms by (intro ln_add_one_self_le_self) simp
  also have "\<dots> \<le> c / real_of_int P" using assms a P by (intro frac_le) simp_all
  finally have *: "ln (b / a) \<le> c / real_of_int P" .
  have "0 \<le> c / real_of_int P" using assms P by simp
  moreover have "1 / 2 \<le> ln (2::real)" using ln_add1_ge [of 1] by simp
  ultimately have "c / real_of_int P * (1 / 2) \<le> c / real_of_int P * ln 2"
    by (intro mult_left_mono)
  moreover from * have "ln (b / a) * (1 / 2) \<le> c / real_of_int P * (1 / 2)"
    by (rule mult_right_mono) simp
  ultimately have "ln (b / a) * (1 / 2) \<le> c / real_of_int P * ln 2" by (rule order_trans [rotated])
  then show "lg b - lg a \<le> 2 * c / real_of_int P"
    unfolding l by (simp add: field_simps)
qed

lemma lg_diff:
  assumes "real_of_int P \<le> a" "real_of_int P \<le> b" "\<bar>b - a\<bar> \<le> c"
  shows "\<bar>lg b - lg a\<bar> \<le> 2 * c / real_of_int P"
  using lg_diff_le [of a b c] lg_diff_le [of b a c] assms by (cases "a \<le> b") auto

lemma lg_square: "0 < a \<Longrightarrow> lg (a * a / real_of_int P) = 2 * lg a"
  by (simp add: lg_def log_divide log_mult)

lemma lg_half: "0 < a \<Longrightarrow> lg (a / 2) = lg a - 1"
  by (simp add: lg_def log_divide log_mult)

lemma lg_range: "real_of_int P \<le> a \<Longrightarrow> a \<le> 2 * real_of_int P \<Longrightarrow> 0 \<le> lg a \<and> lg a \<le> 1"
proof -
  assume a: "real_of_int P \<le> a" "a \<le> 2 * real_of_int P"
  have "0 < real_of_int P" by simp
  with a have "1 \<le> a / real_of_int P" "a / real_of_int P \<le> 2" by (simp_all add: pos_divide_le_eq)
  then have "log 2 1 \<le> log 2 (a / real_of_int P)" "log 2 (a / real_of_int P) \<le> log 2 2"
    by (intro log_mono; linarith)+
  then show ?thesis by (simp add: lg_def)
qed

text \<open>One iteration: the square of a mantissa in \<open>[P, 2 P)\<close>, halved when it reaches \<open>2 P\<close>.\<close>

lemma square_bounds:
  assumes "P \<le> x" "x < 2 * P"
  defines "s \<equiv> chopPrecisionAndRound (x * x)"
  shows "P \<le> s" "s \<le> 4 * P - 2" "\<bar>real_of_int s - real_of_int x * real_of_int x / real_of_int P\<bar> \<le> 1 / 2"
proof -
  have "chopPrecisionAndRound (P * P) \<le> s"
    unfolding s_def using assms(1) P_bounds(1) by (intro r36.chop_mono mult_mono) simp_all
  then show "P \<le> s" by simp
  have "x * x \<le> (2 * P - 1) * (2 * P - 1)"
    using assms(1,2) by (intro mult_mono) simp_all
  also have "\<dots> \<le> P * (4 * P - 2)" using P_bounds(1) by (simp add: algebra_simps)
  finally have "s \<le> chopPrecisionAndRound (P * (4 * P - 2))"
    unfolding s_def by (intro r36.chop_mono)
  then show "s \<le> 4 * P - 2" by simp
  have "\<bar>x * x - P * s\<bar> \<le> fivePrecision" unfolding s_def by (rule r36.chop_spec [THEN conjunct1])
  then have "2 * \<bar>x * x - P * s\<bar> \<le> 2 * fivePrecision" by simp
  then have "2 * \<bar>x * x - P * s\<bar> \<le> P" by (simp only: r36.prec_half [symmetric])
  then have "2 * \<bar>real_of_int x * real_of_int x - real_of_int P * real_of_int s\<bar> \<le> real_of_int P"
    by (metis (no_types, opaque_lifting) of_int_abs of_int_diff of_int_le_iff of_int_mult of_int_numeral)
  moreover have "real_of_int s - real_of_int x * real_of_int x / real_of_int P =
      - (real_of_int x * real_of_int x - real_of_int P * real_of_int s) / real_of_int P"
    by (simp add: field_simps)
  ultimately show "\<bar>real_of_int s - real_of_int x * real_of_int x / real_of_int P\<bar> \<le> 1 / 2"
    by (simp add: abs_divide divide_le_eq abs_minus_commute mult.commute)
qed

lemma LogBase2_digit_step:
  assumes "P \<le> x" "x < 2 * P"
  defines "s \<equiv> chopPrecisionAndRound (x * x)"
  defines "dg \<equiv> (if 2 * P \<le> s then 1 else 0 :: int)" and "x' \<equiv> (if 2 * P \<le> s then s div 2 else s)"
  shows "BigDec_MulMut (BigDec x) (BigDec x) = Inr (BigDec s)" "P \<le> x'" "x' < 2 * P"
    "\<bar>lg (real_of_int x') - (2 * lg (real_of_int x) - real_of_int dg)\<bar> \<le> 2 / real_of_int P"
proof -
  note sb = square_bounds [OF assms(1,2), folded s_def]
  let ?q = "real_of_int x * real_of_int x / real_of_int P"
  have Pp: "0 < real_of_int P" by simp
  have xP: "real_of_int P \<le> real_of_int x" using assms(1) by (simp only: of_int_le_iff)
  have "4 * P - 2 < 2 ^ maxDecBitLen" by (simp add: bigdec_consts)
  with sb(1,2) P_bounds(1) have "\<bar>s\<bar> < 2 ^ maxDecBitLen" by linarith
  then show "BigDec_MulMut (BigDec x) (BigDec x) = Inr (BigDec s)"
    by (simp add: BigDec_MulMut_def s_def)
  show "P \<le> x'" "x' < 2 * P" using sb(1,2) by (auto simp: x'_def)
  have sP: "real_of_int P \<le> real_of_int s" using sb(1) by (simp only: of_int_le_iff)
  have "real_of_int P * real_of_int P \<le> real_of_int x * real_of_int x"
    using xP Pp by (intro mult_mono; linarith)
  then have qP: "real_of_int P \<le> ?q" using Pp by (simp add: pos_le_divide_eq)
  have "0 < real_of_int x" using xP Pp by linarith
  with lg_diff [OF qP sP sb(3)] have 1: "\<bar>lg (real_of_int s) - 2 * lg (real_of_int x)\<bar> \<le> 1 / real_of_int P"
    by (simp add: lg_square)
  show "\<bar>lg (real_of_int x') - (2 * lg (real_of_int x) - real_of_int dg)\<bar> \<le> 2 / real_of_int P"
  proof (cases "2 * P \<le> s")
    case False
    have "1 / real_of_int P \<le> 2 / real_of_int P" using Pp by (simp add: divide_right_mono)
    with False 1 show ?thesis by (simp add: x'_def dg_def)
  next
    case True
    then have "2 * real_of_int P \<le> real_of_int s" by (metis of_int_le_iff of_int_mult of_int_numeral)
    moreover have "P \<le> s div 2" using True by linarith
    then have "real_of_int P \<le> real_of_int (s div 2)" by (simp only: of_int_le_iff)
    moreover have "\<bar>real_of_int (s div 2) - real_of_int s / 2\<bar> \<le> 1 / 2"
    proof -
      have "s - 1 \<le> 2 * (s div 2)" "2 * (s div 2) \<le> s" by linarith+
      then have "real_of_int (s - 1) \<le> real_of_int (2 * (s div 2))" "real_of_int (2 * (s div 2)) \<le> real_of_int s"
        by (simp_all only: of_int_le_iff)
      then show ?thesis by simp
    qed
    ultimately have "\<bar>lg (real_of_int (s div 2)) - lg (real_of_int s / 2)\<bar> \<le> 1 / real_of_int P"
      using lg_diff [of "real_of_int s / 2" "real_of_int (s div 2)" "1 / 2"] by simp
    moreover have "lg (real_of_int s / 2) = lg (real_of_int s) - 1" using sP Pp by (intro lg_half) linarith
    ultimately show ?thesis using True 1 by (simp add: x'_def dg_def)
  qed
qed

text \<open>
  The error of the digits, in units of the last place: one for each truncated \<open>b\<close>, the
  rounding of the squares weighted by \<open>w\<close>, and what the digits beyond the last one are worth.
  \<open>w\<close> is the exact weight of the current mantissa and \<open>2 b\<close> its truncation.
\<close>

lemma LogBase2_digits_error:
  assumes "P \<le> x" "x < 2 * P" "0 \<le> w" "real_of_int b \<le> w * real_of_int P / 2" "w * real_of_int P / 2 < real_of_int b + 1"
    "0 \<le> b" "\<bar>y\<bar> + 2 * b < 2 ^ maxDecBitLen"
  shows "\<exists>r. LogBase2_digits n (BigDec x) (BigDec b) (BigDec y) = Inr (BigDec r) \<and>
    \<bar>real_of_int r - (real_of_int y + w * real_of_int P * lg (real_of_int x))\<bar> \<le> real n + 2 * w + w * real_of_int P / 2 ^ n"
  using assms
proof (induction n arbitrary: x w b y)
  case 0
  have l: "0 \<le> lg (real_of_int x)" "lg (real_of_int x) \<le> 1"
    using lg_range [of "real_of_int x"] 0(1,2) by (auto simp flip: of_int_le_iff of_int_less_iff)
  have "0 \<le> w * real_of_int P" using 0(3) by simp
  with l have "0 \<le> w * real_of_int P * lg (real_of_int x)" "w * real_of_int P * lg (real_of_int x) \<le> w * real_of_int P"
    by (simp, metis mult_left_mono mult.right_neutral)
  with 0(3) show ?case by simp
next
  case (Suc n)
  define s where "s = chopPrecisionAndRound (x * x)"
  define dg x' where "dg = (if 2 * P \<le> s then 1 else 0 :: int)" and "x' = (if 2 * P \<le> s then s div 2 else s)"
  note step = LogBase2_digit_step [OF Suc.prems(1,2), folded s_def, folded dg_def x'_def]
  let ?w = "w / 2" and ?y = "y + dg * b" and ?b = "b div 2" and ?L = "lg (real_of_int x)" and ?P = "real_of_int P"
  have bb: "b - 1 \<le> 2 * ?b" "2 * ?b \<le> b" by linarith+
  then have rb: "real_of_int b - 1 \<le> 2 * real_of_int ?b" "2 * real_of_int ?b \<le> real_of_int b" by linarith+
  have yb: "\<bar>?y\<bar> \<le> \<bar>y\<bar> + b" using Suc.prems(6) by (auto simp: dg_def)
  obtain r where r: "LogBase2_digits n (BigDec x') (BigDec ?b) (BigDec ?y) = Inr (BigDec r)"
      "\<bar>real_of_int r - (real_of_int ?y + ?w * ?P * lg (real_of_int x'))\<bar> \<le> real n + 2 * ?w + ?w * ?P / 2 ^ n"
    using Suc.IH [of x' ?w ?b ?y] step(2,3) Suc.prems(3-) rb bb yb by auto
  have "LogBase2_digits (Suc n) (BigDec x) (BigDec b) (BigDec y) = Inr (BigDec r)"
    using step(1) r(1) yb Suc.prems(6,7)
    by (auto simp: BigDec_GTE_def twoBigDec_def big_simps big_Rsh_def BigDec_AddMut_def dg_def x'_def split: if_splits)
  moreover define e where "e = lg (real_of_int x') - (2 * ?L - real_of_int dg)"
  have "\<bar>?w * ?P * e\<bar> \<le> w"
  proof -
    have "\<bar>?w * ?P * e\<bar> = ?w * ?P * \<bar>e\<bar>" using Suc.prems(3) by (simp add: abs_mult)
    also have "\<dots> \<le> ?w * ?P * (2 / ?P)" using step(4) Suc.prems(3) by (intro mult_left_mono) (simp_all add: e_def)
    finally show ?thesis by simp
  qed
  moreover have "\<bar>real_of_int dg * (real_of_int b - w * ?P / 2)\<bar> \<le> 1"
    using Suc.prems(4,5) by (simp add: dg_def)
  moreover have "real_of_int ?y + ?w * ?P * lg (real_of_int x') - (real_of_int y + w * ?P * ?L) =
      real_of_int dg * (real_of_int b - w * ?P / 2) + ?w * ?P * e"
    by (simp add: e_def algebra_simps)
  moreover have "?w * ?P / 2 ^ n = w * ?P / 2 ^ Suc n" by simp
  ultimately show ?case using r(2) by (intro exI [of _ r]) linarith
qed

lemma abs_diff_trans: "\<bar>a - b\<bar> \<le> c \<Longrightarrow> \<bar>b - d\<bar> \<le> e \<Longrightarrow> \<bar>a - d\<bar> \<le> c + e" for a b c d e :: real
  by linarith

lemma lg_mult_power: "0 < a \<Longrightarrow> lg (a * 2 ^ i) = lg a + real i" "0 < a \<Longrightarrow> lg (a / 2 ^ i) = lg a - real i"
  by (simp_all add: lg_def log_divide log_mult log_nat_power)

text \<open>Both scaling loops together: a mantissa in \<open>[P, 2 P)\<close> and the integer part of the logarithm.\<close>

lemma LogBase2_scaling:
  assumes "0 < x" "x < 2 ^ maxDecBitLen"
  obtains x1 y1 x2 k where "LogBase2_up (BigDec x) ZeroBigDec = Inr (x1, y1)"
    "LogBase2_down x1 y1 = Inr (BigDec x2, BigDec (k * P))" "P \<le> x2" "x2 < 2 * P" "\<bar>k\<bar> \<le> 1200"
    "\<bar>real_of_int k + lg (real_of_int x2) - lg (real_of_int x)\<bar> \<le> 2 / real_of_int P"
proof -
  have Pp: "0 < real_of_int P" by simp
  obtain i where i: "LogBase2_up (BigDec x) ZeroBigDec = Inr (BigDec (x * 2 ^ i), BigDec (- int i * P))" "P \<le> x * 2 ^ i"
    "i = 0 \<or> x * 2 ^ i < 2 * P"
    using LogBase2_up_result [OF assms(1), of x 0 ZeroBigDec] by (auto simp: ZeroBigDec_def)
  show ?thesis
  proof (cases "x * 2 ^ i < 2 * P")
    case True
    have "(2::int) ^ i \<le> x * 2 ^ i" using assms(1) by simp
    also have "\<dots> < 2 ^ 121" using True P_bounds(2) by simp
    finally have "(2::int) ^ i < 2 ^ 121" .
    then have "i < 121" by (rule power_less_imp_less_exp [rotated]) simp
    moreover have "LogBase2_down (BigDec (x * 2 ^ i)) (BigDec (- int i * P)) = Inr (BigDec (x * 2 ^ i), BigDec (- int i * P))"
      using True by (simp add: LogBase2_down.simps BigDec_GTE_def twoBigDec_def big_simps)
    moreover have "lg (real_of_int (x * 2 ^ i)) = lg (real_of_int x) + real i"
      using assms(1) lg_mult_power(1) [of "real_of_int x" i] by simp
    ultimately show ?thesis
      using i(1,2) True Pp by (intro that [of "BigDec (x * 2 ^ i)" "BigDec (- int i * P)" "x * 2 ^ i" "- int i"]) auto
  next
    case False
    with i(3) have i0: "i = 0" by simp
    with False P_bounds(1) have xP: "P \<le> x" by simp
    then obtain j where j: "LogBase2_down (BigDec x) (BigDec 0) = Inr (BigDec (x div 2 ^ j), BigDec (int j * P))"
      "P \<le> x div 2 ^ j" "x div 2 ^ j < 2 * P" "j \<le> 1200"
      using LogBase2_down_result [OF xP assms(2), of 0 "BigDec 0"] by auto
    have "x div 2 ^ j = \<lfloor>real_of_int x / 2 ^ j\<rfloor>"
      using floor_divide_of_int_eq [of x "2 ^ j", where 'a = real] by simp
    then have fl: "\<bar>real_of_int (x div 2 ^ j) - real_of_int x / 2 ^ j\<bar> \<le> 1" "real_of_int (x div 2 ^ j) \<le> real_of_int x / 2 ^ j"
      by (simp_all, linarith)
    have "real_of_int P \<le> real_of_int (x div 2 ^ j)" using j(2) by (simp only: of_int_le_iff)
    with lg_diff [of "real_of_int x / 2 ^ j" "real_of_int (x div 2 ^ j)" 1] fl
    have "\<bar>lg (real_of_int (x div 2 ^ j)) - lg (real_of_int x / 2 ^ j)\<bar> \<le> 2 / real_of_int P" by simp
    with lg_mult_power(2) [of "real_of_int x" j] assms(1)
    have "\<bar>real_of_int (int j) + lg (real_of_int (x div 2 ^ j)) - lg (real_of_int x)\<bar> \<le> 2 / real_of_int P" by simp
    with i(1) i0 j show ?thesis by (intro that [of "BigDec x" "BigDec 0" "x div 2 ^ j" "int j"]) auto
  qed
qed

section \<open>Properties\<close>

text \<open>C19: \<open>LogBase2\<close> returns a value for every positive decimal in range, within \<open>10 ^ -33\<close> of
  the binary logarithm of its argument, and panics on zero and on negative arguments.\<close>

theorem BigDec_LogBase2_accurate:
  assumes "0 < bdi x" "bdi x < 2 ^ maxDecBitLen" "bdi z \<le> 0"
  shows "(\<exists>y. BigDec_LogBase2 x = Inr y \<and> \<bar>bd_val y - log 2 (bd_val x)\<bar> \<le> 1 / 10 ^ 33) \<and>
    BigDec_LogBase2 z = Inl (Panic ''log is not defined at <= 0'')"
proof (intro conjI)
  let ?P = "real_of_int P"
  obtain x1 y1 x2 k where sc: "LogBase2_up (BigDec (bdi x)) ZeroBigDec = Inr (x1, y1)"
    "LogBase2_down x1 y1 = Inr (BigDec x2, BigDec (k * P))" "P \<le> x2" "x2 < 2 * P" "\<bar>k\<bar> \<le> 1200"
    "\<bar>real_of_int k + lg (real_of_int x2) - lg (real_of_int (bdi x))\<bar> \<le> 2 / ?P"
    by (rule LogBase2_scaling [OF assms(1,2)])
  have "\<bar>k * P\<bar> + 2 * (P div 2) < 2 ^ maxDecBitLen"
  proof -
    have "\<bar>k * P\<bar> \<le> 1200 * P" using sc(5) by (simp add: abs_mult mult_right_mono)
    moreover have "1202 * P < 2 ^ maxDecBitLen" by (simp add: bigdec_consts)
    ultimately show ?thesis by linarith
  qed
  moreover have "real_of_int (P div 2) = 1 * ?P / 2" by (simp add: bigdec_consts)
  ultimately obtain r where r: "LogBase2_digits maxLog2Iterations (BigDec x2) oneHalfBigDec (BigDec (k * P)) = Inr (BigDec r)"
    "\<bar>real_of_int r - (real_of_int (k * P) + 1 * ?P * lg (real_of_int x2))\<bar> \<le> real maxLog2Iterations + 2 * 1 + 1 * ?P / 2 ^ maxLog2Iterations"
    using LogBase2_digits_error [OF sc(3,4), of 1 "P div 2" "k * P" maxLog2Iterations]
    unfolding oneHalfBigDec_def by (auto simp: bigdec_consts)
  have "BigDec_LogBase2 x = Inr (BigDec r)"
    using sc(1,2) r(1) assms(1) by (cases x) (simp add: BigDec_LogBase2_def BigDec_LTE_def ZeroBigDec_def big_simps)
  moreover have "\<bar>bd_val (BigDec r) - log 2 (bd_val x)\<bar> \<le> 1 / 10 ^ 33"
  proof -
    have v: "bd_val x = real_of_int (bdi x) / ?P" "bd_val (BigDec r) = real_of_int r / ?P"
      by (simp_all add: bd_val_def ulp_def bigdec_consts)
    have "?P / 2 ^ maxLog2Iterations \<le> 1" by (simp add: bigdec_consts maxLog2Iterations_def)
    with r(2) have "\<bar>real_of_int r - (real_of_int k + lg (real_of_int x2)) * ?P\<bar> \<le> 303"
      by (simp add: maxLog2Iterations_def algebra_simps)
    then have "\<bar>real_of_int r - (real_of_int k + lg (real_of_int x2)) * ?P\<bar> / ?P \<le> 303 / ?P"
      by (rule divide_right_mono) simp
    moreover have "\<bar>real_of_int r - (real_of_int k + lg (real_of_int x2)) * ?P\<bar> / ?P =
        \<bar>real_of_int r / ?P - (real_of_int k + lg (real_of_int x2))\<bar>"
    proof -
      have "real_of_int r / ?P - K = (real_of_int r - K * ?P) / ?P" for K by (simp add: diff_divide_distrib)
      then show ?thesis by (simp add: abs_divide)
    qed
    ultimately have "\<bar>real_of_int r / ?P - (real_of_int k + lg (real_of_int x2))\<bar> \<le> 303 / ?P" by (simp only:)
    then have "\<bar>bd_val (BigDec r) - lg (real_of_int (bdi x))\<bar> \<le> 303 / ?P + 2 / ?P"
      unfolding v(2) using sc(6) by (rule abs_diff_trans)
    also have "\<dots> \<le> 1 / 10 ^ 33" by (simp add: bigdec_consts)
    finally show ?thesis unfolding v(1) lg_def .
  qed
  ultimately show "\<exists>y. BigDec_LogBase2 x = Inr y \<and> \<bar>bd_val y - log 2 (bd_val x)\<bar> \<le> 1 / 10 ^ 33" by blast
  show "BigDec_LogBase2 z = Inl (Panic ''log is not defined at <= 0'')"
    using assms(3) by (simp add: BigDec_LogBase2_def BigDec_LTE_def ZeroBigDec_def big_simps)
qed

theorem BigDec_LogBase2_accurate_witness:
  "\<exists>y. BigDec_LogBase2 (BigDec (3 * 10 ^ 36)) = Inr y \<and> \<bar>bd_val y - log 2 (bd_val (BigDec (3 * 10 ^ 36)))\<bar> \<le> 1 / 10 ^ 33"
  using BigDec_LogBase2_accurate [of "BigDec (3 * 10 ^ 36)" "BigDec 0"] by (simp add: bigdec_consts)

end
