(* ===== verification/BigDec_Exp.thy ===== *)
theory BigDec_Exp
  imports BigDec_Power BigDec_Log
begin

text \<open>
  \<open>osmomath/exp2.go\<close> and the decimal power of \<open>osmomath/decimal.go\<close>: \<open>Exp2\<close> splits its exponent
  into an integer, applied as a shift, and a fraction, for which a rational approximation with
  13 coefficients is evaluated in \<open>BigDec\<close> arithmetic.
\<close>

section \<open>Definitions\<close>

definition numeratorCoefficients13Param :: "BigDec list" where
  "numeratorCoefficients13Param = map BigDec
    [1000000000000000000000044212244679434, 352032455817400196452603772766844426, 56507868883666405413116800969512484,
     5343900728213034434757419480319916, 317708814342353603087543715930732, 11429747507407623028722262874632,
     198381965651614980168744540366]"

definition denominatorCoefficients13Param :: "BigDec list" where
  "denominatorCoefficients13Param = map BigDec
    [1000000000000000000000000000000000000, - 341114724742545112949699755780593311, 52724071627342653404436933178482287,
     - 4760950735524957576233524801866342, 267168475410566529819971616894193, - 8923715368802211181557353097439,
     140277233177373698516010555916]"

definition maxSupportedExponent :: BigDec where
  "maxSupportedExponent = BigDec (512 * defaultBigDecPrecisionReuse)"

text \<open>The loop over the coefficients after the first ones.\<close>

fun exp2_loop :: "BigDec \<Rightarrow> (BigDec \<times> BigDec) list \<Rightarrow> BigDec \<Rightarrow> BigDec \<Rightarrow> BigDec \<Rightarrow> (BigDec \<times> BigDec) res" where
  "exp2_loop x [] x_exp_i h_x p_x = Inr (h_x, p_x)"
| "exp2_loop x ((n, d) # cs) x_exp_i h_x p_x =
    bindE (BigDec_MulMut x_exp_i x) (\<lambda>x_exp_i.
    bindE (BigDec_Mul n x_exp_i) (\<lambda>t.
    bindE (BigDec_AddMut h_x t) (\<lambda>h_x.
    bindE (BigDec_Mul d x_exp_i) (\<lambda>u.
    bindE (BigDec_AddMut p_x u) (\<lambda>p_x.
    exp2_loop x cs x_exp_i h_x p_x)))))"

definition exp2ChebyshevRationalApprox :: "BigDec \<Rightarrow> BigDec res" where
  "exp2ChebyshevRationalApprox x =
    (if BigDec_LT x ZeroBigDec \<or> BigDec_GT x OneBigDec then Inl (Panic ''exponent must be in the range [0, 1]'')
     else if BigDec_IsZero x then Inr OneBigDec
     else if BigDec_Equal x OneBigDec then Inr twoBigDec
     else bindE (exp2_loop x (zip (tl numeratorCoefficients13Param) (tl denominatorCoefficients13Param)) OneBigDec
            (hd numeratorCoefficients13Param) (hd denominatorCoefficients13Param))
          (\<lambda>(h_x, p_x). BigDec_QuoMut h_x p_x))"

text \<open>\<open>d.TruncateInt().Uint64()\<close>\<close>

definition truncated_uint64 :: "BigDec \<Rightarrow> nat res" where
  "truncated_uint64 d = bindE (BigDec_TruncateInt d) (\<lambda>i. case i of
     None \<Rightarrow> Inl (Panic ''nil pointer dereference'') | Some b \<Rightarrow> BigInt_Uint64 b)"

definition Exp2 :: "BigDec \<Rightarrow> BigDec res" where
  "Exp2 exponent =
    (if BigDec_IsNegative exponent then Inl (Panic ''negative exponent is not supported'')
     else if BigDec_GT (BigDec_Abs exponent) maxSupportedExponent then Inl (Panic ''integer exponent is too large'')
     else
       bindE (BigDec_TruncateDec exponent) (\<lambda>integerExponent.
       bindE (BigDec_Sub exponent integerExponent) (\<lambda>fractionalExponent.
       bindE (exp2ChebyshevRationalApprox fractionalExponent) (\<lambda>fractionalResult.
       bindE (truncated_uint64 integerExponent) (\<lambda>n.
       Inr (BigDec (big_Lsh (bdi fractionalResult) n)))))))"

definition BigDec_Power :: "BigDec \<Rightarrow> BigDec \<Rightarrow> BigDec res" where
  "BigDec_Power d pow =
    (if BigDec_IsNegative d then Inl (Panic ''negative base is not supported for Power()'')
     else if BigDec_IsNegative pow then Inl (Panic ''negative power is not supported for Power()'')
     else if BigDec_GT (BigDec_Abs pow) maxSupportedExponent then Inl (Panic ''integer exponent is too large'')
     else if BigDec_IsInteger pow then bindE (truncated_uint64 pow) (BigDec_PowerInteger d)
     else if BigDec_IsZero pow then Inr OneBigDec
     else if BigDec_IsZero d then Inr ZeroBigDec
     else if BigDec_LT d OneBigDec then Inl (Panic ''Power() is not supported for base < 1'')
     else if BigDec_Equal d twoBigDec then Exp2 pow
     else bindE (BigDec_LogBase2 d) (\<lambda>l. bindE (BigDec_Mul l pow) Exp2))"

section \<open>The constants are what the source initialises them with\<close>

lemma maxSupportedExponent_init: "BigDec_PowerInteger twoBigDec 9 = Inr maxSupportedExponent"
  by (simp add: BigDec_PowerInteger_def BigDec_PowerIntegerMut_def BigDec_Clone_def PowerInteger_loop.simps
      BigDec_MulMut_def twoBigDec_def OneBigDec_def maxSupportedExponent_def bigdec_consts chopPrecisionAndRound.simps
      sdiv_nonneg smod_nonneg)

section \<open>Bounds of the approximation\<close>

lemma chop_fraction:
  assumes "0 \<le> xe" "xe \<le> P"
  shows "0 \<le> c \<Longrightarrow> 0 \<le> chopPrecisionAndRound (c * xe) \<and> chopPrecisionAndRound (c * xe) \<le> c"
    and "c \<le> 0 \<Longrightarrow> c \<le> chopPrecisionAndRound (c * xe) \<and> chopPrecisionAndRound (c * xe) \<le> 0"
proof -
  have *: "0 \<le> c \<Longrightarrow> 0 \<le> chopPrecisionAndRound (c * xe) \<and> chopPrecisionAndRound (c * xe) \<le> c" for c
    using r36.chop_mono [of "c * xe" "P * c"] r36.chop_nonneg_ge [of "c * xe"] assms mult_left_mono [of xe P c]
    by (simp add: mult.commute)
  then show "0 \<le> c \<Longrightarrow> 0 \<le> chopPrecisionAndRound (c * xe) \<and> chopPrecisionAndRound (c * xe) \<le> c" .
  assume "c \<le> 0"
  with * [of "- c"] show "c \<le> chopPrecisionAndRound (c * xe) \<and> chopPrecisionAndRound (c * xe) \<le> 0"
    by (simp add: r36.chop_odd)
qed

definition pos_sum :: "BigDec list \<Rightarrow> int" where
  "pos_sum ds = sum_list (map (\<lambda>d. max 0 (bdi d)) ds)"

definition neg_sum :: "BigDec list \<Rightarrow> int" where
  "neg_sum ds = sum_list (map (\<lambda>d. max 0 (- bdi d)) ds)"

lemma pos_neg_sum_nonneg [simp]: "0 \<le> pos_sum ds" "0 \<le> neg_sum ds"
  unfolding pos_sum_def neg_sum_def by (rule sum_list_nonneg, auto)+

lemma pos_neg_sum_Cons [simp]:
  "pos_sum (d # ds) = max 0 (bdi d) + pos_sum ds" "neg_sum (d # ds) = max 0 (- bdi d) + neg_sum ds"
  by (simp_all add: pos_sum_def neg_sum_def)

lemma term_bounds:
  assumes "0 \<le> xe" "xe \<le> P" "max 0 (bdi c) + max 0 (- bdi c) < 2 ^ maxDecBitLen"
  obtains t where "BigDec_Mul c (BigDec xe) = Inr (BigDec t)" "- max 0 (- bdi c) \<le> t" "t \<le> max 0 (bdi c)"
proof -
  let ?t = "chopPrecisionAndRound (bdi c * xe)"
  have "- max 0 (- bdi c) \<le> ?t \<and> ?t \<le> max 0 (bdi c)"
    using chop_fraction [OF assms(1,2), of "bdi c"] by (cases "0 \<le> bdi c") auto
  moreover from this have "\<bar>?t\<bar> < 2 ^ maxDecBitLen" using assms(3) by linarith
  ultimately show ?thesis by (intro that [of ?t]) (simp_all add: BigDec_Mul_def BigDec_MulMut_def BigDec_Clone_def)
qed

lemma exp2_loop_bounds:
  assumes "0 \<le> x" "x \<le> P" "0 \<le> xe" "xe \<le> P" "length ns = length ds"
    "\<bar>h\<bar> + pos_sum ns + neg_sum ns < 2 ^ maxDecBitLen" "\<bar>p\<bar> + pos_sum ds + neg_sum ds < 2 ^ maxDecBitLen"
  shows "\<exists>h' p'. exp2_loop (BigDec x) (zip ns ds) (BigDec xe) (BigDec h) (BigDec p) = Inr (BigDec h', BigDec p') \<and>
    h - neg_sum ns \<le> h' \<and> h' \<le> h + pos_sum ns \<and> p - neg_sum ds \<le> p' \<and> p' \<le> p + pos_sum ds"
  using assms(5,3,4,6,7)
proof (induction ns ds arbitrary: xe h p rule: list_induct2)
  case (Cons n ns d ds)
  let ?xe = "chopPrecisionAndRound (xe * x)"
  have x: "0 \<le> ?xe" "?xe \<le> P"
    using chop_fraction(1) [OF assms(1,2) Cons.prems(1)] Cons.prems(2) by linarith+
  moreover have "P < 2 ^ maxDecBitLen" by (simp add: bigdec_consts)
  ultimately have mx: "BigDec_MulMut (BigDec xe) (BigDec x) = Inr (BigDec ?xe)"
    by (simp add: BigDec_MulMut_def)
  have s: "0 \<le> pos_sum ns" "0 \<le> neg_sum ns" "0 \<le> pos_sum ds" "0 \<le> neg_sum ds" by simp_all
  obtain t where t: "BigDec_Mul n (BigDec ?xe) = Inr (BigDec t)" "- max 0 (- bdi n) \<le> t" "t \<le> max 0 (bdi n)"
    by (rule term_bounds [OF x, of n]) (use Cons.prems(3) s in \<open>simp; linarith\<close>)
  obtain u where u: "BigDec_Mul d (BigDec ?xe) = Inr (BigDec u)" "- max 0 (- bdi d) \<le> u" "u \<le> max 0 (bdi d)"
    by (rule term_bounds [OF x, of d]) (use Cons.prems(4) s in \<open>simp; linarith\<close>)
  have ht: "\<bar>h + t\<bar> \<le> \<bar>h\<bar> + max 0 (bdi n) + max 0 (- bdi n)" using t(2,3) by linarith
  have pu: "\<bar>p + u\<bar> \<le> \<bar>p\<bar> + max 0 (bdi d) + max 0 (- bdi d)" using u(2,3) by linarith
  have "\<bar>h + t\<bar> < 2 ^ maxDecBitLen" "\<bar>p + u\<bar> < 2 ^ maxDecBitLen"
    using ht pu Cons.prems(3,4) s unfolding pos_neg_sum_Cons by linarith+
  then have add: "BigDec_AddMut (BigDec h) (BigDec t) = Inr (BigDec (h + t))" "BigDec_AddMut (BigDec p) (BigDec u) = Inr (BigDec (p + u))"
    by (simp_all add: BigDec_AddMut_def)
  obtain h' p' where "exp2_loop (BigDec x) (zip ns ds) (BigDec ?xe) (BigDec (h + t)) (BigDec (p + u)) = Inr (BigDec h', BigDec p')"
    "h + t - neg_sum ns \<le> h'" "h' \<le> h + t + pos_sum ns" "p + u - neg_sum ds \<le> p'" "p' \<le> p + u + pos_sum ds"
    using Cons.IH [OF x, of "h + t" "p + u"] Cons.prems(3,4) ht pu by auto
  with t u mx add show ?case by (intro exI [of _ h'] exI [of _ p']) auto
qed simp

lemma hundred_dvd_P: "100 dvd P"
  by (simp add: bigdec_consts)

lemma exp2_fraction_bounds:
  assumes "0 \<le> x" "x < P"
  obtains r where "exp2ChebyshevRationalApprox (BigDec x) = Inr (BigDec r)" "94 * P \<le> 100 * r" "100 * r \<le> 217 * P"
proof (cases "x = 0")
  case True
  then show ?thesis
    by (intro that [of P]) (simp_all add: exp2ChebyshevRationalApprox_def BigDec_LT_def BigDec_GT_def BigDec_IsZero_def
        ZeroBigDec_def OneBigDec_def big_simps not_less)
next
  case False
  let ?n = numeratorCoefficients13Param and ?d = denominatorCoefficients13Param
  have len: "length (tl ?n) = length (tl ?d)"
    by (simp add: numeratorCoefficients13Param_def denominatorCoefficients13Param_def)
  have sums: "\<bar>bdi (hd ?n)\<bar> + pos_sum (tl ?n) + neg_sum (tl ?n) < 2 ^ maxDecBitLen"
    "\<bar>bdi (hd ?d)\<bar> + pos_sum (tl ?d) + neg_sum (tl ?d) < 2 ^ maxDecBitLen"
    "P \<le> bdi (hd ?n) - neg_sum (tl ?n)" "10000 * (bdi (hd ?n) + pos_sum (tl ?n)) \<le> 14143 * P"
    "654 * P \<le> 1000 * (bdi (hd ?d) - neg_sum (tl ?d))" "10000 * (bdi (hd ?d) + pos_sum (tl ?d)) \<le> 10531 * P"
    by (simp_all add: numeratorCoefficients13Param_def denominatorCoefficients13Param_def pos_sum_def neg_sum_def bigdec_consts)
  obtain h p where hp: "exp2_loop (BigDec x) (zip (tl ?n) (tl ?d)) OneBigDec (hd ?n) (hd ?d) = Inr (BigDec h, BigDec p)"
    "P \<le> h" "10000 * h \<le> 14143 * P" "654 * P \<le> 1000 * p" "10000 * p \<le> 10531 * P"
    using exp2_loop_bounds [OF _ _ _ _ len sums(1,2), of x P] assms sums(3-) by (auto simp: OneBigDec_def)
  have Pp: "0 < P" by simp
  with hp(4) have pp: "0 < p" by linarith
  let ?q = "h * squaredPrecisionReuse div p"
  have sq: "h * squaredPrecisionReuse = P * (h * P)" by (simp add: squaredPrecisionReuse_def)
  obtain c C where c: "94 * P = 100 * c" "217 * P = 100 * C"
    by (metis hundred_dvd_P dvdE dvd_mult)
  have "1000000 * (c * p) \<le> 1000000 * (h * P)"
  proof -
    have "1000000 * (c * p) = 94 * (P * (10000 * p))" using c(1) by (simp add: algebra_simps)
    also have "\<dots> \<le> 94 * (P * (10531 * P))" using hp(5) Pp by (intro mult_left_mono) simp_all
    also have "\<dots> \<le> 1000000 * (P * P)" by simp
    also have "\<dots> \<le> 1000000 * (h * P)" using hp(2) by simp
    finally show ?thesis .
  qed
  then have "P * c * p \<le> P * (h * P)" by (simp add: mult.assoc)
  then have lo: "P * c \<le> ?q" unfolding sq using pp by (simp add: le_div_iff mult.commute)
  have "10000000 * (h * P) \<le> 10000000 * (C * p)"
  proof -
    have "10000000 * (h * P) = 1000 * ((10000 * h) * P)" by simp
    also have "\<dots> \<le> 1000 * ((14143 * P) * P)" using hp(3) by (intro mult_left_mono mult_right_mono) simp_all
    also have "\<dots> \<le> 100 * (217 * P * (654 * P))" by simp
    also have "\<dots> \<le> 100 * (217 * P * (1000 * p))" using hp(4) Pp by (intro mult_left_mono) simp_all
    also have "\<dots> = 10000000 * (C * p)" unfolding c(2) by simp
    finally show ?thesis .
  qed
  then have "P * (h * P) \<le> P * (C * p)" by simp
  then have "P * (h * P) div p \<le> P * C * p div p" using pp by (intro zdiv_mono1) (simp_all add: mult.assoc)
  then have hi: "?q \<le> P * C" unfolding sq using pp by simp
  have r: "c \<le> chopPrecisionAndRound ?q" "chopPrecisionAndRound ?q \<le> C"
    using r36.chop_mono [OF lo] r36.chop_mono [OF hi] by simp_all
  moreover have "3 * P < 2 ^ maxDecBitLen" by (simp add: bigdec_consts)
  ultimately have "\<bar>chopPrecisionAndRound ?q\<bar> < 2 ^ maxDecBitLen" using c Pp by linarith
  moreover have "0 \<le> h" using hp(2) Pp by linarith
  then have "0 \<le> h * squaredPrecisionReuse" by (simp add: less_imp_le)
  ultimately have "BigDec_QuoMut (BigDec h) (BigDec p) = Inr (BigDec (chopPrecisionAndRound ?q))"
    using pp by (simp add: BigDec_QuoMut_def big_Quo_def sdiv_nonneg)
  then have "exp2ChebyshevRationalApprox (BigDec x) = Inr (BigDec (chopPrecisionAndRound ?q))"
    using False assms hp(1)
    by (simp add: exp2ChebyshevRationalApprox_def BigDec_LT_def BigDec_GT_def BigDec_IsZero_def BigDec_Equal_def
        ZeroBigDec_def OneBigDec_def big_simps)
  with r c show ?thesis by (intro that) auto
qed

section \<open>The integer part\<close>

lemma TruncateDec_nonneg: "0 \<le> bdi d \<Longrightarrow> BigDec_TruncateDec d = Inr (integral (bdi d div P))"
  by (simp add: BigDec_TruncateDec_def NewBigDecFromBigInt_def NewBigDecFromBigIntWithPrec_def precisionMultiplier_def
      calcPrecisionMultiplier_def sdiv_nonneg defaultBigDecPrecisionReuse_def)

lemma truncated_uint64_integral: "0 \<le> k \<Longrightarrow> k \<le> 512 \<Longrightarrow> truncated_uint64 (integral k) = Inr (nat k)"
proof -
  assume k: "0 \<le> k" "k \<le> 512"
  have "BitLen k \<le> maxBitLen" unfolding BitLen_le_iff using k by (simp add: maxBitLen_def)
  with k show ?thesis
    by (simp add: truncated_uint64_def BigDec_TruncateInt_def sdiv_nonneg NewBigIntFromBigInt_def BigInt_Uint64_def IsUint64_def)
qed

lemma Exp2_split:
  assumes "0 \<le> bdi e" "bdi e \<le> 512 * P"
  shows "Exp2 e = bindE (exp2ChebyshevRationalApprox (BigDec (bdi e mod P))) (\<lambda>f. Inr (BigDec (bdi f * 2 ^ nat (bdi e div P))))"
proof -
  let ?k = "bdi e div P"
  have k: "0 \<le> ?k" "?k \<le> 512"
    using assms zdiv_mono1 [OF assms(2), of P] by (simp_all add: pos_imp_zdiv_nonneg_iff)
  have m: "bdi e - ?k * P = bdi e mod P" by (simp add: minus_div_mult_eq_mod)
  have "0 \<le> bdi e mod P" "bdi e mod P < P" by simp_all
  moreover have "P < 2 ^ maxDecBitLen" by (simp add: bigdec_consts)
  ultimately have "\<bar>bdi e mod P\<bar> < 2 ^ maxDecBitLen" by linarith
  then have "BigDec_Sub e (integral ?k) = Inr (BigDec (bdi e mod P))"
    by (simp add: BigDec_Sub_def BigDec_SubMut_def BigDec_Clone_def m)
  with assms k show ?thesis
    by (simp add: Exp2_def BigDec_IsNegative_def BigDec_GT_def BigDec_Abs_def maxSupportedExponent_def big_simps
        TruncateDec_nonneg truncated_uint64_integral big_Lsh_def)
qed

section \<open>Properties\<close>

text \<open>C31: \<open>Exp2\<close> returns a value for every exponent from 0 to 512, exactly the power of two when
  the exponent is integral, and otherwise between 0.94 and 2.17 times the power of two of its
  integer part; it panics on a negative exponent and beyond 512. No intermediate value of the
  rational approximation overflows and its denominator is never zero.\<close>

theorem Exp2_total:
  assumes "0 \<le> bdi e" "bdi e \<le> 512 * defaultBigDecPrecisionReuse" "bdi n < 0" "512 * defaultBigDecPrecisionReuse < bdi b"
  defines "k \<equiv> nat (bdi e div defaultBigDecPrecisionReuse)"
  shows "(\<exists>r. Exp2 e = Inr r \<and> 94 / 100 * 2 ^ k \<le> bd_val r \<and> bd_val r \<le> 217 / 100 * 2 ^ k \<and>
    (BigDec_IsInteger e \<longrightarrow> r = BigDec (2 ^ k * defaultBigDecPrecisionReuse))) \<and>
    Exp2 n = Inl (Panic ''negative exponent is not supported'') \<and>
    Exp2 b = Inl (Panic ''integer exponent is too large'')"
proof (intro conjI)
  obtain f where f: "exp2ChebyshevRationalApprox (BigDec (bdi e mod P)) = Inr (BigDec f)" "94 * P \<le> 100 * f" "100 * f \<le> 217 * P"
    by (rule exp2_fraction_bounds [of "bdi e mod P"]) simp_all
  have v: "bd_val (BigDec (f * 2 ^ k)) = bd_val (BigDec f) * 2 ^ k" by (simp add: bd_val_def)
  have "real_of_int (94 * P) \<le> real_of_int (100 * f)" "real_of_int (100 * f) \<le> real_of_int (217 * P)"
    using f(2,3) by (simp_all only: of_int_le_iff)
  then have "94 / 100 \<le> bd_val (BigDec f)" "bd_val (BigDec f) \<le> 217 / 100"
    by (simp_all add: bd_val_def ulp_def bigdec_consts)
  then have "94 / 100 * 2 ^ k \<le> bd_val (BigDec (f * 2 ^ k))" "bd_val (BigDec (f * 2 ^ k)) \<le> 217 / 100 * 2 ^ k"
    unfolding v by (simp_all only: mult_right_mono zero_le_power zero_le_numeral)
  moreover have "BigDec_IsInteger e \<longrightarrow> f = P"
    using f(1) by (auto simp: BigDec_IsInteger_iff dvd_eq_mod_eq_0 exp2ChebyshevRationalApprox_def BigDec_LT_def BigDec_GT_def
        BigDec_IsZero_def ZeroBigDec_def OneBigDec_def big_simps split: if_splits)
  moreover have "Exp2 e = Inr (BigDec (f * 2 ^ k))"
    using Exp2_split [OF assms(1,2)] f(1) by (simp add: k_def)
  ultimately show "\<exists>r. Exp2 e = Inr r \<and> 94 / 100 * 2 ^ k \<le> bd_val r \<and> bd_val r \<le> 217 / 100 * 2 ^ k \<and>
    (BigDec_IsInteger e \<longrightarrow> r = BigDec (2 ^ k * defaultBigDecPrecisionReuse))"
    by (auto simp: mult.commute)
  show "Exp2 n = Inl (Panic ''negative exponent is not supported'')"
    using assms(3) by (simp add: Exp2_def BigDec_IsNegative_def)
  have "0 < P" by simp
  with assms(4) have "0 < bdi b" by linarith
  then show "Exp2 b = Inl (Panic ''integer exponent is too large'')"
    using assms(4) by (simp add: Exp2_def BigDec_IsNegative_def BigDec_GT_def BigDec_Abs_def maxSupportedExponent_def big_simps)
qed

theorem Exp2_total_witness:
  "Exp2 (BigDec (10 * 10 ^ 36)) = Inr (BigDec (1024 * 10 ^ 36)) \<and> Exp2 (BigDec (- 1)) = Inl (Panic ''negative exponent is not supported'')"
  using Exp2_total [of "BigDec (10 * 10 ^ 36)" "BigDec (- 1)" "BigDec (513 * 10 ^ 36)"]
  by (simp add: bigdec_consts BigDec_IsInteger_def smod_nonneg)

text \<open>\<open>Power\<close> agrees with \<open>PowerInteger\<close> on an integral exponent up to 512, also for a base
  below one, and for any other exponent it is zero at the base zero, a panic below one, and
  \<open>Exp2\<close> of the exponent at the base two.\<close>

theorem BigDec_Power_cases:
  assumes "0 \<le> bdi d" "0 \<le> k" "k \<le> 512" "0 < bdi f" "bdi f < 512 * defaultBigDecPrecisionReuse" "\<not> BigDec_IsInteger f"
  shows "BigDec_Power d (BigDec (k * defaultBigDecPrecisionReuse)) = BigDec_PowerInteger d (nat k) \<and>
    (bdi d = 0 \<longrightarrow> BigDec_Power d f = Inr ZeroBigDec) \<and>
    (0 < bdi d \<longrightarrow> bdi d < defaultBigDecPrecisionReuse \<longrightarrow> BigDec_Power d f = Inl (Panic ''Power() is not supported for base < 1'')) \<and>
    BigDec_Power twoBigDec f = Exp2 f"
proof (intro conjI)
  have k: "\<not> k * P < 0" "k * P \<le> 512 * P" using assms by (simp_all add: not_less)
  moreover have "BigDec_IsInteger (integral k)" by (simp add: BigDec_IsInteger_iff)
  ultimately show "BigDec_Power d (BigDec (k * defaultBigDecPrecisionReuse)) = BigDec_PowerInteger d (nat k)"
    using assms(1-3) by (simp add: BigDec_Power_def BigDec_IsNegative_def BigDec_GT_def BigDec_Abs_def maxSupportedExponent_def
        big_simps truncated_uint64_integral)
  have "0 < P" by simp
  with assms show "bdi d = 0 \<longrightarrow> BigDec_Power d f = Inr ZeroBigDec"
    "0 < bdi d \<longrightarrow> bdi d < defaultBigDecPrecisionReuse \<longrightarrow> BigDec_Power d f = Inl (Panic ''Power() is not supported for base < 1'')"
    "BigDec_Power twoBigDec f = Exp2 f"
    by (simp_all add: BigDec_Power_def BigDec_IsNegative_def BigDec_GT_def BigDec_Abs_def maxSupportedExponent_def
        big_simps BigDec_IsZero_def BigDec_LT_def BigDec_Equal_def OneBigDec_def twoBigDec_def not_less)
qed

theorem BigDec_Power_cases_witness:
  "BigDec_Power (BigDec 5) (BigDec (2 * 10 ^ 36)) = BigDec_PowerInteger (BigDec 5) 2 \<and>
   BigDec_Power (BigDec 5) (BigDec 1) = Inl (Panic ''Power() is not supported for base < 1'') \<and>
   BigDec_Power twoBigDec (BigDec 1) = Exp2 (BigDec 1)"
proof -
  have n: "\<not> BigDec_IsInteger (BigDec 1)" by (simp add: BigDec_IsInteger_def smod_nonneg bigdec_consts)
  show ?thesis
    using BigDec_Power_cases [of "BigDec 5" 2, OF _ _ _ _ _ n] by (simp add: bigdec_consts)
qed

end
