(* ===== verification/BigDec_Sqrt.thy ===== *)
theory BigDec_Sqrt
  imports BigDec_Text
begin

text \<open>
  \<open>osmomath/sqrt.go\<close>: the square root rounded up, for \<open>BigDec\<close> and for the SDK's \<open>Dec\<close>. Of
  the SDK the latter uses \<open>IsNegative\<close>, a parameter here, and the integer behind a \<open>Dec\<close>.
\<close>

definition tenTo18 :: int where
  "tenTo18 = 10 ^ 18"

definition tenTo36 :: int where
  "tenTo36 = tenTo18 * tenTo18"

definition negative_sqrt :: go_err where
  "negative_sqrt = Err ''cannot take square root of negative number''"

definition MonotonicSqrtMut :: "(Dec \<Rightarrow> bool) \<Rightarrow> Dec \<Rightarrow> Dec res" where
  "MonotonicSqrtMut IsNegative d =
    (if IsNegative d then Inl negative_sqrt
     else bindE (big_Sqrt (deci d * tenTo18)) (\<lambda>r.
       let check = r * r; shiftedD = deci d * tenTo18 in
       Inr (Dec (if big_Cmp check shiftedD = -1 then r + 1 else r))))"

definition MonotonicSqrt :: "(Dec \<Rightarrow> bool) \<Rightarrow> Dec \<Rightarrow> Dec res" where
  "MonotonicSqrt IsNegative d = MonotonicSqrtMut IsNegative d"

definition MonotonicSqrtBigDecMut :: "BigDec \<Rightarrow> BigDec res" where
  "MonotonicSqrtBigDecMut d =
    (if BigDec_IsNegative d then Inl negative_sqrt
     else bindE (big_Sqrt (bdi d * tenTo36)) (\<lambda>r.
       let check = r * r; shiftedD = bdi d * tenTo36 in
       Inr (BigDec (if big_Cmp check shiftedD = -1 then r + 1 else r))))"

definition MonotonicSqrtBigDec :: "BigDec \<Rightarrow> BigDec res" where
  "MonotonicSqrtBigDec d = MonotonicSqrtBigDecMut (BigDec_Clone d)"

text \<open>An error becomes the value of a panic.\<close>

definition must :: "'a res \<Rightarrow> 'a res" where
  "must r = (case r of Inl (Err e) \<Rightarrow> Inl (Panic e) | _ \<Rightarrow> r)"

definition MustMonotonicSqrt :: "(Dec \<Rightarrow> bool) \<Rightarrow> Dec \<Rightarrow> Dec res" where
  "MustMonotonicSqrt IsNegative d = must (MonotonicSqrt IsNegative d)"

definition MustMonotonicSqrtBigDec :: "BigDec \<Rightarrow> BigDec res" where
  "MustMonotonicSqrtBigDec d = must (MonotonicSqrtBigDec d)"

section \<open>Lemmas\<close>

text \<open>The least integer whose square is not below \<open>n\<close>.\<close>

definition sqrt_up :: "int \<Rightarrow> int" where
  "sqrt_up n = (let r = int (isqrt (nat n)) in if r * r < n then r + 1 else r)"

lemma sqrt_up_spec:
  assumes "0 \<le> n"
  shows "0 \<le> sqrt_up n" "n \<le> sqrt_up n * sqrt_up n" "0 \<le> s \<Longrightarrow> n \<le> s * s \<Longrightarrow> sqrt_up n \<le> s"
proof -
  let ?r = "int (isqrt (nat n))"
  have b: "?r * ?r \<le> n" "n < (?r + 1) * (?r + 1)"
    using isqrt_bounds [of "nat n"] assms
    by (metis of_nat_le_iff of_nat_mult int_nat_eq, metis (no_types, opaque_lifting) of_nat_less_iff of_nat_mult int_nat_eq of_nat_Suc Suc_eq_plus1 add.commute)
  show "0 \<le> sqrt_up n" by (simp add: sqrt_up_def Let_def)
  show "n \<le> sqrt_up n * sqrt_up n" using b by (auto simp: sqrt_up_def Let_def)
  assume s: "0 \<le> s" "n \<le> s * s"
  have "?r < s" if "?r * ?r < n"
    using that s mult_mono' [of s ?r s ?r] by (metis not_less order_le_less_trans order_less_irrefl s(1))
  moreover have "?r \<le> s"
    using b(1) s mult_strict_mono' [of s ?r s ?r] by (metis not_less order_trans s(1) less_le_not_le)
  ultimately show "sqrt_up n \<le> s" by (auto simp: sqrt_up_def Let_def)
qed

lemma MonotonicSqrtBigDec_eq: "0 \<le> bdi d \<Longrightarrow> MonotonicSqrtBigDec d = Inr (BigDec (sqrt_up (bdi d * tenTo36)))"
  by (simp add: MonotonicSqrtBigDec_def MonotonicSqrtBigDecMut_def BigDec_IsNegative_def BigDec_Clone_def big_Sqrt_def
      sqrt_up_def Let_def tenTo36_def tenTo18_def)

lemma MonotonicSqrt_eq: "\<not> IsNegative d \<Longrightarrow> 0 \<le> deci d \<Longrightarrow> MonotonicSqrt IsNegative d = Inr (Dec (sqrt_up (deci d * tenTo18)))"
  by (simp add: MonotonicSqrt_def MonotonicSqrtMut_def big_Sqrt_def sqrt_up_def Let_def tenTo18_def)

lemma sqrt_up_mono: "0 \<le> m \<Longrightarrow> m \<le> n \<Longrightarrow> sqrt_up m \<le> sqrt_up n"
  using sqrt_up_spec(1,2) [of n] by (intro sqrt_up_spec(3)) auto

lemma sqrt_up_square: "0 \<le> k \<Longrightarrow> sqrt_up (k * k) = k"
  using sqrt_up_spec [of "k * k"] by (intro antisym sqrt_up_spec(3)) (auto intro: power2_le_imp_le simp: power2_eq_square)

lemma sqrt_up_real:
  assumes "0 \<le> m" "0 < p"
  shows "sqrt (real_of_int m / real_of_int p) \<le> real_of_int (sqrt_up (m * p)) / real_of_int p"
    and "real_of_int (sqrt_up (m * p)) / real_of_int p < sqrt (real_of_int m / real_of_int p) + 1 / real_of_int p"
proof -
  let ?r = "sqrt_up (m * p)"
  have mp: "0 \<le> m * p" using assms by simp
  have q: "sqrt (real_of_int m / real_of_int p) = sqrt (real_of_int (m * p)) / real_of_int p"
    using assms by (simp add: real_sqrt_divide real_sqrt_mult field_simps)
  have "real_of_int (m * p) \<le> real_of_int (?r * ?r)"
    using sqrt_up_spec(2) [OF mp] by (simp only: of_int_le_iff)
  then have "sqrt (real_of_int (m * p)) \<le> real_of_int ?r"
    using sqrt_up_spec(1) [OF mp] by (intro real_le_lsqrt) (simp_all add: power2_eq_square mp)
  then show "sqrt (real_of_int m / real_of_int p) \<le> real_of_int ?r / real_of_int p"
    unfolding q using assms by (intro divide_right_mono) simp_all
  have "real_of_int ?r - 1 < sqrt (real_of_int (m * p))"
  proof (cases "?r = 0")
    case True
    have "0 \<le> sqrt (real_of_int (m * p))" using mp by (simp del: of_int_mult)
    with True show ?thesis by linarith
  next
    case False
    with sqrt_up_spec(1) [OF mp] have "0 \<le> ?r - 1" by simp
    with sqrt_up_spec(3) [OF mp, of "?r - 1"] have "(?r - 1) * (?r - 1) < m * p" by fastforce
    then have "real_of_int ((?r - 1) * (?r - 1)) < real_of_int (m * p)" by (simp only: of_int_less_iff)
    then show ?thesis by (intro real_less_rsqrt) (simp add: power2_eq_square)
  qed
  then show "real_of_int ?r / real_of_int p < sqrt (real_of_int m / real_of_int p) + 1 / real_of_int p"
    unfolding q using assms by (simp add: field_simps)
qed

section \<open>Properties\<close>

text \<open>C13: The square root of a non-negative \<open>BigDec\<close> is the least representable number that is
  not below the real root: its square is at least the argument and it is less than one unit
  in the last place above the root. The function is monotone, exact on squares, and returns
  an error exactly on negative arguments.\<close>

theorem MonotonicSqrtBigDec_spec:
  assumes "0 \<le> bdi d" "bdi d \<le> bdi d'" "bdi e < 0" "0 \<le> k"
  shows "(\<exists>r r'. MonotonicSqrtBigDec d = Inr r \<and> MonotonicSqrtBigDec d' = Inr r' \<and> bdi r \<le> bdi r' \<and>
    sqrt (bd_val d) \<le> bd_val r \<and> bd_val r < sqrt (bd_val d) + ulp) \<and>
    MonotonicSqrtBigDec e = Inl negative_sqrt \<and>
    MustMonotonicSqrtBigDec e = Inl (Panic ''cannot take square root of negative number'') \<and>
    MonotonicSqrtBigDec (BigDec (k * k * tenTo36)) = Inr (BigDec (k * tenTo36))"
proof (intro conjI)
  have t: "0 < tenTo36" "real_of_int tenTo36 = 10 ^ 36" by (simp_all add: tenTo36_def tenTo18_def)
  have "sqrt (bd_val d) \<le> bd_val (BigDec (sqrt_up (bdi d * tenTo36)))"
    "bd_val (BigDec (sqrt_up (bdi d * tenTo36))) < sqrt (bd_val d) + ulp"
    using sqrt_up_real [OF assms(1) t(1)] unfolding t(2) by (simp_all add: bd_val_def ulp_def)
  moreover have "sqrt_up (bdi d * tenTo36) \<le> sqrt_up (bdi d' * tenTo36)"
    using assms t by (intro sqrt_up_mono mult_right_mono) simp_all
  ultimately show "\<exists>r r'. MonotonicSqrtBigDec d = Inr r \<and> MonotonicSqrtBigDec d' = Inr r' \<and> bdi r \<le> bdi r' \<and>
    sqrt (bd_val d) \<le> bd_val r \<and> bd_val r < sqrt (bd_val d) + ulp"
    using assms by (simp add: MonotonicSqrtBigDec_eq)
  show e: "MonotonicSqrtBigDec e = Inl negative_sqrt"
    using assms by (simp add: MonotonicSqrtBigDec_def MonotonicSqrtBigDecMut_def BigDec_Clone_def BigDec_IsNegative_def)
  then show "MustMonotonicSqrtBigDec e = Inl (Panic ''cannot take square root of negative number'')"
    by (simp add: MustMonotonicSqrtBigDec_def must_def negative_sqrt_def)
  have "k * k * tenTo36 * tenTo36 = (k * tenTo36) * (k * tenTo36)" by (simp add: ac_simps)
  then show "MonotonicSqrtBigDec (BigDec (k * k * tenTo36)) = Inr (BigDec (k * tenTo36))"
    using assms(4) t(1) by (simp only: MonotonicSqrtBigDec_eq BigDec.sel sqrt_up_square mult_nonneg_nonneg less_imp_le)
qed

theorem MonotonicSqrtBigDec_spec_witness:
  "MonotonicSqrtBigDec (BigDec (9 * 10 ^ 36)) = Inr (BigDec (3 * 10 ^ 36)) \<and> MonotonicSqrtBigDec (BigDec (- 1)) = Inl negative_sqrt"
  using MonotonicSqrtBigDec_spec [of "BigDec 0" "BigDec 1" "BigDec (- 1)" 3] by (simp add: tenTo36_def tenTo18_def)

text \<open>The square root of a non-negative \<open>Dec\<close> is likewise the least \<open>Dec\<close> not below the
  real root, monotone, with an error exactly on negative arguments, for an SDK whose
  \<open>IsNegative\<close> tells the sign of the integer behind a \<open>Dec\<close>.\<close>

theorem MonotonicSqrt_spec:
  assumes "\<And>x. IsNegative x \<longleftrightarrow> deci x < 0" "0 \<le> deci d" "deci d \<le> deci d'" "deci e < 0"
  shows "(\<exists>r r'. MonotonicSqrt IsNegative d = Inr r \<and> MonotonicSqrt IsNegative d' = Inr r' \<and> deci r \<le> deci r' \<and>
    sqrt (dec_val d) \<le> dec_val r \<and> dec_val r < sqrt (dec_val d) + 1 / 10 ^ 18) \<and>
    MonotonicSqrt IsNegative e = Inl negative_sqrt"
proof (intro conjI)
  have t: "0 < tenTo18" "real_of_int tenTo18 = 10 ^ 18" by (simp_all add: tenTo18_def)
  have "sqrt (dec_val d) \<le> dec_val (Dec (sqrt_up (deci d * tenTo18)))"
    "dec_val (Dec (sqrt_up (deci d * tenTo18))) < sqrt (dec_val d) + 1 / 10 ^ 18"
    using sqrt_up_real [OF assms(2) t(1)] unfolding t(2) by (simp_all add: dec_val_def)
  moreover have "sqrt_up (deci d * tenTo18) \<le> sqrt_up (deci d' * tenTo18)"
    using assms t by (intro sqrt_up_mono mult_right_mono) simp_all
  ultimately show "\<exists>r r'. MonotonicSqrt IsNegative d = Inr r \<and> MonotonicSqrt IsNegative d' = Inr r' \<and> deci r \<le> deci r' \<and>
    sqrt (dec_val d) \<le> dec_val r \<and> dec_val r < sqrt (dec_val d) + 1 / 10 ^ 18"
    using assms by (simp add: MonotonicSqrt_eq)
  show "MonotonicSqrt IsNegative e = Inl negative_sqrt"
    using assms by (simp add: MonotonicSqrt_def MonotonicSqrtMut_def)
qed

theorem MonotonicSqrt_spec_witness:
  "\<exists>r r'. MonotonicSqrt (\<lambda>x. deci x < 0) (Dec 2) = Inr r \<and> MonotonicSqrt (\<lambda>x. deci x < 0) (Dec 3) = Inr r' \<and> deci r \<le> deci r' \<and>
    sqrt (dec_val (Dec 2)) \<le> dec_val r \<and> dec_val r < sqrt (dec_val (Dec 2)) + 1 / 10 ^ 18"
  using MonotonicSqrt_spec [of "\<lambda>x. deci x < 0" "Dec 2" "Dec 3" "Dec (- 1)"] by simp

end
