(* ===== verification/SDK_Types.thy ===== *)
theory SDK_Types
  imports BigDec_Text
begin

text \<open>
  What the code calls of the Cosmos SDK's \<open>Int\<close> and \<open>LegacyDec\<close>, as a record of parameters: the
  SDK is not part of the repository. An \<open>Int\<close> is seen as the integer behind it, a \<open>LegacyDec\<close>
  as \<open>Dec\<close>, its integer mantissa with 18 decimals. \<open>sdk_laws\<close> states the documented behaviour the
  theorems rely on: comparisons read the values, and an arithmetic operation that does not
  panic returns the exact or the rounded result its documentation names.
\<close>

record sdk =
  Int_Add :: "int \<Rightarrow> int \<Rightarrow> int res"
  Int_Mul :: "int \<Rightarrow> int \<Rightarrow> int res"
  Int_QuoRaw :: "int \<Rightarrow> int \<Rightarrow> int res"
  Int_GT :: "int \<Rightarrow> int \<Rightarrow> bool"
  Int_LT :: "int \<Rightarrow> int \<Rightarrow> bool"
  Int_Equal :: "int \<Rightarrow> int \<Rightarrow> bool"
  Int_IsZero :: "int \<Rightarrow> bool"
  Int_Abs :: "int \<Rightarrow> int"
  Int_Min :: "int \<Rightarrow> int \<Rightarrow> int"
  Int_ToLegacyDec :: "int \<Rightarrow> Dec"
  Dec_IsZero :: "Dec \<Rightarrow> bool"
  Dec_IsNegative :: "Dec \<Rightarrow> bool"
  Dec_GT :: "Dec \<Rightarrow> Dec \<Rightarrow> bool"
  Dec_LT :: "Dec \<Rightarrow> Dec \<Rightarrow> bool"
  Dec_Equal :: "Dec \<Rightarrow> Dec \<Rightarrow> bool"
  Dec_Min :: "Dec \<Rightarrow> Dec \<Rightarrow> Dec"
  Dec_Abs :: "Dec \<Rightarrow> Dec"
  Dec_Add :: "Dec \<Rightarrow> Dec \<Rightarrow> Dec res"
  Dec_Sub :: "Dec \<Rightarrow> Dec \<Rightarrow> Dec res"
  Dec_Mul :: "Dec \<Rightarrow> Dec \<Rightarrow> Dec res"
  Dec_MulRoundUp :: "Dec \<Rightarrow> Dec \<Rightarrow> Dec res"
  Dec_MulTruncate :: "Dec \<Rightarrow> Dec \<Rightarrow> Dec res"
  Dec_Quo :: "Dec \<Rightarrow> Dec \<Rightarrow> Dec res"
  Dec_QuoRoundUp :: "Dec \<Rightarrow> Dec \<Rightarrow> Dec res"
  Dec_QuoTruncate :: "Dec \<Rightarrow> Dec \<Rightarrow> Dec res"
  Dec_MulInt :: "Dec \<Rightarrow> int \<Rightarrow> Dec res"
  Dec_RoundInt :: "Dec \<Rightarrow> int"
  Dec_TruncateInt :: "Dec \<Rightarrow> int"
  Int_Sub :: "int \<Rightarrow> int \<Rightarrow> int res"
  Int_Quo :: "int \<Rightarrow> int \<Rightarrow> int res"
  Int_IsNegative :: "int \<Rightarrow> bool"
  Int_IsPositive :: "int \<Rightarrow> bool"
  Int_GTE :: "int \<Rightarrow> int \<Rightarrow> bool"
  Int_LTE :: "int \<Rightarrow> int \<Rightarrow> bool"
  Dec_Neg :: "Dec \<Rightarrow> Dec"
  Dec_IsPositive :: "Dec \<Rightarrow> bool"
  Dec_GTE :: "Dec \<Rightarrow> Dec \<Rightarrow> bool"
  Dec_LTE :: "Dec \<Rightarrow> Dec \<Rightarrow> bool"
  Dec_QuoInt :: "Dec \<Rightarrow> int \<Rightarrow> Dec res"
  Dec_Ceil :: "Dec \<Rightarrow> Dec res"

text \<open>\<open>1\<close> as a \<open>Dec\<close>.\<close>

abbreviation dec_one :: int where
  "dec_one \<equiv> precisionReuseSDKDec"

definition sdk_int_laws :: "sdk \<Rightarrow> bool" where
  "sdk_int_laws S \<longleftrightarrow>
    (\<forall>a b r. Int_Add S a b = Inr r \<longrightarrow> r = a + b) \<and>
    (\<forall>a b r. Int_Mul S a b = Inr r \<longrightarrow> r = a * b) \<and>
    (\<forall>a b r. Int_QuoRaw S a b = Inr r \<longrightarrow> r = a sdiv b) \<and>
    (\<forall>a b. Int_GT S a b \<longleftrightarrow> a > b) \<and> (\<forall>a b. Int_LT S a b \<longleftrightarrow> a < b) \<and> (\<forall>a b. Int_Equal S a b \<longleftrightarrow> a = b) \<and>
    (\<forall>a. Int_IsZero S a \<longleftrightarrow> a = 0) \<and> (\<forall>a. Int_Abs S a = \<bar>a\<bar>) \<and> (\<forall>a b. Int_Min S a b = min a b) \<and>
    (\<forall>a. Int_ToLegacyDec S a = Dec (a * dec_one)) \<and>
    (\<forall>a b r. Int_Sub S a b = Inr r \<longrightarrow> r = a - b) \<and>
    (\<forall>a b r. Int_Quo S a b = Inr r \<longrightarrow> r = a sdiv b) \<and>
    (\<forall>a. Int_IsNegative S a \<longleftrightarrow> a < 0) \<and> (\<forall>a. Int_IsPositive S a \<longleftrightarrow> a > 0) \<and>
    (\<forall>a b. Int_GTE S a b \<longleftrightarrow> a \<ge> b) \<and> (\<forall>a b. Int_LTE S a b \<longleftrightarrow> a \<le> b)"

definition sdk_cmp_laws :: "sdk \<Rightarrow> bool" where
  "sdk_cmp_laws S \<longleftrightarrow>
    (\<forall>d. Dec_IsZero S d \<longleftrightarrow> deci d = 0) \<and> (\<forall>d. Dec_IsNegative S d \<longleftrightarrow> deci d < 0) \<and>
    (\<forall>d e. Dec_GT S d e \<longleftrightarrow> deci d > deci e) \<and> (\<forall>d e. Dec_LT S d e \<longleftrightarrow> deci d < deci e) \<and>
    (\<forall>d e. Dec_Equal S d e \<longleftrightarrow> d = e) \<and> (\<forall>d e. Dec_Min S d e = Dec (min (deci d) (deci e))) \<and> (\<forall>d. Dec_Abs S d = Dec \<bar>deci d\<bar>) \<and>
    (\<forall>d. Dec_Neg S d = Dec (- deci d)) \<and> (\<forall>d. Dec_IsPositive S d \<longleftrightarrow> deci d > 0) \<and>
    (\<forall>d e. Dec_GTE S d e \<longleftrightarrow> deci d \<ge> deci e) \<and> (\<forall>d e. Dec_LTE S d e \<longleftrightarrow> deci d \<le> deci e)"

definition sdk_dec_laws :: "sdk \<Rightarrow> bool" where
  "sdk_dec_laws S \<longleftrightarrow>
    (\<forall>d e r. Dec_Add S d e = Inr r \<longrightarrow> deci r = deci d + deci e) \<and>
    (\<forall>d e r. Dec_Sub S d e = Inr r \<longrightarrow> deci r = deci d - deci e) \<and>
    (\<forall>d e r. Dec_MulTruncate S d e = Inr r \<longrightarrow> deci r = deci d * deci e sdiv dec_one) \<and>
    (\<forall>d e r. Dec_MulRoundUp S d e = Inr r \<longrightarrow> deci r = ceil_div (deci d * deci e) dec_one) \<and>
    (\<forall>d i r. Dec_MulInt S d i = Inr r \<longrightarrow> deci r = deci d * i) \<and>
    (\<forall>d. Dec_TruncateInt S d = deci d sdiv dec_one) \<and>
    (\<forall>d i r. Dec_QuoInt S d i = Inr r \<longrightarrow> deci r = deci d sdiv i) \<and>
    (\<forall>d r. Dec_Ceil S d = Inr r \<longrightarrow> deci r = ceil_div (deci d) dec_one * dec_one)"

definition sdk_laws :: "sdk \<Rightarrow> bool" where
  "sdk_laws S \<longleftrightarrow> sdk_int_laws S \<and> sdk_cmp_laws S \<and> sdk_dec_laws S"

text \<open>An instance that computes, for concrete examples: exact integers, no overflow.\<close>

definition plain_sdk :: sdk where
  "plain_sdk = \<lparr>
    Int_Add = (\<lambda>a b. Inr (a + b)), Int_Mul = (\<lambda>a b. Inr (a * b)), Int_QuoRaw = big_Quo,
    Int_GT = (\<lambda>a b. a > b), Int_LT = (\<lambda>a b. a < b), Int_Equal = (\<lambda>a b. a = b), Int_IsZero = (\<lambda>a. a = 0),
    Int_Abs = (\<lambda>a. \<bar>a\<bar>), Int_Min = min,
    Int_ToLegacyDec = (\<lambda>a. Dec (a * dec_one)),
    Dec_IsZero = (\<lambda>d. deci d = 0), Dec_IsNegative = (\<lambda>d. deci d < 0), 
    Dec_GT = (\<lambda>d e. deci d > deci e), Dec_LT = (\<lambda>d e. deci d < deci e), Dec_Equal = (\<lambda>d e. d = e),
    Dec_Min = (\<lambda>d e. Dec (min (deci d) (deci e))),
    Dec_Abs = (\<lambda>d. Dec \<bar>deci d\<bar>),
    Dec_Add = (\<lambda>d e. Inr (Dec (deci d + deci e))), Dec_Sub = (\<lambda>d e. Inr (Dec (deci d - deci e))),
    Dec_Mul = (\<lambda>d e. Inr (Dec (chopPrecisionAndRoundSdkDec (deci d * deci e)))),
    Dec_MulRoundUp = (\<lambda>d e. Inr (Dec (ceil_div (deci d * deci e) dec_one))),
    Dec_MulTruncate = (\<lambda>d e. Inr (Dec (deci d * deci e sdiv dec_one))),
    Dec_Quo = (\<lambda>d e. bindE (big_Quo (deci d * dec_one * dec_one) (deci e)) (\<lambda>q. Inr (Dec (chopPrecisionAndRoundSdkDec q)))),
    Dec_QuoRoundUp = (\<lambda>d e. if deci e = 0 then division_by_zero else Inr (Dec (ceil_div (deci d * dec_one) (deci e)))),
    Dec_QuoTruncate = (\<lambda>d e. if deci e = 0 then division_by_zero else Inr (Dec (deci d * dec_one div deci e))),
    Dec_MulInt = (\<lambda>d i. Inr (Dec (deci d * i))),
    Dec_RoundInt = (\<lambda>d. chopPrecisionAndRoundSdkDec (deci d)),
    Dec_TruncateInt = (\<lambda>d. deci d sdiv dec_one),
    Int_Sub = (\<lambda>a b. Inr (a - b)), Int_Quo = big_Quo, Int_IsNegative = (\<lambda>a. a < 0), Int_IsPositive = (\<lambda>a. a > 0),
    Int_GTE = (\<lambda>a b. a \<ge> b), Int_LTE = (\<lambda>a b. a \<le> b),
    Dec_Neg = (\<lambda>d. Dec (- deci d)), Dec_IsPositive = (\<lambda>d. deci d > 0),
    Dec_GTE = (\<lambda>d e. deci d \<ge> deci e), Dec_LTE = (\<lambda>d e. deci d \<le> deci e),
    Dec_QuoInt = (\<lambda>d i. bindE (big_Quo (deci d) i) (\<lambda>q. Inr (Dec q))),
    Dec_Ceil = (\<lambda>d. Inr (Dec (ceil_div (deci d) dec_one * dec_one)))\<rparr>"

lemma plain_sdk_laws: "sdk_laws plain_sdk"
  by (auto simp: sdk_laws_def sdk_int_laws_def sdk_cmp_laws_def sdk_dec_laws_def plain_sdk_def big_Quo_def split: if_splits)

end
