(* ===== verification/Tolerance.thy ===== *)
theory Tolerance
  imports SDK_Types
begin

text \<open>
  \<open>osmomath/binary_search.go\<close> and \<open>osmomath/rounding_direction.go\<close>: comparison up to an error
  tolerance, the binary searches that stop at it, and the division of an \<open>Int\<close> by a \<open>uint64\<close> in
  a chosen rounding direction. A tolerance that is nil is \<open>None\<close>.
\<close>

section \<open>Definitions\<close>

type_synonym RoundingDirection = int

definition RoundUnconstrained :: RoundingDirection where
  "RoundUnconstrained = 0"

definition RoundUp :: RoundingDirection where
  "RoundUp = 1"

definition RoundDown :: RoundingDirection where
  "RoundDown = 2"

definition RoundBankers :: RoundingDirection where
  "RoundBankers = 3"

record ErrTolerance =
  AdditiveTolerance :: "Dec option"
  MultiplicativeTolerance :: "Dec option"
  RoundingDir :: RoundingDirection

subsection \<open>Comparisons\<close>

definition ErrTolerance_Compare :: "sdk \<Rightarrow> ErrTolerance \<Rightarrow> int \<Rightarrow> int \<Rightarrow> int res" where
  "ErrTolerance_Compare S e expected actual =
    bindE (Dec_Sub S (Int_ToLegacyDec S expected) (Int_ToLegacyDec S actual)) (\<lambda>diff0.
    let diff = Dec_Abs S diff0; comparisonSign = (if Int_GT S expected actual then 1 else - 1) in
    if RoundingDir e = RoundDown \<and> Int_LT S expected actual then Inr (- 1)
    else if RoundingDir e = RoundUp \<and> Int_GT S expected actual then Inr 1
    else if (case AdditiveTolerance e of None \<Rightarrow> False | Some t \<Rightarrow> Dec_IsZero S t \<and> Int_Equal S expected actual) then Inr 0
    else if (case AdditiveTolerance e of None \<Rightarrow> False | Some t \<Rightarrow> Dec_GT S diff t) then Inr comparisonSign
    else (case MultiplicativeTolerance e of
        None \<Rightarrow> Inr 0
      | Some m \<Rightarrow>
          if Dec_IsZero S m then Inr 0
          else let minValue = Int_Min S (Int_Abs S expected) (Int_Abs S actual) in
            if Int_IsZero S minValue then Inr comparisonSign
            else bindE (Dec_Quo S diff (Int_ToLegacyDec S minValue)) (\<lambda>errTerm.
              Inr (if Dec_GT S errTerm m then comparisonSign else 0))))"

definition ErrTolerance_CompareBigDec :: "sdk \<Rightarrow> ErrTolerance \<Rightarrow> BigDec \<Rightarrow> BigDec \<Rightarrow> int res" where
  "ErrTolerance_CompareBigDec S e expected actual =
    (if RoundingDir e = RoundDown \<and> BigDec_LT expected actual then Inr (- 1)
     else if RoundingDir e = RoundUp \<and> BigDec_GT expected actual then Inr 1
     else bindE (BigDec_Sub expected actual) (\<lambda>diff0.
       let diff = BigDec_Abs diff0;
           comparisonSign = (if BigDec_GT expected actual then 1 else if BigDec_LT expected actual then - 1 else 0) in
       if (case AdditiveTolerance e of None \<Rightarrow> False | Some t \<Rightarrow> Dec_IsZero S t \<and> BigDec_Equal expected actual) then Inr 0
       else
         bindE (case AdditiveTolerance e of None \<Rightarrow> Inr False
                | Some t \<Rightarrow> bindE (BigDecFromDec t) (\<lambda>bt. Inr (BigDec_GT diff bt))) (\<lambda>beyond.
         if beyond then Inr comparisonSign
         else (case MultiplicativeTolerance e of
             None \<Rightarrow> Inr 0
           | Some m \<Rightarrow>
               if Dec_IsZero S m then Inr 0
               else let minValue = MinBigDec (BigDec_Abs expected) (BigDec_Abs actual) in
                 if BigDec_IsZero minValue then Inr comparisonSign
                 else bindE (BigDec_Quo diff minValue) (\<lambda>errTerm.
                      bindE (BigDecFromDec m) (\<lambda>bm.
                      Inr (if BigDec_GT errTerm bm then comparisonSign else 0)))))))"

definition ErrTolerance_CompareDec :: "sdk \<Rightarrow> ErrTolerance \<Rightarrow> Dec \<Rightarrow> Dec \<Rightarrow> int res" where
  "ErrTolerance_CompareDec S e expected actual =
    (if RoundingDir e = RoundDown \<and> Dec_LT S expected actual then Inr (- 1)
     else if RoundingDir e = RoundUp \<and> Dec_GT S expected actual then Inr 1
     else bindE (Dec_Sub S expected actual) (\<lambda>diff0.
       let diff = Dec_Abs S diff0;
           comparisonSign = (if Dec_GT S expected actual then 1 else if Dec_LT S expected actual then - 1 else 0) in
       if (case AdditiveTolerance e of None \<Rightarrow> False
           | Some t \<Rightarrow> Dec_IsZero S t \<and> Dec_Equal S expected actual) then Inr 0
       else if (case AdditiveTolerance e of None \<Rightarrow> False | Some t \<Rightarrow> Dec_GT S diff t) then Inr comparisonSign
       else (case MultiplicativeTolerance e of
           None \<Rightarrow> Inr 0
         | Some m \<Rightarrow>
             if Dec_IsZero S m then Inr 0
             else let minValue = Dec_Min S (Dec_Abs S expected) (Dec_Abs S actual) in
               if Dec_IsZero S minValue then Inr comparisonSign
               else bindE (Dec_Quo S diff minValue) (\<lambda>errTerm.
                 Inr (if Dec_GT S errTerm m then comparisonSign else 0)))))"

text \<open>A coin is its denomination and amount; \<open>AmountOf\<close> is the SDK's lookup in a list of coins.\<close>

type_synonym coin = "string \<times> int"

fun EqualCoins_loop :: "sdk \<Rightarrow> (coin list \<Rightarrow> string \<Rightarrow> int) \<Rightarrow> ErrTolerance \<Rightarrow> coin list \<Rightarrow> coin list \<Rightarrow> bool res" where
  "EqualCoins_loop S AmountOf e [] actual = Inr True"
| "EqualCoins_loop S AmountOf e ((denom, amount) # cs) actual =
    bindE (ErrTolerance_Compare S e amount (AmountOf actual denom)) (\<lambda>c.
    if c \<noteq> 0 then Inr False else EqualCoins_loop S AmountOf e cs actual)"

definition ErrTolerance_EqualCoins :: "sdk \<Rightarrow> (coin list \<Rightarrow> string \<Rightarrow> int) \<Rightarrow> ErrTolerance \<Rightarrow> coin list \<Rightarrow> coin list \<Rightarrow> bool res" where
  "ErrTolerance_EqualCoins S AmountOf e expectedCoins actualCoins =
    (if length expectedCoins < length actualCoins then Inr False
     else EqualCoins_loop S AmountOf e expectedCoins actualCoins)"

subsection \<open>Binary search\<close>

definition no_convergence :: go_err where
  "no_convergence = Err ''hit maximum iterations, did not converge fast enough''"

text \<open>The first argument counts the iterations that are left.\<close>

primrec BinarySearch_loop :: "nat \<Rightarrow> sdk \<Rightarrow> (int \<Rightarrow> int res) \<Rightarrow> int \<Rightarrow> int \<Rightarrow> int \<Rightarrow> ErrTolerance \<Rightarrow> int res" where
  "BinarySearch_loop 0 S f lowerbound upperbound targetOutput errTolerance = Inl no_convergence"
| "BinarySearch_loop (Suc n) S f lowerbound upperbound targetOutput errTolerance =
    bindE (Int_Add S lowerbound upperbound) (\<lambda>sum.
    bindE (Int_QuoRaw S sum 2) (\<lambda>curEstimate.
    bindE (f curEstimate) (\<lambda>curOutput.
    bindE (ErrTolerance_Compare S errTolerance targetOutput curOutput) (\<lambda>compRes.
    if compRes < 0 then BinarySearch_loop n S f lowerbound curEstimate targetOutput errTolerance
    else if compRes > 0 then BinarySearch_loop n S f curEstimate upperbound targetOutput errTolerance
    else Inr curEstimate))))"

definition BinarySearch :: "sdk \<Rightarrow> (int \<Rightarrow> int res) \<Rightarrow> int \<Rightarrow> int \<Rightarrow> int \<Rightarrow> ErrTolerance \<Rightarrow> int \<Rightarrow> int res" where
  "BinarySearch S f lowerbound upperbound targetOutput errTolerance maxIterations =
    BinarySearch_loop (nat maxIterations) S f lowerbound upperbound targetOutput errTolerance"

primrec BinarySearchBigDec_loop :: "nat \<Rightarrow> sdk \<Rightarrow> (BigDec \<Rightarrow> BigDec res) \<Rightarrow> BigDec \<Rightarrow> BigDec \<Rightarrow> BigDec \<Rightarrow> ErrTolerance \<Rightarrow> BigDec res" where
  "BinarySearchBigDec_loop 0 S f lowerbound upperbound targetOutput errTolerance = Inl no_convergence"
| "BinarySearchBigDec_loop (Suc n) S f lowerbound upperbound targetOutput errTolerance =
    bindE (BigDec_Add lowerbound upperbound) (\<lambda>sum.
    let curEstimate = BigDec (big_Rsh (bdi sum) 1) in
    bindE (f curEstimate) (\<lambda>curOutput.
    bindE (ErrTolerance_CompareBigDec S errTolerance targetOutput curOutput) (\<lambda>compRes.
    if compRes < 0 then BinarySearchBigDec_loop n S f lowerbound curEstimate targetOutput errTolerance
    else if compRes > 0 then BinarySearchBigDec_loop n S f curEstimate upperbound targetOutput errTolerance
    else Inr curEstimate)))"

definition BinarySearchBigDec :: "sdk \<Rightarrow> (BigDec \<Rightarrow> BigDec res) \<Rightarrow> BigDec \<Rightarrow> BigDec \<Rightarrow> BigDec \<Rightarrow> ErrTolerance \<Rightarrow> int \<Rightarrow> BigDec res" where
  "BinarySearchBigDec S f lowerbound upperbound targetOutput errTolerance maxIterations =
    BinarySearchBigDec_loop (nat maxIterations) S f lowerbound upperbound targetOutput errTolerance"

subsection \<open>Division by a \<open>uint64\<close>\<close>

definition DivIntByU64ToBigDec :: "sdk \<Rightarrow> int \<Rightarrow> nat \<Rightarrow> RoundingDirection \<Rightarrow> BigDec res" where
  "DivIntByU64ToBigDec S i u dir =
    (if u = 0 then Inl (Err ''div by zero'')
     else bindE (BigDecFromDecMut (Int_ToLegacyDec S i)) (\<lambda>d.
       if dir = RoundUp then bindE (NewBigDec (int64 (int u))) (BigDec_QuoRoundUp d)
       else if dir = RoundDown then BigDec_QuoInt64 d (int64 (int u))
       else if dir = RoundBankers then bindE (NewBigDec (int64 (int u))) (BigDec_Quo d)
       else Inl (Err ''invalid rounding mode'')))"

fun DivCoinAmtsByU64ToBigDec :: "sdk \<Rightarrow> coin list \<Rightarrow> nat list \<Rightarrow> RoundingDirection \<Rightarrow> BigDec list res" where
  "DivCoinAmtsByU64ToBigDec S [] scales dir = Inr []"
| "DivCoinAmtsByU64ToBigDec S (c # cs) [] dir = Inl (Panic ''index out of range'')"
| "DivCoinAmtsByU64ToBigDec S (c # cs) (u # us) dir =
    bindE (DivIntByU64ToBigDec S (snd c) u dir) (\<lambda>r.
    bindE (DivCoinAmtsByU64ToBigDec S cs us dir) (\<lambda>rs. Inr (r # rs)))"

section \<open>Comparison\<close>

lemma bd_val_diff: "\<bar>bd_val x - bd_val a\<bar> = real_of_int \<bar>bdi x - bdi a\<bar> * ulp"
proof -
  have "bd_val x - bd_val a = real_of_int (bdi x - bdi a) * ulp" by (simp add: bd_val_def algebra_simps)
  then show ?thesis by (simp add: abs_mult)
qed

lemma dec_val_scaled: "dec_val t = real_of_int (deci t * bigDecDecPrecisionFactorDiff) * ulp"
  by (simp add: dec_val_def ulp_def bigdec_consts)

lemma abs_diff_le_dec_val: "\<bar>bd_val x - bd_val a\<bar> \<le> dec_val t \<longleftrightarrow> \<bar>bdi x - bdi a\<bar> \<le> deci t * bigDecDecPrecisionFactorDiff"
  unfolding bd_val_diff dec_val_scaled ulp_times_ulp of_int_le_iff ..

lemma bd_val_Abs: "bd_val (BigDec_Abs d) = \<bar>bd_val d\<bar>"
  by (simp add: bd_val_def BigDec_Abs_def abs_mult)

lemma bd_val_MinBigDec: "bd_val (MinBigDec d e) = min (bd_val d) (bd_val e)"
  using bd_val_mono [of d e] by (auto simp: MinBigDec_def BigDec_LT_def big_simps min_def)

text \<open>A relative error that passes the check is within the tolerance and one unit in the last place.\<close>

lemma relative_error:
  assumes "BigDec_Quo diff m = Inr q" "bdi q \<le> deci t * bigDecDecPrecisionFactorDiff" "0 < bdi m"
  shows "bd_val diff \<le> (dec_val t + ulp) * bd_val m"
proof -
  have "bd_val diff / bd_val m < bd_val q + (ulp / 2 + ulp * ulp)" using Quo_error [OF assms(1)] by linarith
  moreover have "bd_val q \<le> dec_val t"
    unfolding dec_val_scaled bd_val_def ulp_times_ulp of_int_le_iff by (rule assms(2))
  moreover have "ulp / 2 + ulp * ulp \<le> ulp" by (simp add: ulp_def)
  ultimately have "bd_val diff / bd_val m \<le> dec_val t + ulp" by linarith
  moreover have "0 < bd_val m" using assms(3) bd_val_sgn(2) by blast
  ultimately show ?thesis by (simp add: pos_divide_le_eq)
qed

text \<open>The comparison of two \<open>BigDec\<close> values up to a tolerance tells the truth: 1 and -1 are
  returned only for an expected value above and below the actual one; 0 only when the
  difference respects the rounding direction, the additive tolerance, and the multiplicative
  tolerance relative to the smaller magnitude up to one unit in the last place.\<close>

theorem CompareBigDec_sound:
  assumes "sdk_cmp_laws S" "ErrTolerance_CompareBigDec S e x a = Inr c"
  shows "c \<in> {- 1, 0, 1} \<and>
    (c = 1 \<longrightarrow> bd_val a < bd_val x) \<and>
    (c = - 1 \<longrightarrow> bd_val x < bd_val a) \<and>
    (c = 0 \<longrightarrow> RoundingDir e = RoundDown \<longrightarrow> bd_val a \<le> bd_val x) \<and>
    (c = 0 \<longrightarrow> RoundingDir e = RoundUp \<longrightarrow> bd_val x \<le> bd_val a) \<and>
    (c = 0 \<longrightarrow> AdditiveTolerance e = Some t \<longrightarrow> x = a \<or> \<bar>bd_val x - bd_val a\<bar> \<le> dec_val t) \<and>
    (c = 0 \<longrightarrow> MultiplicativeTolerance e = Some m \<longrightarrow> deci m \<noteq> 0 \<longrightarrow>
      x = a \<or> \<bar>bd_val x - bd_val a\<bar> \<le> (dec_val m + ulp) * min \<bar>bd_val x\<bar> \<bar>bd_val a\<bar>)"
proof (intro conjI)
  have z: "Dec_IsZero S d \<longleftrightarrow> deci d = 0" for d using assms(1) by (simp add: sdk_cmp_laws_def)
  note cmp = BigDec_LT_def BigDec_GT_def BigDec_Equal_def big_simps
  note defs = assms(2) [unfolded ErrTolerance_CompareBigDec_def z cmp]
  show "c \<in> {- 1, 0, 1}" "c = 1 \<longrightarrow> bd_val a < bd_val x" "c = - 1 \<longrightarrow> bd_val x < bd_val a"
    "c = 0 \<longrightarrow> RoundingDir e = RoundDown \<longrightarrow> bd_val a \<le> bd_val x"
    "c = 0 \<longrightarrow> RoundingDir e = RoundUp \<longrightarrow> bd_val x \<le> bd_val a"
    using defs unfolding bd_val_mono
    by (auto simp: Let_def RoundDown_def RoundUp_def split: if_splits option.splits)
  show "c = 0 \<longrightarrow> AdditiveTolerance e = Some t \<longrightarrow> x = a \<or> \<bar>bd_val x - bd_val a\<bar> \<le> dec_val t"
    using defs unfolding abs_diff_le_dec_val
    by (auto simp: Let_def BigDec_Sub_def BigDec_SubMut_def BigDec_Clone_def BigDec_Abs_def BigDec.expand split: if_splits option.splits)
  have "x = a \<or> \<bar>bd_val x - bd_val a\<bar> \<le> (dec_val m + ulp) * min \<bar>bd_val x\<bar> \<bar>bd_val a\<bar>"
    if h: "c = 0" "MultiplicativeTolerance e = Some m" "deci m \<noteq> 0"
  proof (cases "x = a")
    case False
    let ?d = "BigDec_Abs (BigDec (bdi x - bdi a))" and ?min = "MinBigDec (BigDec_Abs x) (BigDec_Abs a)"
    from False have ne: "bdi x \<noteq> bdi a" by (cases x; cases a) simp
    with defs h obtain q where q: "BigDec_Quo ?d ?min = Inr q" "bdi q \<le> deci m * bigDecDecPrecisionFactorDiff" "bdi ?min \<noteq> 0"
      by (auto simp: Let_def BigDec_Sub_def BigDec_SubMut_def BigDec_Clone_def BigDec_IsZero_def split: if_splits option.splits)
    have "0 \<le> bd_val ?min" by (simp add: bd_val_MinBigDec bd_val_Abs)
    with q(3) have "0 < bdi ?min" unfolding bd_val_sgn(1) by simp
    from relative_error [OF q(1,2) this] have "bd_val ?d \<le> (dec_val m + ulp) * bd_val ?min" .
    moreover have "bd_val ?d = \<bar>bd_val x - bd_val a\<bar>"
      unfolding bd_val_diff by (simp add: bd_val_def BigDec_Abs_def)
    ultimately show ?thesis by (simp add: bd_val_MinBigDec bd_val_Abs)
  qed simp
  then show "c = 0 \<longrightarrow> MultiplicativeTolerance e = Some m \<longrightarrow> deci m \<noteq> 0 \<longrightarrow>
      x = a \<or> \<bar>bd_val x - bd_val a\<bar> \<le> (dec_val m + ulp) * min \<bar>bd_val x\<bar> \<bar>bd_val a\<bar>" by blast
qed

theorem CompareBigDec_sound_witness:
  "let e = \<lparr>AdditiveTolerance = Some (Dec 1), MultiplicativeTolerance = None, RoundingDir = RoundDown\<rparr> in
   ErrTolerance_CompareBigDec plain_sdk e (BigDec 5) (BigDec 3) = Inr 0 \<and> bd_val (BigDec 3) \<le> bd_val (BigDec 5) \<and>
   \<bar>bd_val (BigDec 5) - bd_val (BigDec 3)\<bar> \<le> dec_val (Dec 1)"
proof -
  let ?e = "\<lparr>AdditiveTolerance = Some (Dec 1), MultiplicativeTolerance = None, RoundingDir = RoundDown\<rparr>"
  have laws: "sdk_cmp_laws plain_sdk" using plain_sdk_laws by (simp add: sdk_laws_def)
  have c: "ErrTolerance_CompareBigDec plain_sdk ?e (BigDec 5) (BigDec 3) = Inr 0"
    by (simp add: ErrTolerance_CompareBigDec_def RoundDown_def RoundUp_def bigdec_ops BigDec_Clone_def BigDec_Abs_def BigDec_LT_def
        BigDec_GT_def BigDec_Equal_def plain_sdk_def bigdec_consts big_simps)
  show ?thesis
    using CompareBigDec_sound [OF laws c, of "Dec 1"] c unfolding Let_def by (metis ErrTolerance.select_convs(1,3) BigDec.inject numeral_eq_iff num.distinct(1) semiring_norm(89,90))
qed

section \<open>Binary search\<close>

lemma BinarySearchBigDec_loop_sound:
  assumes "BinarySearchBigDec_loop n S f lo hi target e = Inr r" "bdi lo \<le> bdi hi"
  shows "bdi lo \<le> bdi r \<and> bdi r \<le> bdi hi \<and> (\<exists>out. f r = Inr out \<and> ErrTolerance_CompareBigDec S e target out = Inr 0)"
  using assms
proof (induction n arbitrary: lo hi)
  case (Suc n)
  let ?m = "BigDec (big_Rsh (bdi lo + bdi hi) 1)"
  have m: "bdi lo \<le> bdi ?m" "bdi ?m \<le> bdi hi" using Suc.prems(2) by (simp_all add: big_Rsh_def)
  from Suc.prems(1) obtain out c where fc: "f ?m = Inr out" "ErrTolerance_CompareBigDec S e target out = Inr c"
    by (auto simp: BigDec_Add_def BigDec_AddMut_def BigDec_Clone_def Let_def split: if_splits)
  consider "c < 0" | "c > 0" | "c = 0" by linarith
  then show ?case
  proof cases
    case 1
    with Suc.prems(1) fc have "BinarySearchBigDec_loop n S f lo ?m target e = Inr r"
      by (auto simp: BigDec_Add_def BigDec_AddMut_def BigDec_Clone_def Let_def split: if_splits)
    with Suc.IH m show ?thesis by fastforce
  next
    case 2
    with Suc.prems(1) fc have "BinarySearchBigDec_loop n S f ?m hi target e = Inr r"
      by (auto simp: BigDec_Add_def BigDec_AddMut_def BigDec_Clone_def Let_def split: if_splits)
    with Suc.IH m show ?thesis by fastforce
  next
    case 3
    with Suc.prems(1) fc have "r = ?m"
      by (auto simp: BigDec_Add_def BigDec_AddMut_def BigDec_Clone_def Let_def split: if_splits)
    with m fc 3 show ?thesis by blast
  qed
qed simp

text \<open>With an additive tolerance only, the comparison is a threshold on the difference.\<close>

lemma CompareBigDec_additive:
  assumes "sdk_cmp_laws S" "AdditiveTolerance e = Some t" "MultiplicativeTolerance e = None" "0 \<le> deci t"
    "\<bar>bdi x - bdi a\<bar> < 2 ^ maxDecBitLen"
  shows "ErrTolerance_CompareBigDec S e x a = Inr
    (if RoundingDir e = RoundDown \<and> bdi x < bdi a then - 1 else if RoundingDir e = RoundUp \<and> bdi x > bdi a then 1
     else if deci t * bigDecDecPrecisionFactorDiff < \<bar>bdi x - bdi a\<bar> then (if bdi x > bdi a then 1 else - 1) else 0)"
proof -
  have z: "Dec_IsZero S d \<longleftrightarrow> deci d = 0" for d using assms(1) by (simp add: sdk_cmp_laws_def)
  have "0 \<le> deci t * bigDecDecPrecisionFactorDiff" using assms(4) by simp
  then show ?thesis
    using assms(2,3,5)
    by (auto simp: ErrTolerance_CompareBigDec_def z BigDec_Sub_def BigDec_SubMut_def BigDec_Clone_def BigDec_Abs_def
        BigDec_LT_def BigDec_GT_def BigDec_Equal_def big_simps Let_def RoundDown_def RoundUp_def)
qed

lemma BinarySearchBigDec_loop_complete:
  assumes "sdk_cmp_laws S" "AdditiveTolerance e = Some t" "MultiplicativeTolerance e = None" "0 \<le> deci t"
    and f: "\<And>x. f (BigDec x) = Inr (BigDec (g x))" "mono g"
    and range: "\<And>x. L \<le> x \<Longrightarrow> x \<le> H \<Longrightarrow> \<bar>bdi target - g x\<bar> < 2 ^ maxDecBitLen" "L \<le> lo" "hi \<le> H" "\<bar>lo\<bar> < 2 ^ (maxDecBitLen - 1)" "\<bar>hi\<bar> < 2 ^ (maxDecBitLen - 1)"
    and x0: "lo \<le> x0" "x0 < hi" "ErrTolerance_CompareBigDec S e target (BigDec (g x0)) = Inr 0"
    and n: "hi - lo \<le> 2 ^ n"
  shows "\<exists>r. BinarySearchBigDec_loop (Suc n) S f (BigDec lo) (BigDec hi) target e = Inr r"
  using range(2-) x0(1,2) n
proof (induction n arbitrary: lo hi)
  case (0 lo hi)
  then have "big_Rsh (lo + hi) 1 = x0" by (simp add: big_Rsh_def)
  moreover have "\<bar>lo + hi\<bar> < 2 ^ maxDecBitLen"
  proof -
    have "(2::int) ^ maxDecBitLen = 2 * 2 ^ (maxDecBitLen - 1)" by (simp add: bigdec_consts)
    with 0 show ?thesis by linarith
  qed
  ultimately show ?case using x0(3) f(1) by (simp add: BigDec_Add_def BigDec_AddMut_def BigDec_Clone_def)
next
  case (Suc n lo hi)
  define m where "m = big_Rsh (lo + hi) 1"
  have m: "m = (lo + hi) div 2" by (simp add: m_def big_Rsh_def)
  have "(2::int) ^ maxDecBitLen = 2 * 2 ^ (maxDecBitLen - 1)" by (simp add: bigdec_consts)
  with Suc.prems have add: "\<bar>lo + hi\<bar> < 2 ^ maxDecBitLen" by linarith
  have mr: "\<bar>m\<bar> < 2 ^ (maxDecBitLen - 1)" using Suc.prems m by linarith
  have "hi - lo \<le> 2 * 2 ^ n" using Suc.prems(7) by simp
  then have len: "m - lo \<le> 2 ^ n" "hi - m \<le> 2 ^ n" using m by linarith+
  have LH: "L \<le> m" "m \<le> H" "L \<le> x0" "x0 \<le> H" using Suc.prems m by linarith+
  note cmp = CompareBigDec_additive [OF assms(1-4), of target "BigDec (g _)"]
  obtain c where c: "ErrTolerance_CompareBigDec S e target (BigDec (g m)) = Inr c"
    using cmp [of m] range(1) [of m] LH by simp
  consider "c < 0" | "c > 0" | "c = 0" by linarith
  then show ?case
  proof cases
    case 1
    have "x0 < m"
    proof (rule ccontr)
      assume "\<not> x0 < m"
      with f(2) have "g m \<le> g x0" by (simp add: mono_def)
      with 1 c x0(3) cmp [of m] cmp [of x0] range(1) [OF LH(1,2)] range(1) [OF LH(3,4)] show False
        by (auto split: if_splits)
    qed
    with Suc.prems mr len LH have "\<exists>r. BinarySearchBigDec_loop (Suc n) S f (BigDec lo) (BigDec m) target e = Inr r"
      by (intro Suc.IH) auto
    with 1 c add f(1) m_def show ?thesis
      by (subst BinarySearchBigDec_loop.simps) (simp del: BinarySearchBigDec_loop.simps add: BigDec_Add_def BigDec_AddMut_def BigDec_Clone_def)
  next
    case 2
    have "m < x0"
    proof (rule ccontr)
      assume "\<not> m < x0"
      with f(2) have "g x0 \<le> g m" by (simp add: mono_def)
      with 2 c x0(3) cmp [of m] cmp [of x0] range(1) [OF LH(1,2)] range(1) [OF LH(3,4)] show False
        by (auto split: if_splits)
    qed
    with Suc.prems mr len LH have "\<exists>r. BinarySearchBigDec_loop (Suc n) S f (BigDec m) (BigDec hi) target e = Inr r"
      by (intro Suc.IH) auto
    with 2 c add f(1) m_def show ?thesis
      by (subst BinarySearchBigDec_loop.simps) (simp del: BinarySearchBigDec_loop.simps add: BigDec_Add_def BigDec_AddMut_def BigDec_Clone_def)
  next
    case 3
    with c add f(1) m_def show ?thesis
      by (simp add: BigDec_Add_def BigDec_AddMut_def BigDec_Clone_def)
  qed
qed

section \<open>Properties of the search and of the division\<close>

text \<open>C32: A result of \<open>BinarySearchBigDec\<close> lies between the bounds, and the function's value there
  compares equal to the target under the tolerance.\<close>

theorem BinarySearchBigDec_sound:
  assumes "BinarySearchBigDec S f lo hi target e maxIterations = Inr r" "bdi lo \<le> bdi hi"
  shows "bdi lo \<le> bdi r \<and> bdi r \<le> bdi hi \<and> (\<exists>out. f r = Inr out \<and> ErrTolerance_CompareBigDec S e target out = Inr 0)"
  using BinarySearchBigDec_loop_sound assms unfolding BinarySearchBigDec_def by blast

theorem BinarySearchBigDec_sound_witness:
  "let e = \<lparr>AdditiveTolerance = Some (Dec 0), MultiplicativeTolerance = None, RoundingDir = RoundUnconstrained\<rparr> in
   BinarySearchBigDec plain_sdk Inr (BigDec 0) (BigDec 8) (BigDec 4) e 1 = Inr (BigDec 4) \<and> bdi (BigDec 4) \<le> bdi (BigDec 8)"
proof -
  let ?e = "\<lparr>AdditiveTolerance = Some (Dec 0), MultiplicativeTolerance = None, RoundingDir = RoundUnconstrained\<rparr>"
  have r: "BinarySearchBigDec plain_sdk Inr (BigDec 0) (BigDec 8) (BigDec 4) ?e 1 = Inr (BigDec 4)"
    by (simp add: BinarySearchBigDec_def ErrTolerance_CompareBigDec_def RoundDown_def RoundUp_def RoundUnconstrained_def bigdec_ops
        BigDec_Clone_def BigDec_Abs_def BigDec_LT_def BigDec_GT_def BigDec_Equal_def plain_sdk_def bigdec_consts big_simps big_Rsh_def)
  show ?thesis using BinarySearchBigDec_sound [OF r] r by simp
qed



lemma NewBigDec_int64_eq: "NewBigDec k = Inr (BigDec (k * defaultBigDecPrecisionReuse))"
  by (simp add: NewBigDec_def NewBigDecWithPrec_def precisionMultiplier_def calcPrecisionMultiplier_def defaultBigDecPrecisionReuse_def)

lemma BigDec_of_Int:
  assumes "sdk_int_laws S"
  shows "BigDecFromDecMut (Int_ToLegacyDec S i) = Inr (BigDec (i * defaultBigDecPrecisionReuse))"
  using assms by (simp add: sdk_int_laws_def bigdec_consts)

lemma bd_val_quotient: "bd_val (BigDec (i * defaultBigDecPrecisionReuse)) / bd_val (BigDec (u * defaultBigDecPrecisionReuse)) =
    real_of_int i / real_of_int u"
  by (simp add: bd_val_div)

lemma ceil_quotient_bounds:
  assumes "0 < bdi e" "bdi r = ceil_div (bdi d * defaultBigDecPrecisionReuse) (bdi e)"
  shows "bd_val d / bd_val e \<le> bd_val r" "bd_val r < bd_val d / bd_val e + ulp"
proof -
  show "bd_val d / bd_val e \<le> bd_val r"
    unfolding quo_real_le(2) [OF assms(1)] assms(2) using assms(1) by (rule ceil_div_ge)
  have "\<not> bd_val d / bd_val e \<le> bd_val (BigDec (bdi r - 1))"
    unfolding quo_real_le(2) [OF assms(1)] using ceil_div_le_iff [OF assms(1), of "bdi d * defaultBigDecPrecisionReuse" "bdi r - 1"] assms(2) by simp
  then show "bd_val r < bd_val d / bd_val e + ulp" by (simp add: bd_val_def algebra_simps)
qed

lemma floor_quotient_bounds:
  assumes "0 < u"
  shows "bd_val (BigDec (i * defaultBigDecPrecisionReuse div u)) \<le> real_of_int i / real_of_int u"
    "real_of_int i / real_of_int u < bd_val (BigDec (i * defaultBigDecPrecisionReuse div u)) + ulp"
proof -
  let ?P = "defaultBigDecPrecisionReuse"
  have "u * (i * ?P div u) \<le> i * ?P" "i * ?P < u * (i * ?P div u) + u"
    using assms by (simp_all add: mult_div_le less_mult_div)
  then have "real_of_int (u * (i * ?P div u)) \<le> real_of_int (i * ?P)" "real_of_int (i * ?P) < real_of_int (u * (i * ?P div u) + u)"
    by (simp_all only: of_int_le_iff of_int_less_iff)
  then show "bd_val (BigDec (i * ?P div u)) \<le> real_of_int i / real_of_int u"
    "real_of_int i / real_of_int u < bd_val (BigDec (i * ?P div u)) + ulp"
    using assms by (simp_all add: bd_val_def ulp_def bigdec_consts field_simps)
qed

text \<open>\<open>DivIntByU64ToBigDec\<close> of a non-negative amount by a divisor below \<open>2 ^ 63\<close> is the exact
  quotient rounded up, down or to nearest as asked, within one unit in the last place; a zero
  divisor and an unknown direction are errors.\<close>

theorem DivIntByU64ToBigDec_rounds:
  assumes "sdk_int_laws S" "0 < u" "u < 2 ^ 63" "0 \<le> i" "DivIntByU64ToBigDec S i u dir = Inr r"
  shows "(dir = RoundUp \<longrightarrow> real_of_int i / real u \<le> bd_val r \<and> bd_val r < real_of_int i / real u + ulp) \<and>
    (dir = RoundDown \<longrightarrow> bd_val r \<le> real_of_int i / real u \<and> real_of_int i / real u < bd_val r + ulp) \<and>
    (dir = RoundBankers \<longrightarrow> \<bar>real_of_int i / real u - bd_val r\<bar> < ulp / 2 + ulp * ulp) \<and>
    dir \<in> {RoundUp, RoundDown, RoundBankers} \<and>
    DivIntByU64ToBigDec S i 0 dir = Inl (Err ''div by zero'')"
proof (intro conjI)
  let ?P = defaultBigDecPrecisionReuse
  have w: "int64 (int u) = int u" using assms(2,3) by (intro int64_id) (simp add: IsInt64_def)
  have up: "0 < bdi (BigDec (int u * ?P))" using assms(2) by simp
  note res = assms(5) [unfolded DivIntByU64ToBigDec_def BigDec_of_Int [OF assms(1)] w NewBigDec_int64_eq]
  have q: "bd_val (BigDec (i * ?P)) / bd_val (BigDec (int u * ?P)) = real_of_int i / real u"
    using bd_val_quotient [of i "int u"] by simp
  show "dir = RoundUp \<longrightarrow> real_of_int i / real u \<le> bd_val r \<and> bd_val r < real_of_int i / real u + ulp"
  proof
    assume "dir = RoundUp"
    with res assms(2) have "bdi r = ceil_div (bdi (BigDec (i * ?P)) * ?P) (bdi (BigDec (int u * ?P)))"
      by (auto simp: QuoRoundUp_pos [OF up] split: if_splits)
    from ceil_quotient_bounds [OF up this] show "real_of_int i / real u \<le> bd_val r \<and> bd_val r < real_of_int i / real u + ulp"
      unfolding q by blast
  qed
  show "dir = RoundDown \<longrightarrow> bd_val r \<le> real_of_int i / real u \<and> real_of_int i / real u < bd_val r + ulp"
    using res assms(2,4) floor_quotient_bounds [of "int u" i]
    by (auto simp: RoundDown_def RoundUp_def BigDec_QuoInt64_def big_Quo_def sdiv_nonneg)
  show "dir = RoundBankers \<longrightarrow> \<bar>real_of_int i / real u - bd_val r\<bar> < ulp / 2 + ulp * ulp"
    using res assms(2) Quo_error [of "BigDec (i * ?P)" "BigDec (int u * ?P)" r] unfolding q
    by (auto simp: RoundDown_def RoundUp_def RoundBankers_def)
  show "dir \<in> {RoundUp, RoundDown, RoundBankers}" using res by (auto split: if_splits)
  show "DivIntByU64ToBigDec S i 0 dir = Inl (Err ''div by zero'')" by (simp add: DivIntByU64ToBigDec_def)
qed

theorem DivIntByU64ToBigDec_rounds_witness:
  "DivIntByU64ToBigDec plain_sdk 1 3 RoundUp = Inr (BigDec 333333333333333333333333333333333334) \<and>
   real_of_int 1 / real 3 \<le> bd_val (BigDec 333333333333333333333333333333333334)"
proof -
  have laws: "sdk_int_laws plain_sdk" using plain_sdk_laws by (simp add: sdk_laws_def)
  have r: "DivIntByU64ToBigDec plain_sdk 1 3 RoundUp = Inr (BigDec 333333333333333333333333333333333334)"
    by (simp add: DivIntByU64ToBigDec_def plain_sdk_def NewBigDec_int64_eq bigdec_ops bigdec_consts int64_def sdiv_nonneg smod_nonneg)
  show ?thesis using DivIntByU64ToBigDec_rounds [OF laws _ _ _ r] r by simp
qed

text \<open>From \<open>2 ^ 63\<close> on, the divisor is converted to a negative \<open>int64\<close>: rounding down divides a
  non-negative amount by the divisor minus \<open>2 ^ 64\<close>, so the quotient is not positive.\<close>

theorem DivIntByU64ToBigDec_wraps:
  assumes "sdk_int_laws S" "2 ^ 63 \<le> u" "u < 2 ^ 64" "0 \<le> i"
  shows "DivIntByU64ToBigDec S i u RoundDown = Inr (BigDec (- (i * defaultBigDecPrecisionReuse div (2 ^ 64 - int u)))) \<and>
    - (i * defaultBigDecPrecisionReuse div (2 ^ 64 - int u)) \<le> 0"
proof (intro conjI)
  let ?P = defaultBigDecPrecisionReuse
  have u: "2 ^ 63 \<le> int u" "int u < 2 ^ 64" using assms(2,3) by simp_all
  then have "(int u + 2 ^ 63) mod 2 ^ 64 = int u - 2 ^ 63" by (simp add: mod_pos_geq)
  then have w: "int64 (int u) = - (2 ^ 64 - int u)" by (simp add: int64_def)
  have "0 \<le> i * ?P" using assms(4) by simp
  then have "i * ?P sdiv - (2 ^ 64 - int u) = - (i * ?P div (2 ^ 64 - int u))"
    using u by (subst sdiv_pos_neg) simp_all
  moreover have "u \<noteq> 0" using assms(2) by auto
  ultimately show "DivIntByU64ToBigDec S i u RoundDown = Inr (BigDec (- (i * ?P div (2 ^ 64 - int u))))"
    unfolding DivIntByU64ToBigDec_def w BigDec_of_Int [OF assms(1)] using u
    by (simp add: RoundDown_def RoundUp_def BigDec_QuoInt64_def big_Quo_def)
  show "- (i * ?P div (2 ^ 64 - int u)) \<le> 0"
    using \<open>0 \<le> i * ?P\<close> u by (simp add: pos_imp_zdiv_nonneg_iff)
qed

theorem DivIntByU64ToBigDec_wraps_witness:
  "DivIntByU64ToBigDec plain_sdk 1 (2 ^ 64 - 1) RoundDown = Inr (BigDec (- (10 ^ 36)))"
proof -
  have laws: "sdk_int_laws plain_sdk" using plain_sdk_laws by (simp add: sdk_laws_def)
  show ?thesis using DivIntByU64ToBigDec_wraps [OF laws, of "2 ^ 64 - 1" 1] by (simp add: bigdec_consts)
qed

text \<open>With a multiplicative tolerance and no additive one, \<open>Compare\<close> reports that zero is below
  zero, while \<open>CompareBigDec\<close> and \<open>CompareDec\<close> find the two equal.\<close>

theorem Compare_zero_zero:
  assumes "sdk_laws S" "AdditiveTolerance e = None" "MultiplicativeTolerance e = Some m" "deci m \<noteq> 0"
    "Dec_Sub S (Dec 0) (Dec 0) = Inr (Dec 0)"
  shows "ErrTolerance_Compare S e 0 0 = Inr (- 1) \<and>
    ErrTolerance_CompareBigDec S e (BigDec 0) (BigDec 0) = Inr 0 \<and>
    ErrTolerance_CompareDec S e (Dec 0) (Dec 0) = Inr 0"
  using assms
  by (auto simp: sdk_laws_def sdk_int_laws_def sdk_cmp_laws_def ErrTolerance_Compare_def ErrTolerance_CompareBigDec_def
      ErrTolerance_CompareDec_def BigDec_Sub_def BigDec_SubMut_def BigDec_Clone_def BigDec_LT_def BigDec_GT_def BigDec_Equal_def
      BigDec_Abs_def MinBigDec_def BigDec_IsZero_def big_simps)

theorem Compare_zero_zero_witness:
  "let e = \<lparr>AdditiveTolerance = None, MultiplicativeTolerance = Some (Dec 1), RoundingDir = RoundUnconstrained\<rparr> in
   ErrTolerance_Compare plain_sdk e 0 0 = Inr (- 1) \<and> ErrTolerance_CompareBigDec plain_sdk e (BigDec 0) (BigDec 0) = Inr 0"
proof -
  let ?e = "\<lparr>AdditiveTolerance = None, MultiplicativeTolerance = Some (Dec 1), RoundingDir = RoundUnconstrained\<rparr>"
  have "Dec_Sub plain_sdk (Dec 0) (Dec 0) = Inr (Dec 0)" by (simp add: plain_sdk_def)
  then show ?thesis
    using Compare_zero_zero [OF plain_sdk_laws, of ?e "Dec 1"] by simp
qed

end
