(* ===== verification/CL_Tick.thy ===== *)
theory CL_Tick
  imports BigDec_Power BigDec_Sqrt SDK_Types
begin

text \<open>
  \<open>x/concentrated-liquidity/math/tick.go\<close> and \<open>precompute.go\<close>, with the constants of
  \<open>types/constants.go\<close>: prices and square root prices of ticks, the table of the powers of ten
  with their tick ranges, and the search of the tick of a price.
\<close>

section \<open>Constants\<close>

definition MinInitializedTick :: int where
  "MinInitializedTick = - 108000000"

definition MaxTick :: int where
  "MaxTick = 342000000"

definition MinCurrentTick :: int where
  "MinCurrentTick = MinInitializedTick - 1"

definition MinInitializedTickV2 :: int where
  "MinInitializedTickV2 = - 270000000"

definition MinCurrentTickV2 :: int where
  "MinCurrentTickV2 = MinInitializedTickV2 - 1"

definition ExponentAtPriceOne :: int where
  "ExponentAtPriceOne = - 6"

definition MaxSpotPrice :: Dec where
  "MaxSpotPrice = Dec (10 ^ 38 * precisionReuseSDKDec)"

definition MaxSpotPriceBigDec :: BigDec where
  "MaxSpotPriceBigDec = BigDec (deci MaxSpotPrice * bigDecDecPrecisionFactorDiff)"

definition MinSpotPrice :: Dec where
  "MinSpotPrice = Dec (10 ^ 6)"

definition MinSpotPriceBigDec :: BigDec where
  "MinSpotPriceBigDec = BigDec (deci MinSpotPrice * bigDecDecPrecisionFactorDiff)"

definition MinSpotPriceV2 :: BigDec where
  "MinSpotPriceV2 = BigDec (10 ^ 6)"

definition geometricExponentIncrementDistanceInTicks :: int where
  "geometricExponentIncrementDistanceInTicks = 9 * 10 ^ 6"

definition osmomathBigOneDec :: BigDec where
  "osmomathBigOneDec = BigDec defaultBigDecPrecisionReuse"

definition osmomathBigTenDec :: BigDec where
  "osmomathBigTenDec = BigDec (10 * defaultBigDecPrecisionReuse)"

lemmas tick_consts = MinInitializedTick_def MaxTick_def MinCurrentTick_def MinInitializedTickV2_def MinCurrentTickV2_def
  ExponentAtPriceOne_def MaxSpotPrice_def MaxSpotPriceBigDec_def MinSpotPrice_def MinSpotPriceBigDec_def MinSpotPriceV2_def
  geometricExponentIncrementDistanceInTicks_def osmomathBigOneDec_def osmomathBigTenDec_def

section \<open>The precomputed tables\<close>

text \<open>\<open>bigPowersOfTen\<close> has 309 entries and \<open>bigNegPowersOfTen\<close> 37; another index panics.\<close>

definition bigPowersOfTen :: "int \<Rightarrow> BigDec res" where
  "bigPowersOfTen i = (if 0 \<le> i \<and> i \<le> 308 then BigDec_PowerInteger osmomathBigTenDec (nat i)
     else Inl (Panic ''index out of range''))"

definition bigNegPowersOfTen :: "int \<Rightarrow> BigDec res" where
  "bigNegPowersOfTen i = (if 0 \<le> i \<and> i \<le> int BigDecPrecision
     then bindE (BigDec_PowerInteger osmomathBigTenDec (nat i)) (BigDec_Quo osmomathBigOneDec)
     else Inl (Panic ''index out of range''))"

definition powTenBigDec :: "int \<Rightarrow> BigDec res" where
  "powTenBigDec exponent = (if exponent \<ge> 0 then bigPowersOfTen exponent else bigNegPowersOfTen (- exponent))"

record tickExpIndexData =
  initialPrice :: BigDec
  maxPrice :: BigDec
  additiveIncrementPerTick :: BigDec
  initialTick :: int

type_synonym tick_cache = "int \<rightharpoonup> tickExpIndexData"

text \<open>
  The two loops of \<open>buildTickExpCache\<close>, from the current index and price bound. The number of
  iterations left bounds the loops; \<open>tickExpCache_built\<close> shows that it is never reached.
\<close>

fun build_up :: "nat \<Rightarrow> int \<Rightarrow> BigDec \<Rightarrow> tick_cache \<Rightarrow> tick_cache res" where
  "build_up 0 curExpIndex max_price c = Inl (Panic ''out of fuel'')"
| "build_up (Suc n) curExpIndex max_price c =
    (if BigDec_LT max_price MaxSpotPriceBigDec then
       bindE (BigDec_PowerInteger osmomathBigTenDec (nat curExpIndex)) (\<lambda>i.
       bindE (BigDec_PowerInteger osmomathBigTenDec (nat (curExpIndex + 1))) (\<lambda>m.
       bindE (powTenBigDec (ExponentAtPriceOne + curExpIndex)) (\<lambda>a.
       build_up n (curExpIndex + 1) m
         (c(curExpIndex \<mapsto> \<lparr>initialPrice = i, maxPrice = m, additiveIncrementPerTick = a,
            initialTick = geometricExponentIncrementDistanceInTicks * curExpIndex\<rparr>)))))
     else Inr c)"

fun build_down :: "nat \<Rightarrow> int \<Rightarrow> BigDec \<Rightarrow> tick_cache \<Rightarrow> tick_cache res" where
  "build_down 0 curExpIndex minPrice c = Inl (Panic ''out of fuel'')"
| "build_down (Suc n) curExpIndex minPrice c =
    (if BigDec_GT minPrice MinSpotPriceV2 then
       bindE (powTenBigDec curExpIndex) (\<lambda>i.
       bindE (powTenBigDec (curExpIndex + 1)) (\<lambda>m.
       bindE (powTenBigDec (ExponentAtPriceOne + curExpIndex)) (\<lambda>a.
       build_down n (curExpIndex - 1) i
         (c(curExpIndex \<mapsto> \<lparr>initialPrice = i, maxPrice = m, additiveIncrementPerTick = a,
            initialTick = geometricExponentIncrementDistanceInTicks * curExpIndex\<rparr>)))))
     else Inr c)"

definition buildTickExpCache :: "tick_cache res" where
  "buildTickExpCache = bindE (build_up 40 0 osmomathBigOneDec Map.empty) (build_down 40 (- 1) osmomathBigOneDec)"

definition tickExpCache :: tick_cache where
  "tickExpCache = (case buildTickExpCache of Inr c \<Rightarrow> c | Inl _ \<Rightarrow> Map.empty)"

subsection \<open>Powers of ten\<close>

lemma ten_power_in_range: "n \<le> 344 \<Longrightarrow> \<bar>(10::int) ^ n\<bar> < 2 ^ maxDecBitLen"
proof -
  assume "n \<le> 344"
  then have "(10::int) ^ n \<le> 10 ^ (43 * 8)" by (intro power_increasing) simp_all
  also have "\<dots> = (10 ^ 43) ^ 8" by (rule power_mult)
  also have "\<dots> < (2 ^ 143) ^ 8" by (rule power_strict_mono) simp_all
  also have "\<dots> = (2::int) ^ maxDecBitLen" by (simp only: power_mult [symmetric]) (simp add: bigdec_consts)
  finally show ?thesis by simp
qed

lemma PowerInteger_ten:
  assumes "n \<le> 308"
  shows "BigDec_PowerInteger osmomathBigTenDec n = Inr (BigDec (10 ^ (36 + n)))"
proof -
  have e: "(10::int) ^ n * 10 ^ 36 = 10 ^ (36 + n)" by (simp add: power_add del: power_numeral)
  have "\<bar>10 ^ n * defaultBigDecPrecisionReuse\<bar> < 2 ^ maxDecBitLen"
    using ten_power_in_range [of "36 + n"] assms by (simp only: e defaultBigDecPrecisionReuse_def BigDecPrecision_def)
  moreover have "\<bar>10 * defaultBigDecPrecisionReuse\<bar> < 2 ^ maxDecBitLen" by (simp add: bigdec_consts)
  ultimately have "BigDec_PowerInteger (BigDec (10 * defaultBigDecPrecisionReuse)) n = Inr (BigDec (10 ^ n * defaultBigDecPrecisionReuse))"
    using PowerInteger_integral [of 10 n] by simp
  then show ?thesis by (simp only: osmomathBigTenDec_def defaultBigDecPrecisionReuse_def BigDecPrecision_def e)
qed

lemma Quo_ten_power:
  assumes "n \<le> 36"
  shows "BigDec_Quo osmomathBigOneDec (BigDec (10 ^ (36 + n))) = Inr (BigDec (10 ^ (36 - n)))"
proof -
  have e: "(10::int) ^ 36 * (10 ^ 36 * 10 ^ 36) = 10 ^ (36 + n) * (10 ^ 36 * 10 ^ (36 - n))"
    using assms by (simp only: power_add [symmetric]) simp
  have "(10::int) ^ 36 * (10 ^ 36 * 10 ^ 36) sdiv 10 ^ (36 + n) = 10 ^ 36 * 10 ^ (36 - n)"
    unfolding e by (subst sdiv_nonneg) simp_all
  moreover have "chopPrecisionAndRound (10 ^ 36 * 10 ^ (36 - n)) = 10 ^ (36 - n)"
    using r36.chop_mult [of "10 ^ (36 - n)"] by (simp add: defaultBigDecPrecisionReuse_def BigDecPrecision_def)
  ultimately show ?thesis
    using ten_power_in_range [of "36 - n"]
    by (simp add: BigDec_Quo_def BigDec_QuoMut_def BigDec_Clone_def osmomathBigOneDec_def squaredPrecisionReuse_def big_Quo_def
        defaultBigDecPrecisionReuse_def BigDecPrecision_def del: power_numeral)
qed

lemma powTenBigDec_eq:
  assumes "- 36 \<le> e" "e \<le> 308"
  shows "powTenBigDec e = Inr (BigDec (10 ^ nat (36 + e)))"
proof (cases "0 \<le> e")
  case True
  then show ?thesis
    using assms PowerInteger_ten [of "nat e"] by (simp add: powTenBigDec_def bigPowersOfTen_def nat_add_distrib)
next
  case False
  then have "nat (36 + e) = 36 - nat (- e)" by simp
  with False show ?thesis
    using assms PowerInteger_ten [of "nat (- e)"] Quo_ten_power [of "nat (- e)"]
    by (simp add: powTenBigDec_def bigNegPowersOfTen_def BigDecPrecision_def)
qed

subsection \<open>The table of tick ranges\<close>

text \<open>What the table holds at index \<open>k\<close>: the decade from \<open>10 ^ k\<close> to \<open>10 ^ (k + 1)\<close>.\<close>

definition decade :: "int \<Rightarrow> tickExpIndexData" where
  "decade k = \<lparr>initialPrice = BigDec (10 ^ nat (36 + k)), maxPrice = BigDec (10 ^ nat (37 + k)),
     additiveIncrementPerTick = BigDec (10 ^ nat (30 + k)), initialTick = 9000000 * k\<rparr>"

lemma power_ten_less: "(10::int) ^ m < 10 ^ n \<longleftrightarrow> m < n" by simp

lemma build_up_result:
  assumes "0 \<le> k" "k \<le> 38" "nat (38 - k) < n"
  shows "build_up n k (BigDec (10 ^ nat (36 + k))) c = Inr (\<lambda>i. if k \<le> i \<and> i \<le> 37 then Some (decade i) else c i)"
  using assms
proof (induction n arbitrary: k c)
  case (Suc n)
  have lt: "BigDec_LT (BigDec (10 ^ nat (36 + k))) MaxSpotPriceBigDec \<longleftrightarrow> k < 38"
  proof -
    have "bdi MaxSpotPriceBigDec = 10 ^ 74"
      by (simp add: MaxSpotPriceBigDec_def MaxSpotPrice_def bigdec_consts)
    then have "BigDec_LT (BigDec (10 ^ nat (36 + k))) MaxSpotPriceBigDec \<longleftrightarrow> nat (36 + k) < 74"
      by (simp only: BigDec_LT_def big_Cmp_iff BigDec.sel power_ten_less)
    then show ?thesis using Suc.prems by linarith
  qed
  show ?case
  proof (cases "k < 38")
    case False
    with Suc.prems lt show ?thesis by (auto simp: fun_eq_iff)
  next
    case True
    have p: "BigDec_PowerInteger osmomathBigTenDec (nat k) = Inr (BigDec (10 ^ nat (36 + k)))"
      "BigDec_PowerInteger osmomathBigTenDec (nat (k + 1)) = Inr (BigDec (10 ^ nat (36 + (k + 1))))"
      using PowerInteger_ten [of "nat k"] PowerInteger_ten [of "nat (k + 1)"] Suc.prems by (simp_all add: nat_add_distrib)
    have a: "powTenBigDec (ExponentAtPriceOne + k) = Inr (BigDec (10 ^ nat (30 + k)))"
      using powTenBigDec_eq [of "- 6 + k"] Suc.prems by (simp add: ExponentAtPriceOne_def)
    have "build_up n (k + 1) (BigDec (10 ^ nat (36 + (k + 1)))) (c(k \<mapsto> decade k)) =
        Inr (\<lambda>i. if k + 1 \<le> i \<and> i \<le> 37 then Some (decade i) else (c(k \<mapsto> decade k)) i)"
      using Suc.prems True by (intro Suc.IH) auto
    moreover have "(\<lambda>i. if k + 1 \<le> i \<and> i \<le> 37 then Some (decade i) else (c(k \<mapsto> decade k)) i) =
        (\<lambda>i. if k \<le> i \<and> i \<le> 37 then Some (decade i) else c i)"
      using True by (auto simp: fun_eq_iff)
    ultimately show ?thesis
      using True lt p a by (simp add: decade_def geometricExponentIncrementDistanceInTicks_def add.assoc)
  qed
qed simp

lemma build_down_result:
  assumes "- 31 \<le> k" "k \<le> - 1" "nat (k + 31) < n"
  shows "build_down n k (BigDec (10 ^ nat (37 + k))) c = Inr (\<lambda>i. if - 30 \<le> i \<and> i \<le> k then Some (decade i) else c i)"
  using assms
proof (induction n arbitrary: k c)
  case (Suc n)
  have gt: "BigDec_GT (BigDec (10 ^ nat (37 + k))) MinSpotPriceV2 \<longleftrightarrow> - 31 < k"
  proof -
    have "BigDec_GT (BigDec (10 ^ nat (37 + k))) MinSpotPriceV2 \<longleftrightarrow> 6 < nat (37 + k)"
      by (simp only: BigDec_GT_def big_Cmp_iff BigDec.sel MinSpotPriceV2_def power_ten_less)
    then show ?thesis using Suc.prems by linarith
  qed
  show ?case
  proof (cases "- 31 < k")
    case False
    with Suc.prems gt show ?thesis by (auto simp: fun_eq_iff)
  next
    case True
    have p: "powTenBigDec k = Inr (BigDec (10 ^ nat (37 + (k - 1))))" "powTenBigDec (k + 1) = Inr (BigDec (10 ^ nat (37 + k)))"
      "powTenBigDec (ExponentAtPriceOne + k) = Inr (BigDec (10 ^ nat (30 + k)))"
      using powTenBigDec_eq [of k] powTenBigDec_eq [of "k + 1"] powTenBigDec_eq [of "- 6 + k"] Suc.prems True
      by (simp_all add: ExponentAtPriceOne_def add.commute)
    have "build_down n (k - 1) (BigDec (10 ^ nat (37 + (k - 1)))) (c(k \<mapsto> decade k)) =
        Inr (\<lambda>i. if - 30 \<le> i \<and> i \<le> k - 1 then Some (decade i) else (c(k \<mapsto> decade k)) i)"
      using Suc.prems True by (intro Suc.IH) auto
    moreover have "(\<lambda>i. if - 30 \<le> i \<and> i \<le> k - 1 then Some (decade i) else (c(k \<mapsto> decade k)) i) =
        (\<lambda>i. if - 30 \<le> i \<and> i \<le> k then Some (decade i) else c i)"
      using True by (auto simp: fun_eq_iff)
    moreover have "37 + (k - 1) = 36 + k" by simp
    ultimately show ?thesis
      using True gt p by (simp add: decade_def geometricExponentIncrementDistanceInTicks_def)
  qed
qed simp

lemma tickExpCache_built: "tickExpCache k = (if - 30 \<le> k \<and> k \<le> 37 then Some (decade k) else None)"
proof -
  have one: "osmomathBigOneDec = BigDec (10 ^ nat (36 + 0))" "osmomathBigOneDec = BigDec (10 ^ nat (37 + - 1))"
    by (simp_all add: osmomathBigOneDec_def bigdec_consts)
  have built: "buildTickExpCache = Inr (\<lambda>i. if - 30 \<le> i \<and> i \<le> - 1 then Some (decade i)
      else if 0 \<le> i \<and> i \<le> 37 then Some (decade i) else None)"
    using build_up_result [of 0 40 Map.empty] build_down_result [of "- 1" 40]
    unfolding buildTickExpCache_def by (simp only: one [symmetric]) simp
  show ?thesis unfolding tickExpCache_def built by auto
qed

section \<open>Ticks and prices\<close>

definition TickToAdditiveGeometricIndices :: "int \<Rightarrow> (int \<times> int) res" where
  "TickToAdditiveGeometricIndices tickIndex =
    (if tickIndex = 0 then Inr (0, 0)
     else if tickIndex = MinInitializedTickV2 \<or> tickIndex = MinCurrentTickV2 then Inr (0, - 30)
     else if tickIndex < MinCurrentTickV2 then Inl (Err ''TickIndexMinimumError'')
     else if tickIndex > MaxTick then Inl (Err ''TickIndexMaximumError'')
     else
       let geometricExponentDelta = tickIndex sdiv geometricExponentIncrementDistanceInTicks;
           numAdditiveTicks = tickIndex - geometricExponentDelta * geometricExponentIncrementDistanceInTicks in
       Inr (numAdditiveTicks, geometricExponentDelta))"

definition TickToPrice :: "int \<Rightarrow> BigDec res" where
  "TickToPrice tickIndex =
    (if tickIndex = 0 then Inr OneBigDec
     else if tickIndex = MinInitializedTickV2 \<or> tickIndex = MinCurrentTickV2 then Inr MinSpotPriceV2
     else
       bindE (TickToAdditiveGeometricIndices tickIndex) (\<lambda>(numAdditiveTicks, geometricExponentDelta).
       let exponentAtCurrentTick = ExponentAtPriceOne + geometricExponentDelta - (if tickIndex < 0 then 1 else 0);
           unscaledPrice = (if tickIndex < 0 then 1000000 * 10 else 1000000) + numAdditiveTicks in
       bindE (powTenBigDec exponentAtCurrentTick) (\<lambda>p.
       bindE (BigDec_MulInt64 p unscaledPrice) (\<lambda>price.
       if BigDec_GT price MaxSpotPriceBigDec \<or> BigDec_LT price MinSpotPriceV2 then Inl (Err ''PriceBoundError'')
       else Inr price))))"

definition TickToSqrtPrice :: "sdk \<Rightarrow> int \<Rightarrow> BigDec res" where
  "TickToSqrtPrice S tickIndex =
    bindE (TickToPrice tickIndex) (\<lambda>priceBigDec.
    if tickIndex \<ge> MinInitializedTick then
      bindE (BigDec_Dec priceBigDec) (\<lambda>price.
      bindE (MonotonicSqrtMut (Dec_IsNegative S) price) BigDecFromDecMut)
    else MonotonicSqrtBigDec priceBigDec)"

definition TicksToSqrtPrice :: "sdk \<Rightarrow> int \<Rightarrow> int \<Rightarrow> (BigDec \<times> BigDec) res" where
  "TicksToSqrtPrice S lowerTick upperTick =
    (if lowerTick \<ge> upperTick then Inl (Err ''InvalidLowerUpperTickError'')
     else
       bindE (TickToSqrtPrice S upperTick) (\<lambda>sqrtPriceUpperTick.
       bindE (TickToSqrtPrice S lowerTick) (\<lambda>sqrtPriceLowerTick.
       Inr (sqrtPriceLowerTick, sqrtPriceUpperTick))))"

text \<open>A zero spacing panics in the remainder; for \<open>int64\<close> the remainder truncates.\<close>

definition RoundDownTickToSpacing :: "int \<Rightarrow> int \<Rightarrow> int res" where
  "RoundDownTickToSpacing tickIndex0 tickSpacing =
    (if tickSpacing = 0 then division_by_zero
     else
       let r = tickIndex0 smod tickSpacing;
           tickIndexModulus = (if r < 0 then int64 (r + tickSpacing) else r);
           tickIndex = (if tickIndexModulus \<noteq> 0 then int64 (tickIndex0 - tickIndexModulus) else tickIndex0) in
       if tickIndex > MaxTick \<or> tickIndex < MinInitializedTickV2 then Inl (Err ''TickIndexNotWithinBoundariesError'')
       else Inr tickIndex)"

subsection \<open>From a price to its tick\<close>

text \<open>The two searches in the table; an index without an entry is a nil pointer.\<close>

function search_up :: "int \<Rightarrow> BigDec \<Rightarrow> tickExpIndexData res" where
  "search_up index price = (case tickExpCache index of
     None \<Rightarrow> Inl (Panic ''nil pointer dereference'')
   | Some geoSpacing \<Rightarrow> if BigDec_LT (maxPrice geoSpacing) price then search_up (index + 1) price else Inr geoSpacing)"
  by pat_completeness auto
termination
  by (relation "measure (\<lambda>(i, p). nat (38 - i))") (auto simp: tickExpCache_built split: if_splits)

function search_down :: "int \<Rightarrow> BigDec \<Rightarrow> tickExpIndexData res" where
  "search_down index price = (case tickExpCache index of
     None \<Rightarrow> Inl (Panic ''nil pointer dereference'')
   | Some geoSpacing \<Rightarrow> if BigDec_GT (initialPrice geoSpacing) price then search_down (index - 1) price else Inr geoSpacing)"
  by pat_completeness auto
termination
  by (relation "measure (\<lambda>(i, p). nat (i + 31))") (auto simp: tickExpCache_built split: if_splits)

declare search_up.simps [simp del] search_down.simps [simp del]

definition CalculatePriceToTick :: "BigDec \<Rightarrow> int res" where
  "CalculatePriceToTick price0 =
    (if BigDec_IsNegative price0 then Inl (Err ''price must be greater than zero'')
     else if BigDec_GT price0 MaxSpotPriceBigDec \<or> BigDec_LT price0 MinSpotPriceV2 then Inl (Err ''PriceBoundError'')
     else if BigDec_Equal price0 osmomathBigOneDec then Inr 0
     else
       bindE (if BigDec_GTE price0 MinSpotPriceBigDec then BigDec_ChopPrecisionMut price0 DecPrecision else Inr price0) (\<lambda>price.
       bindE (if BigDec_GT price osmomathBigOneDec then search_up 0 price else search_down (- 1) price) (\<lambda>geoSpacing.
       bindE (BigDec_Sub price (initialPrice geoSpacing)) (\<lambda>priceInThisExponent.
       bindE (BigDec_QuoMut priceInThisExponent (additiveIncrementPerTick geoSpacing)) (\<lambda>ticksFilledByCurrentSpacing.
       bindE (BigDec_TruncateInt64 ticksFilledByCurrentSpacing) (\<lambda>n.
       Inr (n + initialTick geoSpacing)))))))"

definition calc_err :: "'a res \<Rightarrow> 'a res" where
  "calc_err r = (case r of Inl (Err _) \<Rightarrow> Inl (Err ''ErrCalculateSqrtPriceToTick'') | _ \<Rightarrow> r)"

definition CalculateSqrtPriceToTick :: "sdk \<Rightarrow> BigDec \<Rightarrow> int res" where
  "CalculateSqrtPriceToTick S sqrtPrice =
    bindE (BigDec_Mul sqrtPrice sqrtPrice) (\<lambda>price.
    bindE (CalculatePriceToTick price) (\<lambda>tick0.
    if tick0 < MinCurrentTick then Inl (Err ''TickIndexMinimumError'')
    else
      let outOfBounds = (tick0 \<le> MinInitializedTickV2 \<or> tick0 \<ge> MaxTick - 1);
          tick = (if tick0 \<le> MinInitializedTickV2 then MinInitializedTickV2 + 1
                  else if tick0 \<ge> MaxTick - 1 then MaxTick - 2 else tick0) in
      bindE (calc_err (TickToSqrtPrice S (tick + 1))) (\<lambda>sqrtPriceTplus1.
      if BigDec_GTE sqrtPrice sqrtPriceTplus1 then
        bindE (calc_err (TickToSqrtPrice S (tick + 2))) (\<lambda>sqrtPriceTplus2.
        if (\<not> outOfBounds \<and> BigDec_GTE sqrtPrice sqrtPriceTplus2) \<or> (outOfBounds \<and> BigDec_GT sqrtPrice sqrtPriceTplus2)
        then Inl (Err ''SqrtPriceToTickError'')
        else if BigDec_Equal sqrtPrice sqrtPriceTplus2 then Inr (tick + 2)
        else Inr (tick + 1))
      else
        bindE (calc_err (TickToSqrtPrice S tick)) (\<lambda>sqrtPriceT.
        if BigDec_GTE sqrtPrice sqrtPriceT then Inr tick
        else
          bindE (calc_err (TickToSqrtPrice S (tick - 1))) (\<lambda>sqrtPriceTmin1.
          if BigDec_LT sqrtPrice sqrtPriceTmin1 then Inl (Err ''SqrtPriceToTickError'')
          else Inr (tick - 1))))))"

definition SqrtPriceToTickRoundDownSpacing :: "sdk \<Rightarrow> BigDec \<Rightarrow> nat \<Rightarrow> int res" where
  "SqrtPriceToTickRoundDownSpacing S sqrtPrice tickSpacing =
    bindE (CalculateSqrtPriceToTick S sqrtPrice) (\<lambda>tickIndex.
    RoundDownTickToSpacing tickIndex (int64 (int tickSpacing)))"

section \<open>The price of a tick in closed form\<close>

text \<open>
  Over floor division the two branches of the code are one formula: the decade
  \<open>t div 9000000\<close> and the ticks filled in it. The mantissa is in units of \<open>10 ^ -36\<close>.
\<close>

definition tick_price :: "int \<Rightarrow> int" where
  "tick_price t = 10 ^ nat (30 + t div 9000000) * (1000000 + t mod 9000000)"

lemma sdiv_trunc: "0 < d \<Longrightarrow> t sdiv d = (if t < 0 \<and> t mod d \<noteq> 0 then t div d + 1 else t div d)" for t d :: int
  using ceil_div_code [of d t] by (cases "t < 0") (auto simp: sdiv_neg ceil_div_def sdiv_nonneg)

lemma tick_decade:
  fixes t :: int
  assumes "- 270000000 \<le> t" "t \<le> 342000000"
  shows "- 30 \<le> t div 9000000" "t div 9000000 \<le> 38" "0 \<le> t mod 9000000" "t mod 9000000 < 9000000"
    "t div 9000000 = 38 \<Longrightarrow> t mod 9000000 = 0"
proof -
  show "- 30 \<le> t div 9000000" "t div 9000000 \<le> 38" using assms by linarith+
  show "0 \<le> t mod 9000000" "t mod 9000000 < 9000000" by simp_all
  have "t = 9000000 * (t div 9000000) + t mod 9000000" "0 \<le> t mod 9000000" by simp_all
  then show "t div 9000000 = 38 \<Longrightarrow> t mod 9000000 = 0" using assms by linarith
qed

lemma tick_price_bounds:
  assumes "- 270000000 \<le> t" "t \<le> 342000000"
  shows "10 ^ 6 \<le> tick_price t" "tick_price t \<le> 10 ^ 74"
proof -
  note k = tick_decade [OF assms]
  have "1 * 1000000 \<le> tick_price t"
    unfolding tick_price_def using k by (intro mult_mono) simp_all
  then show "10 ^ 6 \<le> tick_price t" by simp
  show "tick_price t \<le> 10 ^ 74"
  proof (cases "t div 9000000 = 38")
    case True
    with k(5) have "t mod 9000000 = 0" by simp
    with True show ?thesis by (simp add: tick_price_def)
  next
    case False
    with k(2) have "nat (30 + t div 9000000) \<le> 67" by linarith
    then have "(10::int) ^ nat (30 + t div 9000000) \<le> 10 ^ 67" by (intro power_increasing) simp_all
    then have "tick_price t \<le> 10 ^ 67 * 10 ^ 7" unfolding tick_price_def using k by (intro mult_mono) simp_all
    then show ?thesis by simp
  qed
qed

lemma price_in_range: "0 \<le> p \<Longrightarrow> p \<le> 10 ^ 75 \<Longrightarrow> \<bar>p\<bar> < 2 ^ maxDecBitLen" for p :: int
  using ten_power_in_range [of 75] by (simp del: power_numeral)

lemma TickToPrice_eq:
  assumes "- 270000000 \<le> t" "t \<le> 342000000"
  shows "TickToPrice t = Inr (BigDec (tick_price t))"
proof -
  consider "t = 0" | "t = - 270000000" | "t \<noteq> 0" "t \<noteq> - 270000000" by blast
  then show ?thesis
  proof cases
    case 3
    let ?k = "t div 9000000" and ?a = "t mod 9000000"
    let ?delta = "t sdiv 9000000"
    let ?e = "- 6 + ?delta - (if t < 0 then 1 else 0)"
    let ?u = "(if t < 0 then 10000000 else 1000000) + (t - ?delta * 9000000)"
    note k = tick_decade [OF assms]
    have ta: "t = ?k * 9000000 + ?a" by simp
    have d: "?delta = (if t < 0 \<and> ?a \<noteq> 0 then ?k + 1 else ?k)" by (rule sdiv_trunc) simp
    have "- 29 \<le> ?delta"
    proof (cases "t < 0 \<and> ?a \<noteq> 0")
      case False
      then have "?a = 0 \<or> 0 \<le> ?k" by linarith
      moreover have "?k \<noteq> - 30 \<or> ?a \<noteq> 0" using 3(2) ta by linarith
      ultimately have "- 29 \<le> ?k" using k(1) by linarith
      with False d show ?thesis by simp
    qed (use d k(1) in simp)
    then have "powTenBigDec ?e = Inr (BigDec (10 ^ nat (36 + ?e)))"
      using d k by (intro powTenBigDec_eq) auto
    moreover have "10 ^ nat (36 + ?e) * ?u = tick_price t"
    proof (cases "t < 0 \<and> ?a = 0")
      case True
      then have "nat (30 + ?k) = Suc (nat (36 + ?e))" using d k \<open>- 29 \<le> ?delta\<close> by simp
      moreover have "?u = 10000000" using True d ta by simp
      ultimately show ?thesis using True by (simp add: tick_price_def)
    next
      case False
      then have "36 + ?e = 30 + ?k" using d by auto
      moreover have "?u = 1000000 + ?a"
      proof (cases "t < 0")
        case True
        with False d have "?delta = ?k + 1" by simp
        moreover have "?u = 10000000 + (t - ?delta * 9000000)" using True by simp
        ultimately show ?thesis using ta by linarith
      next
        case False
        then have "?u = 1000000 + (t - ?delta * 9000000)" "?delta = ?k" using d by simp_all
        then show ?thesis using ta by linarith
      qed
      ultimately show ?thesis by (simp only: tick_price_def)
    qed
    moreover note b = tick_price_bounds [OF assms]
    moreover have "\<bar>tick_price t\<bar> < 2 ^ maxDecBitLen"
      using b by (intro price_in_range) (simp_all add: order_trans [OF b(2)] order_trans [OF _ b(1)])
    moreover have "bdi MaxSpotPriceBigDec = 10 ^ 74" "bdi MinSpotPriceV2 = 10 ^ 6"
      by (simp_all add: tick_consts bigdec_consts)
    moreover have "TickToPrice t = bindE (powTenBigDec ?e) (\<lambda>p. bindE (BigDec_MulInt64 p ?u) (\<lambda>price.
        if BigDec_GT price MaxSpotPriceBigDec \<or> BigDec_LT price MinSpotPriceV2 then Inl (Err ''PriceBoundError'') else Inr price))"
      using 3 assms by (simp add: TickToPrice_def TickToAdditiveGeometricIndices_def MinInitializedTickV2_def MinCurrentTickV2_def
          MaxTick_def ExponentAtPriceOne_def geometricExponentIncrementDistanceInTicks_def Let_def)
    ultimately show ?thesis
      by (simp only: bindE_Inr BigDec_MulInt64_def BigDec.sel asserted_eq if_True BigDec_GT_def BigDec_LT_def big_Cmp_iff not_less
          linorder_not_less if_False simp_thms)
        (simp add: not_less del: power_numeral)
  qed (simp_all add: TickToPrice_def tick_price_def tick_consts OneBigDec_def bigdec_consts)
qed

lemma div_eq_iff_unique: "t = q * d + r \<Longrightarrow> 0 \<le> r \<Longrightarrow> r < d \<Longrightarrow> t div d = q" for t q d r :: int
  by simp

lemma mod_eq_iff_unique: "t = q * d + r \<Longrightarrow> 0 \<le> r \<Longrightarrow> r < d \<Longrightarrow> t mod d = r" for t q d r :: int
  by simp

lemma tick_price_Suc:
  assumes "- 270000000 \<le> t"
  shows "tick_price (t + 1) = tick_price t + 10 ^ nat (30 + t div 9000000)"
proof -
  define k a where "k = t div 9000000" and "a = t mod 9000000"
  have ta: "t = k * 9000000 + a" "0 \<le> a" "a < 9000000" by (simp_all add: k_def a_def)
  have k: "- 30 \<le> k" unfolding k_def using assms by linarith
  have p: "tick_price t = 10 ^ nat (30 + k) * (1000000 + a)" by (simp add: tick_price_def k_def a_def)
  have "tick_price (t + 1) = tick_price t + 10 ^ nat (30 + k)"
  proof (cases "a = 8999999")
    case True
    then have t1: "t + 1 = (k + 1) * 9000000 + 0" using ta by simp
    have "(t + 1) div 9000000 = k + 1" "(t + 1) mod 9000000 = 0"
      using div_eq_iff_unique [OF t1] mod_eq_iff_unique [OF t1] by simp_all
    moreover have "nat (30 + (k + 1)) = Suc (nat (30 + k))" using k by simp
    ultimately show ?thesis unfolding p True by (simp add: tick_price_def)
  next
    case False
    then have t1: "t + 1 = k * 9000000 + (a + 1)" "a + 1 < 9000000" using ta by simp_all
    have "(t + 1) div 9000000 = k" "(t + 1) mod 9000000 = a + 1"
      using div_eq_iff_unique [OF t1(1)] mod_eq_iff_unique [OF t1(1)] t1(2) ta(2) by simp_all
    then show ?thesis unfolding p by (simp add: tick_price_def algebra_simps)
  qed
  then show ?thesis by (simp add: k_def)
qed

lemma tick_price_strict_mono:
  assumes "- 270000000 \<le> t" "t < t'"
  shows "tick_price t < tick_price t'"
  using assms(2)
proof (induction t' rule: int_gr_induct)
  case base
  show ?case using tick_price_Suc [OF assms(1)] by simp
next
  case (step i)
  then show ?case using tick_price_Suc [of i] assms(1) by (simp add: add.commute less_trans)
qed

section \<open>The search in the table\<close>

lemma search_up_found:
  assumes "0 \<le> i" "i \<le> k" "k \<le> 37" "10 ^ nat (36 + k) < bdi p" "bdi p \<le> 10 ^ nat (37 + k)"
  shows "search_up i p = Inr (decade k)"
  using assms(1,2)
proof (induction "nat (k - i)" arbitrary: i)
  case 0
  with assms show ?case
    by (simp add: search_up.simps tickExpCache_built decade_def BigDec_LT_def)
next
  case (Suc n)
  then have i: "i < k" by simp
  have "(10::int) ^ nat (37 + i) \<le> 10 ^ nat (36 + k)" using i Suc.prems by (intro power_increasing) auto
  with assms(4) have "10 ^ nat (37 + i) < bdi p" by linarith
  moreover have "search_up (i + 1) p = Inr (decade k)" using Suc i by (intro Suc.hyps(1)) auto
  ultimately show ?case
    using i Suc.prems assms(3) by (subst search_up.simps) (simp add: tickExpCache_built decade_def BigDec_LT_def)
qed

lemma search_down_found:
  assumes "i \<le> - 1" "k \<le> i" "- 30 \<le> k" "10 ^ nat (36 + k) \<le> bdi p" "bdi p < 10 ^ nat (37 + k)"
  shows "search_down i p = Inr (decade k)"
  using assms(1,2)
proof (induction "nat (i - k)" arbitrary: i)
  case 0
  with assms show ?case
    by (simp add: search_down.simps tickExpCache_built decade_def BigDec_GT_def)
next
  case (Suc n)
  then have i: "k < i" by simp
  have "(10::int) ^ nat (37 + k) \<le> 10 ^ nat (36 + i)" using i assms(3) by (intro power_increasing) auto
  with assms(5) have "bdi p < 10 ^ nat (36 + i)" by linarith
  moreover have "search_down (i - 1) p = Inr (decade k)" using Suc i by (intro Suc.hyps(1)) auto
  ultimately show ?case
    using i Suc.prems assms(3) by (subst search_down.simps) (simp add: tickExpCache_built decade_def BigDec_GT_def)
qed

text \<open>Counting the ticks of a decade: exact when the price is on a tick.\<close>

lemma spot_price_mantissas:
  "bdi MaxSpotPriceBigDec = 10 ^ 74" "bdi MinSpotPriceV2 = 10 ^ 6" "bdi osmomathBigOneDec = 10 ^ 36" "bdi MinSpotPriceBigDec = 10 ^ 24"
  by (simp_all add: tick_consts bigdec_consts)

text \<open>A price \<open>e\<close> above \<open>n\<close> filled ticks, by at most half a tick, rounds to \<open>n\<close>.\<close>

lemma ticks_filled_round:
  assumes "0 \<le> n" "n \<le> 9000000" "0 \<le> e" "2 * e \<le> 10 ^ j"
  obtains v where "BigDec_QuoMut (BigDec (n * 10 ^ j + e)) (BigDec (10 ^ j)) = Inr v" "BigDec_TruncateInt64 v = Inr n"
proof -
  let ?P = defaultBigDecPrecisionReuse
  define Q :: int where "Q = 10 ^ j"
  have Q: "0 < Q" by (simp add: Q_def)
  have P: "0 < ?P" "?P = 2 * (?P div 2)" by (simp_all add: bigdec_consts)
  define f where "f = e * squaredPrecisionReuse div Q"
  have sq: "squaredPrecisionReuse = ?P * ?P" by (simp add: squaredPrecisionReuse_def)
  have f0: "0 \<le> f" unfolding f_def sq using assms(3) Q P(1) by (simp add: pos_imp_zdiv_nonneg_iff)
  have f1: "f \<le> ?P * (?P div 2)"
  proof -
    have "e * (2 * (?P div 2)) \<le> Q * (?P div 2)" using mult_right_mono [of "2 * e" Q "?P div 2"] assms(4) P by (simp add: Q_def ac_simps)
    then have "e * ?P * ?P \<le> Q * (?P div 2) * ?P" using P mult_right_mono [of "e * ?P" "Q * (?P div 2)" ?P] by simp
    then have "e * squaredPrecisionReuse \<le> (?P * (?P div 2)) * Q" by (simp add: sq ac_simps)
    then have "f \<le> (?P * (?P div 2)) * Q div Q" unfolding f_def by (intro zdiv_mono1 Q)
    then show ?thesis using Q by simp
  qed
  have "(n * Q + e) * squaredPrecisionReuse sdiv Q = ?P * (n * ?P) + f"
  proof -
    have "(n * Q + e) * squaredPrecisionReuse = e * squaredPrecisionReuse + Q * (?P * (n * ?P))" by (simp add: sq algebra_simps)
    moreover have "0 \<le> (n * Q + e) * squaredPrecisionReuse" using assms Q P by (simp add: sq)
    ultimately show ?thesis using Q by (simp add: sdiv_nonneg f_def)
  qed
  moreover define v where "v = chopPrecisionAndRound (?P * (n * ?P) + f)"
  have v: "n * ?P \<le> v" "v \<le> n * ?P + ?P div 2"
  proof -
    have "?P * (n * ?P) + f \<le> ?P * (n * ?P + ?P div 2)" using f1 by (simp add: distrib_left)
    from r36.chop_mono [OF this] show "v \<le> n * ?P + ?P div 2" by (simp only: v_def r36.chop_mult)
    have "?P * (n * ?P) \<le> ?P * (n * ?P) + f" using f0 by simp
    from r36.chop_mono [OF this] show "n * ?P \<le> v" by (simp only: v_def r36.chop_mult)
  qed
  have n0: "0 \<le> n * ?P" using assms(1) P by simp
  have "v \<le> 10 ^ 75"
  proof -
    have "n * ?P \<le> 9000000 * ?P" using assms(2) P by simp
    moreover have "9000000 * ?P + ?P div 2 \<le> 10 ^ 75" by (simp add: bigdec_consts)
    ultimately show ?thesis using v(2) by linarith
  qed
  then have "\<bar>v\<bar> < 2 ^ maxDecBitLen" using v(1) n0 by (intro price_in_range) simp_all
  ultimately have "BigDec_QuoMut (BigDec (n * 10 ^ j + e)) (BigDec (10 ^ j)) = Inr (BigDec v)"
    using Q by (simp add: BigDec_QuoMut_def big_Quo_def Q_def v_def)
  moreover have "v sdiv ?P = n"
  proof -
    have "v = n * ?P + (v - n * ?P)" "0 \<le> v - n * ?P" "v - n * ?P < ?P" using v P by linarith+
    then have "v div ?P = n" by (rule div_eq_iff_unique)
    moreover have "0 \<le> v" using v(1) n0 by simp
    ultimately show ?thesis using P by (simp add: sdiv_nonneg)
  qed
  ultimately show ?thesis
    using that [of "BigDec v"] assms by (simp add: BigDec_TruncateInt64_def IsInt64_def)
qed


lemma decade_powers:
  assumes "- 30 \<le> k"
  shows "(10::int) ^ nat (36 + k) = 1000000 * 10 ^ nat (30 + k)" "(10::int) ^ nat (37 + k) = 10000000 * 10 ^ nat (30 + k)"
proof -
  have "nat (36 + k) = 6 + nat (30 + k)" "nat (37 + k) = 7 + nat (30 + k)" using assms by auto
  then show "(10::int) ^ nat (36 + k) = 1000000 * 10 ^ nat (30 + k)" "(10::int) ^ nat (37 + k) = 10000000 * 10 ^ nat (30 + k)"
    by (simp_all only: power_add) simp_all
qed

text \<open>A price in decade \<open>k\<close>, \<open>e\<close> above \<open>n\<close> filled ticks, after the truncation to 18 decimals.\<close>

definition in_bucket :: "int \<Rightarrow> int \<Rightarrow> int \<Rightarrow> bool" where
  "in_bucket k n e \<longleftrightarrow> - 30 \<le> k \<and> k \<le> 37 \<and> 0 \<le> n \<and> n \<le> 9000000 \<and> 0 \<le> e \<and> 2 * e \<le> 10 ^ nat (30 + k) \<and>
    (0 \<le> k \<longrightarrow> 0 < n \<or> 0 < e) \<and> (k < 0 \<or> 0 < e \<longrightarrow> n < 9000000)"

abbreviation bucket_price :: "int \<Rightarrow> int \<Rightarrow> int \<Rightarrow> int" where
  "bucket_price k n e \<equiv> 10 ^ nat (30 + k) * (1000000 + n) + e"

lemma bucket_price_between:
  assumes "in_bucket k n e"
  shows "10 ^ nat (36 + k) \<le> bucket_price k n e" "bucket_price k n e \<le> 10 ^ nat (37 + k)"
    "0 \<le> k \<Longrightarrow> 10 ^ nat (36 + k) < bucket_price k n e" "k < 0 \<Longrightarrow> bucket_price k n e < 10 ^ nat (37 + k)"
proof -
  define Q :: int where "Q = 10 ^ nat (30 + k)"
  have Q: "0 < Q" by (simp add: Q_def)
  have b: "- 30 \<le> k" "0 \<le> n" "0 \<le> e" "2 * e \<le> Q" "0 \<le> k \<longrightarrow> 0 < n \<or> 0 < e" "k < 0 \<or> 0 < e \<longrightarrow> n < 9000000" "n \<le> 9000000"
    using assms by (auto simp: in_bucket_def Q_def)
  note pw = decade_powers [OF b(1), folded Q_def]
  have n: "0 \<le> Q * n" "0 < n \<Longrightarrow> 0 < Q * n" using Q b by simp_all
  have lim: "Q * (1000000 + n) + e \<le> Q * 10000000" "k < 0 \<Longrightarrow> Q * (1000000 + n) + e < Q * 10000000"
  proof -
    have e: "e < Q" using b(4) Q b(3) by linarith
    have s: "Q * (1000000 + n) + Q \<le> Q * 10000000" if "n < 9000000"
      using mult_left_mono [of "1000000 + n + 1" 10000000 Q] that Q by (simp add: distrib_left)
    show "Q * (1000000 + n) + e < Q * 10000000" if "k < 0" using s that b(6) e by linarith
    show "Q * (1000000 + n) + e \<le> Q * 10000000"
    proof (cases "0 < e")
      case True
      with s b(6) e show ?thesis by linarith
    next
      case False
      with b(3,7) Q show ?thesis by simp
    qed
  qed
  show "10 ^ nat (36 + k) \<le> bucket_price k n e" "bucket_price k n e \<le> 10 ^ nat (37 + k)"
    "0 \<le> k \<Longrightarrow> 10 ^ nat (36 + k) < bucket_price k n e" "k < 0 \<Longrightarrow> bucket_price k n e < 10 ^ nat (37 + k)"
    unfolding Q_def [symmetric] pw using n b(3,5) lim by (auto simp: distrib_left mult.commute)
qed

lemma bucket_found:
  assumes "in_bucket k n e"
  shows "(if BigDec_GT (BigDec (bucket_price k n e)) osmomathBigOneDec then search_up 0 (BigDec (bucket_price k n e))
      else search_down (- 1) (BigDec (bucket_price k n e))) = Inr (decade k)"
proof -
  note b = bucket_price_between [OF assms]
  have k: "- 30 \<le> k" "k \<le> 37" using assms by (simp_all add: in_bucket_def)
  show ?thesis
  proof (cases "0 \<le> k")
    case True
    then have "(10::int) ^ 36 \<le> 10 ^ nat (36 + k)" by (intro power_increasing) simp_all
    with b(3) [OF True] have "10 ^ 36 < bucket_price k n e" by linarith
    moreover have "search_up 0 (BigDec (bucket_price k n e)) = Inr (decade k)"
      using True k b by (intro search_up_found) simp_all
    ultimately show ?thesis by (simp only: BigDec_cmp_simps spot_price_mantissas BigDec.sel if_True)
  next
    case False
    then have "(10::int) ^ nat (37 + k) \<le> 10 ^ 36" by (intro power_increasing) simp_all
    with b(4) False have "\<not> 10 ^ 36 < bucket_price k n e" by linarith
    moreover have "search_down (- 1) (BigDec (bucket_price k n e)) = Inr (decade k)"
      using False k b by (intro search_down_found) simp_all
    ultimately show ?thesis by (simp only: BigDec_cmp_simps spot_price_mantissas BigDec.sel if_False)
  qed
qed

lemma price_to_tick_bucket:
  assumes "in_bucket k n e" "10 ^ 6 \<le> p" "p \<le> 10 ^ 74" "p \<noteq> 10 ^ 36"
    "(if 10 ^ 24 \<le> p then p div 10 ^ 18 * 10 ^ 18 else p) = bucket_price k n e"
  shows "CalculatePriceToTick (BigDec p) = Inr (9000000 * k + n)"
proof -
  let ?Q = "(10::int) ^ nat (30 + k)" and ?q = "bucket_price k n e"
  have b: "- 30 \<le> k" "0 \<le> n" "n \<le> 9000000" "0 \<le> e" "2 * e \<le> ?Q" using assms(1) by (simp_all add: in_bucket_def)
  have p0: "0 \<le> p" using assms(2) by simp
  have qp: "?q \<le> p" unfolding assms(5) [symmetric] using p0 by (simp add: minus_mod_eq_div_mult [symmetric])
  have "(if BigDec_GTE (BigDec p) MinSpotPriceBigDec then BigDec_ChopPrecisionMut (BigDec p) DecPrecision else Inr (BigDec p)) = Inr (BigDec ?q)"
  proof -
    have "BigDec_ChopPrecisionMut (BigDec p) DecPrecision = Inr (BigDec (p div 10 ^ 18 * 10 ^ 18))"
      using p0 by (simp add: BigDec_ChopPrecisionMut_def BigDecPrecision_def DecPrecision_def big_Quo_def sdiv_nonneg)
    then show ?thesis unfolding assms(5) [symmetric] BigDec_cmp_simps spot_price_mantissas by simp
  qed
  moreover have "BigDec_Sub (BigDec ?q) (initialPrice (decade k)) = Inr (BigDec (n * ?Q + e))"
  proof -
    have d: "?q - 10 ^ nat (36 + k) = n * ?Q + e" unfolding decade_powers [OF b(1)] by (simp add: algebra_simps)
    have "0 \<le> n * ?Q + e" using b by simp
    moreover have "n * ?Q + e \<le> 10 ^ 75"
    proof -
      have "n * ?Q + e \<le> ?q" by (simp add: algebra_simps)
      moreover have "(10::int) ^ 74 \<le> 10 ^ 75" by simp
      ultimately show ?thesis using qp assms(3) by linarith
    qed
    ultimately have "\<bar>n * ?Q + e\<bar> < 2 ^ maxDecBitLen" by (rule price_in_range)
    then show ?thesis
      using d by (simp only: BigDec_Sub_def BigDec_SubMut_def BigDec_Clone_def decade_def tickExpIndexData.simps BigDec.sel asserted_eq if_True)
  qed
  moreover have "\<not> BigDec_IsNegative (BigDec p)" using p0 by (simp only: BigDec_cmp_simps BigDec.sel not_less)
  moreover have "\<not> (BigDec_GT (BigDec p) MaxSpotPriceBigDec \<or> BigDec_LT (BigDec p) MinSpotPriceV2)"
    using assms(2,3) by (simp only: BigDec_cmp_simps spot_price_mantissas BigDec.sel not_less de_Morgan_disj simp_thms)
  moreover have "\<not> BigDec_Equal (BigDec p) osmomathBigOneDec"
    using assms(4) spot_price_mantissas(3) by (metis BigDec.sel BigDec_cmp_simps(4))
  moreover note bucket_found [OF assms(1)]
  moreover have "additiveIncrementPerTick (decade k) = BigDec ?Q" "initialTick (decade k) = 9000000 * k" by (simp_all add: decade_def)
  moreover obtain v where "BigDec_QuoMut (BigDec (n * ?Q + e)) (BigDec ?Q) = Inr v" "BigDec_TruncateInt64 v = Inr n"
    by (rule ticks_filled_round [OF b(2-5)])
  ultimately show ?thesis
    by (simp only: CalculatePriceToTick_def if_False if_True bindE_Inr add.commute)
qed

text \<open>The price of a tick itself.\<close>

lemma bucket_price_on_tick:
  assumes "in_bucket k n 0"
  shows "10 ^ 6 \<le> bucket_price k n 0" "bucket_price k n 0 \<le> 10 ^ 74" "bucket_price k n 0 \<noteq> 10 ^ 36"
    "10 ^ 24 \<le> bucket_price k n 0 \<Longrightarrow> 10 ^ 18 dvd bucket_price k n 0"
proof -
  note b = bucket_price_between [OF assms]
  have k: "- 30 \<le> k" "k \<le> 37" using assms by (simp_all add: in_bucket_def)
  then have "(10::int) ^ 6 \<le> 10 ^ nat (36 + k)" "(10::int) ^ nat (37 + k) \<le> 10 ^ 74"
    by (auto intro: power_increasing simp del: power_numeral)
  with b(1,2) show "10 ^ 6 \<le> bucket_price k n 0" "bucket_price k n 0 \<le> 10 ^ 74" by linarith+
  have "(10::int) ^ 36 \<le> 10 ^ nat (36 + k)" if "0 \<le> k" using that by (intro power_increasing) simp_all
  moreover have "(10::int) ^ nat (37 + k) \<le> 10 ^ 36" if "k < 0" using that by (intro power_increasing) simp_all
  ultimately show "bucket_price k n 0 \<noteq> 10 ^ 36" using b(3,4) by (cases "0 \<le> k") fastforce+
  show "10 ^ 18 dvd bucket_price k n 0" if "10 ^ 24 \<le> bucket_price k n 0"
  proof -
    have "18 \<le> nat (30 + k)"
    proof (cases "0 \<le> k")
      case False
      with b(4) that have "(10::int) ^ 24 < 10 ^ nat (37 + k)" by linarith
      then have "24 < nat (37 + k)" by (simp only: power_ten_less)
      then show ?thesis by linarith
    qed simp
    then show ?thesis unfolding add_0_right by (intro dvd_mult2 le_imp_power_dvd)
  qed
qed

lemma price_to_tick_on_tick:
  assumes "in_bucket k n 0"
  shows "CalculatePriceToTick (BigDec (bucket_price k n 0)) = Inr (9000000 * k + n)"
  by (rule price_to_tick_bucket [OF assms]) (use bucket_price_on_tick [OF assms] in \<open>auto simp del: power_numeral\<close>)

lemma tick_in_decade:
  assumes "- 270000000 \<le> t" "t \<le> 342000000" "t \<noteq> 0"
  obtains k n where "in_bucket k n 0" "t = 9000000 * k + n" "tick_price t = bucket_price k n 0"
proof -
  define k a where "k = t div 9000000" and "a = t mod 9000000"
  have ta: "t = 9000000 * k + a" "0 \<le> a" "a < 9000000" by (simp_all add: k_def a_def)
  have p: "tick_price t = bucket_price k a 0" by (simp add: tick_price_def k_def a_def)
  show ?thesis
  proof (cases "0 \<le> k \<and> a = 0")
    case True
    then have k1: "0 < k" "k \<le> 38" using assms ta by auto
    then have "nat (30 + k) = Suc (nat (30 + (k - 1)))" by simp
    then have "tick_price t = bucket_price (k - 1) 9000000 0" using p True by simp
    moreover have "in_bucket (k - 1) 9000000 0" using k1 by (simp add: in_bucket_def)
    moreover have "t = 9000000 * (k - 1) + 9000000" using True ta by simp
    ultimately show ?thesis by (rule that [rotated 2])
  next
    case False
    have "- 30 \<le> k" "k \<le> 37 \<or> a = 0" using assms ta by linarith+
    with False ta(2,3) have "in_bucket k a 0" by (auto simp: in_bucket_def)
    with p ta(1) show ?thesis by (intro that)
  qed
qed

section \<open>Properties\<close>

text \<open>C21: \<open>TickToPrice\<close> on every tick of the range is the closed formula: the decade
  \<open>10 ^ (t div 9000000)\<close> plus \<open>t mod 9000000\<close> additive ticks of a millionth of it, exactly and
  without panic, so prices increase strictly from \<open>10 ^ -30\<close> to \<open>10 ^ 38\<close>; ticks outside are
  errors, except the one below the lowest, which has the lowest price.\<close>

theorem TickToPrice_spec:
  assumes "MinInitializedTickV2 \<le> t" "t < t'" "t' \<le> MaxTick" "u < MinCurrentTickV2" "MaxTick < v"
  shows "TickToPrice t = Inr (BigDec (10 ^ nat (30 + t div 9000000) * (1000000 + t mod 9000000))) \<and>
    (\<exists>p p'. TickToPrice t = Inr p \<and> TickToPrice t' = Inr p' \<and> bdi p < bdi p' \<and> bdi MinSpotPriceV2 \<le> bdi p \<and> bdi p' \<le> bdi MaxSpotPriceBigDec) \<and>
    TickToPrice MinCurrentTickV2 = TickToPrice MinInitializedTickV2 \<and>
    TickToPrice u = Inl (Err ''TickIndexMinimumError'') \<and> TickToPrice v = Inl (Err ''TickIndexMaximumError'')"
proof (intro conjI)
  have t: "- 270000000 \<le> t" "t \<le> 342000000" "- 270000000 \<le> t'" "t' \<le> 342000000"
    using assms by (simp_all add: MinInitializedTickV2_def MaxTick_def)
  show "TickToPrice t = Inr (BigDec (10 ^ nat (30 + t div 9000000) * (1000000 + t mod 9000000)))"
    using TickToPrice_eq [OF t(1,2)] by (simp only: tick_price_def)
  show "\<exists>p p'. TickToPrice t = Inr p \<and> TickToPrice t' = Inr p' \<and> bdi p < bdi p' \<and> bdi MinSpotPriceV2 \<le> bdi p \<and> bdi p' \<le> bdi MaxSpotPriceBigDec"
    unfolding TickToPrice_eq [OF t(1,2)] TickToPrice_eq [OF t(3,4)] spot_price_mantissas
    using tick_price_strict_mono [OF t(1) assms(2)] tick_price_bounds [OF t(1,2)] tick_price_bounds [OF t(3,4)] by simp
  show "TickToPrice MinCurrentTickV2 = TickToPrice MinInitializedTickV2" by (simp add: TickToPrice_def tick_consts)
  show "TickToPrice u = Inl (Err ''TickIndexMinimumError'')" "TickToPrice v = Inl (Err ''TickIndexMaximumError'')"
    using assms(4,5) by (simp_all add: TickToPrice_def TickToAdditiveGeometricIndices_def tick_consts)
qed

theorem TickToPrice_spec_witness:
  "TickToPrice (- 1) = Inr (BigDec (9999999 * 10 ^ 29)) \<and> TickToPrice (MaxTick + 1) = Inl (Err ''TickIndexMaximumError'')"
proof -
  have a: "MinInitializedTickV2 \<le> - 1" "(- 1) < (1 :: int)" "1 \<le> MaxTick" "MinCurrentTickV2 - 1 < MinCurrentTickV2" "MaxTick < MaxTick + 1"
    by (simp_all add: tick_consts)
  show ?thesis using TickToPrice_spec [OF a] by simp
qed

text \<open>C7: \<open>CalculatePriceToTick\<close> inverts \<open>TickToPrice\<close> on every tick of the range: neither the search in
  the precomputed decades nor the decimal division loses a tick.\<close>

theorem CalculatePriceToTick_TickToPrice:
  assumes "MinInitializedTickV2 \<le> t" "t \<le> MaxTick"
  shows "bindE (TickToPrice t) CalculatePriceToTick = Inr t"
proof -
  have t: "- 270000000 \<le> t" "t \<le> 342000000" using assms by (simp_all add: MinInitializedTickV2_def MaxTick_def)
  show ?thesis
  proof (cases "t = 0")
    case True
    then show ?thesis
      by (simp add: TickToPrice_def CalculatePriceToTick_def OneBigDec_def BigDec_IsNegative_def BigDec_GT_def BigDec_LT_def
          BigDec_Equal_def tick_consts bigdec_consts)
  next
    case False
    then obtain k n where "in_bucket k n 0" "t = 9000000 * k + n" "tick_price t = bucket_price k n 0"
      using tick_in_decade [OF t] by blast
    then show ?thesis using TickToPrice_eq [OF t] price_to_tick_on_tick [of k n] by simp
  qed
qed

theorem CalculatePriceToTick_TickToPrice_witness:
  "bindE (TickToPrice (- 107999999)) CalculatePriceToTick = Inr (- 107999999)"
  using CalculatePriceToTick_TickToPrice [of "- 107999999"] by (simp add: tick_consts)

text \<open>C35: \<open>RoundDownTickToSpacing\<close> returns the greatest multiple of the spacing not above the tick,
  negative ticks included, and an error exactly when that multiple is below the lowest tick.\<close>

theorem RoundDownTickToSpacing_floor:
  assumes "MinCurrentTickV2 \<le> t" "t \<le> MaxTick" "0 < s" "s \<le> 2 ^ 62"
  shows "RoundDownTickToSpacing t s =
    (if t div s * s < MinInitializedTickV2 then Inl (Err ''TickIndexNotWithinBoundariesError'') else Inr (t div s * s))"
proof -
  have m: "(if t smod s < 0 then t smod s + s else t smod s) = t mod s"
    using assms(3) by (cases "t < 0") (auto simp: smod_nonneg smod_neg zmod_zminus1_eq_if not_less pos_mod_sign, metis pos_mod_bound not_le)
  have r: "0 \<le> t mod s" "t mod s < s" "t - t mod s = t div s * s" using assms(3) by (simp_all add: minus_mod_eq_div_mult)
  have "int64 (t smod s + s) = t smod s + s" if "t smod s < 0"
    using that m r assms(4) by (intro int64_id) (auto simp: IsInt64_def)
  moreover have "int64 (t - t mod s) = t - t mod s"
    using assms r by (intro int64_id) (auto simp: IsInt64_def tick_consts)
  moreover have "t div s * s \<le> MaxTick" using r assms(2) by linarith
  ultimately show ?thesis using assms(3) m r by (auto simp: RoundDownTickToSpacing_def Let_def)
qed

theorem RoundDownTickToSpacing_floor_witness:
  "RoundDownTickToSpacing (- 17) 10 = Inr (- 20)"
  using RoundDownTickToSpacing_floor [of "- 17" 10] by (simp add: tick_consts)

end
