(* ===== verification/CL_SqrtTick.thy ===== *)
theory CL_SqrtTick
  imports CL_Tick
begin

text \<open>
  The square root price of a tick and its inverse: \<open>TickToSqrtPrice\<close> and
  \<open>CalculateSqrtPriceToTick\<close> of \<open>x/concentrated-liquidity/math/tick.go\<close>, on the ticks that
  the pools use, from \<open>MinInitializedTick\<close> to \<open>MaxTick\<close>.
\<close>

section \<open>The square root price of a tick\<close>

text \<open>On this range the price is a whole number of 18th decimals and its root is taken there.\<close>

definition tick_root :: "int \<Rightarrow> int" where
  "tick_root t = sqrt_up (tick_price t)"

lemma tick_price_dvd:
  assumes "- 108000000 \<le> t"
  shows "10 ^ 18 dvd tick_price t"
proof -
  have "- 12 \<le> t div 9000000" using assms by linarith
  then have "18 \<le> nat (30 + t div 9000000)" by linarith
  then show ?thesis unfolding tick_price_def by (intro dvd_mult2 le_imp_power_dvd)
qed

lemma TickToSqrtPrice_eq:
  assumes "sdk_cmp_laws S" "- 108000000 \<le> t" "t \<le> 342000000"
  shows "TickToSqrtPrice S t = Inr (BigDec (tick_root t * 10 ^ 18))"
proof -
  have t: "- 270000000 \<le> t" using assms(2) by simp
  have p: "0 \<le> tick_price t" using tick_price_bounds(1) [OF t assms(3)] by simp
  define m where "m = tick_price t div 10 ^ 18"
  have m: "tick_price t = m * 10 ^ 18" unfolding m_def using tick_price_dvd [OF assms(2)] by simp
  have m0: "0 \<le> m" using p unfolding m by simp
  have f: "bigDecDecPrecisionFactorDiff = 10 ^ 18" by (simp add: bigdec_consts)
  have "tick_price t sdiv bigDecDecPrecisionFactorDiff = m"
    using m0 by (simp add: m sdiv_nonneg f)
  moreover have "MonotonicSqrtMut (Dec_IsNegative S) (Dec m) = Inr (Dec (sqrt_up (m * tenTo18)))"
    using MonotonicSqrt_eq [of "Dec_IsNegative S" "Dec m"] m0 assms(1) by (simp add: MonotonicSqrt_def sdk_cmp_laws_def)
  ultimately show ?thesis
    using assms(2) by (simp add: TickToSqrtPrice_def TickToPrice_eq [OF t assms(3)] MinInitializedTick_def BigDec_Dec_eq
        BigDecFromDec_eq tick_root_def m tenTo18_def f)
qed

text \<open>The square of the root is above the price by less than half a tick.\<close>

lemma tick_root_square:
  assumes "- 108000000 \<le> t" "t \<le> 342000000"
  shows "0 < tick_root t" "tick_price t \<le> tick_root t * tick_root t"
    "2 * (tick_root t * tick_root t - tick_price t) \<le> 10 ^ nat (30 + t div 9000000)"
proof -
  define Q :: int where "Q = 10 ^ nat (30 + t div 9000000)"
  have t: "- 270000000 \<le> t" using assms by simp
  note d = tick_decade [OF t assms(2)]
  have p: "0 < tick_price t" using tick_price_bounds(1) [OF t assms(2)] by simp
  have "- 12 \<le> t div 9000000" using assms by linarith
  then have "18 \<le> nat (30 + t div 9000000)" by linarith
  then have dv: "10 ^ 18 dvd Q" unfolding Q_def by (rule le_imp_power_dvd)
  have "0 < Q" by (simp add: Q_def)
  then have Q: "10 ^ 18 \<le> Q" using dv by (rule zdvd_imp_le [rotated])
  define w where "w = Q div 8"
  have "8 dvd Q" using dv by (rule dvd_trans [rotated]) simp
  then have w: "Q = 8 * w" by (simp add: w_def)
  have "tick_price t \<le> Q * 10000000"
    unfolding tick_price_def Q_def using d by (intro mult_left_mono) simp_all
  also have "\<dots> \<le> w * w" using mult_right_mono [of 80000000 w w] Q unfolding w by simp
  finally have le: "tick_root t \<le> w"
    unfolding tick_root_def using Q w by (intro sqrt_up_spec(3)) (simp_all add: p less_imp_le)
  show sq: "tick_price t \<le> tick_root t * tick_root t" unfolding tick_root_def using p by (intro sqrt_up_spec) simp
  have "0 \<le> tick_root t" unfolding tick_root_def using p by (intro sqrt_up_spec) simp
  with sq p show pos: "0 < tick_root t" by (cases "tick_root t = 0") simp_all
  have "\<not> tick_price t \<le> (tick_root t - 1) * (tick_root t - 1)"
    using sqrt_up_spec(3) [of "tick_price t" "tick_root t - 1"] p pos by (auto simp: tick_root_def)
  then have "tick_root t * tick_root t - tick_price t < 2 * tick_root t" by (simp add: algebra_simps)
  moreover have "2 * x \<le> Q" if "x < 2 * tick_root t" for x using that le w \<open>0 < Q\<close> by linarith
  ultimately show "2 * (tick_root t * tick_root t - tick_price t) \<le> 10 ^ nat (30 + t div 9000000)"
    unfolding Q_def [symmetric] by blast
qed

lemma tick_root_less:
  assumes "- 108000000 \<le> t" "t < 342000000"
  shows "tick_root t * tick_root t < tick_price (t + 1)" "tick_root t < tick_root (t + 1)"
proof -
  have s: "tick_price (t + 1) = tick_price t + 10 ^ nat (30 + t div 9000000)"
    using assms by (intro tick_price_Suc) simp
  have "2 * (x - p) \<le> Q \<Longrightarrow> 0 < Q \<Longrightarrow> x < p + Q" for x p Q :: int by presburger
  from this [OF tick_root_square(3) [OF assms(1) less_imp_le [OF assms(2)]]]
  show lt: "tick_root t * tick_root t < tick_price (t + 1)" unfolding s by simp
  also have "\<dots> \<le> tick_root (t + 1) * tick_root (t + 1)" using assms by (intro tick_root_square) simp_all
  finally show "tick_root t < tick_root (t + 1)"
    using tick_root_square(1) [of t] tick_root_square(1) [of "t + 1"] assms
    by (metis add_increasing2 less_imp_le linorder_not_less mult_mono zero_le_one zless_imp_add1_zle)
qed

section \<open>From a square root price to its tick\<close>

lemma tick_root_max: "tick_root 342000000 * tick_root 342000000 = tick_price 342000000"
proof -
  have "tick_price 342000000 = 10 ^ 37 * 10 ^ 37" by (simp add: tick_price_def)
  then show ?thesis using sqrt_up_square [of "10 ^ 37"] by (simp add: tick_root_def)
qed

lemma tick_root_square_range:
  assumes "- 108000000 \<le> t" "t \<le> 342000000"
  shows "10 ^ 24 \<le> tick_price t" "tick_root t * tick_root t \<le> 10 ^ 74" "t \<noteq> 0 \<Longrightarrow> tick_root t * tick_root t \<noteq> 10 ^ 36"
proof -
  have t: "- 270000000 \<le> t" using assms by simp
  show "10 ^ 24 \<le> tick_price t"
    using tick_price_strict_mono [of "- 108000000" t] assms by (cases "t = - 108000000") (simp_all add: tick_price_def)
  show "tick_root t * tick_root t \<le> 10 ^ 74"
    using tick_root_less(1) [of t] tick_price_bounds(2) [of "t + 1"] tick_root_max tick_price_bounds(2) [of 342000000] assms
    by (cases "t = 342000000") simp_all
  have z: "tick_price 0 = 10 ^ 36" by (simp add: tick_price_def)
  show "tick_root t * tick_root t \<noteq> 10 ^ 36" if "t \<noteq> 0"
  proof (cases "0 < t")
    case True
    then have "tick_price 0 < tick_price t" by (intro tick_price_strict_mono) simp_all
    with tick_root_square(2) [OF assms] z show ?thesis by linarith
  next
    case False
    with that have "t + 1 \<le> 0" by simp
    then have "tick_price (t + 1) \<le> tick_price 0"
      using tick_price_strict_mono [of "t + 1" 0] t by (cases "t + 1 = 0") simp_all
    with tick_root_less(1) [of t] assms \<open>t + 1 \<le> 0\<close> z show ?thesis by linarith
  qed
qed

text \<open>Truncating the square to 18 decimals keeps it on or above the price of the tick.\<close>

lemma tick_root_square_chopped:
  assumes "- 108000000 \<le> t" "t \<le> 342000000"
  obtains e where "0 \<le> e" "2 * e \<le> 10 ^ nat (30 + t div 9000000)"
    "tick_root t * tick_root t div 10 ^ 18 * 10 ^ 18 = tick_price t + e" "t = 342000000 \<Longrightarrow> e = 0"
proof -
  let ?q = "tick_root t * tick_root t"
  define e where "e = ?q div 10 ^ 18 * 10 ^ 18 - tick_price t"
  obtain m where m: "tick_price t = 10 ^ 18 * m" using tick_price_dvd [OF assms(1)] by (rule dvdE)
  have "tick_price t div 10 ^ 18 \<le> ?q div 10 ^ 18" using tick_root_square(2) [OF assms] by (intro zdiv_mono1) simp_all
  then have "0 \<le> e" unfolding e_def m by simp
  moreover have "?q div 10 ^ 18 * 10 ^ 18 = ?q - ?q mod 10 ^ 18" by (rule minus_mod_eq_div_mult [symmetric])
  then have "2 * e \<le> 10 ^ nat (30 + t div 9000000)"
    unfolding e_def using tick_root_square(3) [OF assms] by (simp add: right_diff_distrib)
  moreover have "e = 0" if "t = 342000000" unfolding e_def using that tick_root_max m by simp
  ultimately show ?thesis using that [of e] by (simp add: e_def)
qed

lemma price_of_root_to_tick:
  assumes "- 108000000 \<le> t" "t \<le> 342000000"
  shows "CalculatePriceToTick (BigDec (tick_root t * tick_root t)) = Inr t"
proof (cases "t = 0")
  case True
  have "tick_root 0 * tick_root 0 = 10 ^ 36" using sqrt_up_square [of "10 ^ 18"] by (simp add: tick_root_def tick_price_def)
  with True show ?thesis by (simp add: CalculatePriceToTick_def tick_consts bigdec_consts)
next
  case False
  let ?q = "tick_root t * tick_root t" and ?p = "tick_price t" and ?k = "t div 9000000" and ?n = "t mod 9000000"
  have t: "- 270000000 \<le> t" using assms by simp
  obtain e where e: "0 \<le> e" "2 * e \<le> 10 ^ nat (30 + ?k)" "?q div 10 ^ 18 * 10 ^ 18 = ?p + e" "t = 342000000 \<Longrightarrow> e = 0"
    using tick_root_square_chopped [OF assms] by metis
  note r = tick_root_square_range [OF assms] tick_root_square(2) [OF assms]
  have "10 ^ 6 \<le> ?q" using r(1,4) by simp
  note bucket = price_to_tick_bucket [OF _ this r(2) r(3) [OF False]]
  have ch: "(if 10 ^ 24 \<le> ?q then ?q div 10 ^ 18 * 10 ^ 18 else ?q) = ?p + e" using e(3) r(1,4) by simp
  show ?thesis
  proof (cases "e = 0")
    case True
    obtain k n where "in_bucket k n 0" "t = 9000000 * k + n" "?p = bucket_price k n 0"
      using tick_in_decade [OF t assms(2) False] by blast
    with bucket [of k n 0] ch True show ?thesis by simp
  next
    case e0: False
    then have "t < 342000000" using e(4) assms(2) by fastforce
    then have "?k \<le> 37" "- 30 \<le> ?k" using assms by linarith+
    then have "in_bucket ?k ?n e" using e e0 by (simp add: in_bucket_def)
    moreover have "?p + e = bucket_price ?k ?n e" by (simp add: tick_price_def)
    ultimately have "CalculatePriceToTick (BigDec ?q) = Inr (9000000 * ?k + ?n)" using bucket [of ?k ?n e] ch by simp
    then show ?thesis by simp
  qed
qed

lemma calc_err_Inr [simp]: "calc_err (Inr x) = Inr x" "calc_err r = Inr x \<longleftrightarrow> r = Inr x"
  by (auto simp: calc_err_def split: sum.splits go_err.splits)

lemma CalculateSqrtPriceToTick_root:
  assumes "sdk_cmp_laws S" "- 108000000 \<le> t" "t \<le> 342000000"
  shows "CalculateSqrtPriceToTick S (BigDec (tick_root t * 10 ^ 18)) = Inr t"
proof -
  let ?s = "BigDec (tick_root t * 10 ^ 18)"
  note T = TickToSqrtPrice_eq [OF assms(1)]
  have q74: "tick_root t * tick_root t \<le> 10 ^ 75"
    using tick_root_square_range(2) [OF assms(2,3)] by simp
  have mul: "BigDec_Mul ?s ?s = Inr (BigDec (tick_root t * tick_root t))"
  proof -
    have "tick_root t * 10 ^ 18 * (tick_root t * 10 ^ 18) = defaultBigDecPrecisionReuse * (tick_root t * tick_root t)"
      by (simp add: bigdec_consts)
    then have "chopPrecisionAndRound (tick_root t * 10 ^ 18 * (tick_root t * 10 ^ 18)) = tick_root t * tick_root t"
      by (simp only: r36.chop_mult)
    moreover have "\<bar>tick_root t * tick_root t\<bar> < 2 ^ maxDecBitLen" using q74 by (intro price_in_range) simp_all
    ultimately show ?thesis
      by (simp only: BigDec_Mul_def BigDec_MulMut_def BigDec_Clone_def BigDec.sel asserted_eq if_True)
  qed
  note calc = mul price_of_root_to_tick [OF assms(2,3)]
  have step: "tick_root u < tick_root (u + 1)" if "- 108000000 \<le> u" "u < 342000000" for u
    using tick_root_less(2) [OF that] .
  consider "t = 342000000" | "t = 341999999" | "t < 341999999" using assms(3) by linarith
  then show ?thesis
  proof cases
    case 1
    then show ?thesis
      using calc step [of 341999999] by (simp add: CalculateSqrtPriceToTick_def tick_consts T del: power_numeral)
  next
    case 2
    then show ?thesis
      using calc step [of 341999999] by (simp add: CalculateSqrtPriceToTick_def tick_consts T del: power_numeral)
  next
    case 3
    then show ?thesis
      using calc step [of t] assms(2) by (simp add: CalculateSqrtPriceToTick_def tick_consts T del: power_numeral)
  qed
qed

section \<open>Properties\<close>

text \<open>C2: \<open>CalculateSqrtPriceToTick\<close> inverts \<open>TickToSqrtPrice\<close> on every tick the pools use: the root is
  rounded up to the 18th decimal, squared and looked up in the table of decades without losing
  a tick; and the square root prices of the ticks increase strictly.\<close>

theorem CalculateSqrtPriceToTick_TickToSqrtPrice:
  assumes "sdk_cmp_laws S" "MinInitializedTick \<le> t" "t \<le> MaxTick"
  shows "bindE (TickToSqrtPrice S t) (CalculateSqrtPriceToTick S) = Inr t \<and>
    (t < MaxTick \<longrightarrow> (\<exists>a b. TicksToSqrtPrice S t (t + 1) = Inr (a, b) \<and> bdi a < bdi b))"
proof -
  have t: "- 108000000 \<le> t" "t \<le> 342000000" using assms by (simp_all add: tick_consts)
  show ?thesis
    using CalculateSqrtPriceToTick_root [OF assms(1) t] tick_root_less(2) [of t] t
    by (simp add: TickToSqrtPrice_eq [OF assms(1)] TicksToSqrtPrice_def tick_consts)
qed

theorem CalculateSqrtPriceToTick_TickToSqrtPrice_witness:
  "bindE (TickToSqrtPrice plain_sdk (- 12345)) (CalculateSqrtPriceToTick plain_sdk) = Inr (- 12345)"
proof -
  have laws: "sdk_cmp_laws plain_sdk" using plain_sdk_laws by (simp add: sdk_laws_def)
  show ?thesis using CalculateSqrtPriceToTick_TickToSqrtPrice [OF laws, of "- 12345"] by (simp add: tick_consts)
qed

text \<open>C18: When \<open>CalculateSqrtPriceToTick\<close> returns a tick, the square root price lies in the bucket of
  that tick: not below the square root price of the tick and below that of the next one,
  except at the highest tick, which is returned for its exact square root price.\<close>

theorem CalculateSqrtPriceToTick_bucket:
  assumes "CalculateSqrtPriceToTick S s = Inr t"
  shows "\<exists>a. TickToSqrtPrice S t = Inr a \<and> bdi a \<le> bdi s \<and>
    (if t = MaxTick then s = a else \<exists>b. TickToSqrtPrice S (t + 1) = Inr b \<and> bdi s < bdi b)"
proof -
  have eq: "s = c \<longleftrightarrow> bdi s = bdi c" for c by (cases s; cases c) simp
  show ?thesis
    using assms
    by (auto simp: CalculateSqrtPriceToTick_def Let_def eq tick_consts algebra_simps elim!: bindE_InrE split: if_splits)
qed

theorem CalculateSqrtPriceToTick_bucket_witness:
  "\<exists>a. TickToSqrtPrice plain_sdk 5 = Inr a \<and> (\<exists>b. TickToSqrtPrice plain_sdk 6 = Inr b \<and> bdi a < bdi b)"
proof -
  have laws: "sdk_cmp_laws plain_sdk" using plain_sdk_laws by (simp add: sdk_laws_def)
  have "CalculateSqrtPriceToTick plain_sdk (BigDec (tick_root 5 * 10 ^ 18)) = Inr 5"
    by (rule CalculateSqrtPriceToTick_root [OF laws]) simp_all
  from CalculateSqrtPriceToTick_bucket [OF this] show ?thesis by (auto simp: tick_consts)
qed

end
