(* ===== verification/CL_Math.thy ===== *)
theory CL_Math
  imports Tolerance
begin

text \<open>
  \<open>x/concentrated-liquidity/math/math.go\<close>: the amounts and square root prices of a swap within
  one liquidity bucket, and the liquidity of a position. The theorems compare each result with
  the exact real formula in the comment of the code and show on which side of it the roundings
  fall.
\<close>

section \<open>Definitions\<close>

definition Liquidity0 :: "int \<Rightarrow> BigDec \<Rightarrow> BigDec \<Rightarrow> Dec res" where
  "Liquidity0 amount sqrtPriceA0 sqrtPriceB0 =
    (let (sqrtPriceA, sqrtPriceB) =
       (if BigDec_GT sqrtPriceA0 sqrtPriceB0 then (sqrtPriceB0, sqrtPriceA0) else (sqrtPriceA0, sqrtPriceB0)) in
     bindE (BigDecFromSDKInt amount) (\<lambda>amountBigDec.
     bindE (BigDec_Mul sqrtPriceA sqrtPriceB) (\<lambda>product.
     bindE (BigDec_Sub sqrtPriceB sqrtPriceA) (\<lambda>diff.
     if BigDec_IsZero diff then Inl (Panic ''liquidity0 diff is zero'')
     else bindE (BigDec_MulMut amountBigDec product) (\<lambda>m. bindE (BigDec_QuoMut m diff) BigDec_Dec)))))"

definition Liquidity1 :: "int \<Rightarrow> BigDec \<Rightarrow> BigDec \<Rightarrow> Dec res" where
  "Liquidity1 amount sqrtPriceA0 sqrtPriceB0 =
    (let (sqrtPriceA, sqrtPriceB) =
       (if BigDec_GT sqrtPriceA0 sqrtPriceB0 then (sqrtPriceB0, sqrtPriceA0) else (sqrtPriceA0, sqrtPriceB0)) in
     bindE (BigDecFromSDKInt amount) (\<lambda>amountBigDec.
     bindE (BigDec_Sub sqrtPriceB sqrtPriceA) (\<lambda>diff.
     if BigDec_IsZero diff then Inl (Panic ''liquidity1 diff is zero'')
     else bindE (BigDec_QuoMut amountBigDec diff) BigDec_Dec)))"

definition CalcAmount0Delta :: "Dec \<Rightarrow> BigDec \<Rightarrow> BigDec \<Rightarrow> bool \<Rightarrow> BigDec res" where
  "CalcAmount0Delta liq sqrtPriceA0 sqrtPriceB0 roundUp =
    (let (sqrtPriceA, sqrtPriceB) =
       (if BigDec_GT sqrtPriceA0 sqrtPriceB0 then (sqrtPriceB0, sqrtPriceA0) else (sqrtPriceA0, sqrtPriceB0)) in
     bindE (BigDec_Sub sqrtPriceB sqrtPriceA) (\<lambda>diff.
     if roundUp then
       bindE (BigDec_MulRoundUpDec diff liq) (\<lambda>m.
       bindE (BigDec_QuoRoundUpMut m sqrtPriceB) (\<lambda>q. BigDec_QuoRoundUpNextIntMut q sqrtPriceA))
     else
       bindE (BigDec_MulTruncateDec diff liq) (\<lambda>m.
       bindE (BigDec_QuoTruncateMut m sqrtPriceB) (\<lambda>q. BigDec_QuoTruncateMut q sqrtPriceA))))"

definition CalcAmount1Delta :: "Dec \<Rightarrow> BigDec \<Rightarrow> BigDec \<Rightarrow> bool \<Rightarrow> BigDec res" where
  "CalcAmount1Delta liq sqrtPriceA sqrtPriceB roundUp =
    bindE (BigDec_Sub sqrtPriceB sqrtPriceA) (\<lambda>d.
    let diff = BigDec_AbsMut d in
    if roundUp then bindE (BigDec_MulDecMut diff liq) BigDec_CeilMut
    else BigDec_MulTruncateDec diff liq)"

definition GetNextSqrtPriceFromAmount0InRoundingUp :: "BigDec \<Rightarrow> BigDec \<Rightarrow> BigDec \<Rightarrow> BigDec res" where
  "GetNextSqrtPriceFromAmount0InRoundingUp sqrtPriceCurrent liquidity amountZeroRemainingIn =
    (if BigDec_IsZero amountZeroRemainingIn then Inr sqrtPriceCurrent
     else
       bindE (BigDec_MulTruncate amountZeroRemainingIn sqrtPriceCurrent) (\<lambda>product.
       bindE (BigDec_AddMut product liquidity) (\<lambda>denominator.
       bindE (BigDec_MulRoundUp liquidity sqrtPriceCurrent) (\<lambda>m. BigDec_QuoRoundUpMut m denominator))))"

definition GetNextSqrtPriceFromAmount0OutRoundingUp :: "sdk \<Rightarrow> BigDec \<Rightarrow> BigDec \<Rightarrow> Dec \<Rightarrow> BigDec res" where
  "GetNextSqrtPriceFromAmount0OutRoundingUp S sqrtPriceCurrent liquidity amountZeroRemainingOut =
    (if Dec_IsZero S amountZeroRemainingOut then Inr sqrtPriceCurrent
     else
       bindE (BigDec_MulRoundUpDec sqrtPriceCurrent amountZeroRemainingOut) (\<lambda>product.
       bindE (BigDec_Sub liquidity product) (\<lambda>denominator.
       bindE (BigDec_MulRoundUp liquidity sqrtPriceCurrent) (\<lambda>m. BigDec_QuoRoundUpMut m denominator))))"

definition GetNextSqrtPriceFromAmount1InRoundingDown :: "BigDec \<Rightarrow> Dec \<Rightarrow> BigDec \<Rightarrow> BigDec res" where
  "GetNextSqrtPriceFromAmount1InRoundingDown sqrtPriceCurrent liquidity amountOneRemainingIn =
    bindE (BigDec_QuoTruncateDec amountOneRemainingIn liquidity) (\<lambda>q. BigDec_AddMut q sqrtPriceCurrent)"

definition GetNextSqrtPriceFromAmount1OutRoundingDown :: "BigDec \<Rightarrow> Dec \<Rightarrow> BigDec \<Rightarrow> BigDec res" where
  "GetNextSqrtPriceFromAmount1OutRoundingDown sqrtPriceCurrent liquidity amountOneRemainingOut =
    bindE (BigDec_QuoByDecRoundUp amountOneRemainingOut liquidity) (\<lambda>q. BigDec_Sub sqrtPriceCurrent q)"

definition GetLiquidityFromAmounts :: "sdk \<Rightarrow> BigDec \<Rightarrow> BigDec \<Rightarrow> BigDec \<Rightarrow> int \<Rightarrow> int \<Rightarrow> Dec res" where
  "GetLiquidityFromAmounts S sqrtPrice sqrtPriceA0 sqrtPriceB0 amount0 amount1 =
    (let (sqrtPriceA, sqrtPriceB) =
       (if BigDec_GT sqrtPriceA0 sqrtPriceB0 then (sqrtPriceB0, sqrtPriceA0) else (sqrtPriceA0, sqrtPriceB0)) in
     if BigDec_LTE sqrtPrice sqrtPriceA then Liquidity0 amount0 sqrtPriceA sqrtPriceB
     else if BigDec_LT sqrtPrice sqrtPriceB then
       bindE (Liquidity0 amount0 sqrtPrice sqrtPriceB) (\<lambda>liquidity0.
       bindE (Liquidity1 amount1 sqrtPrice sqrtPriceA) (\<lambda>liquidity1.
       Inr (Dec_Min S liquidity0 liquidity1)))
     else Liquidity1 amount1 sqrtPriceB sqrtPriceA)"

definition SquareRoundUp :: "sdk \<Rightarrow> Dec \<Rightarrow> Dec res" where
  "SquareRoundUp S sqrtPrice = Dec_MulRoundUp S sqrtPrice sqrtPrice"

definition SquareTruncate :: "sdk \<Rightarrow> Dec \<Rightarrow> Dec res" where
  "SquareTruncate S sqrtPrice = Dec_MulTruncate S sqrtPrice sqrtPrice"

section \<open>The roundings over the reals\<close>

text \<open>
  Each operation on non-negative operands as a bound on the real value of its result. These
  facts carry the proofs below.
\<close>

lemma real_div_bounds:
  assumes "0 < b"
  shows "real_of_int (a div b) \<le> real_of_int a / real_of_int b" "real_of_int a / real_of_int b < real_of_int (a div b) + 1"
proof -
  have "real_of_int (b * (a div b)) \<le> real_of_int a" "real_of_int a < real_of_int (b * (a div b) + b)"
    using mult_div_le [OF assms, of a] less_mult_div [OF assms, of a] by (simp_all only: of_int_le_iff of_int_less_iff)
  then show "real_of_int (a div b) \<le> real_of_int a / real_of_int b" "real_of_int a / real_of_int b < real_of_int (a div b) + 1"
    using assms by (simp_all add: field_simps)
qed

lemma real_ceil_div_bounds:
  assumes "0 < b"
  shows "real_of_int a / real_of_int b \<le> real_of_int (ceil_div a b)" "real_of_int (ceil_div a b) < real_of_int a / real_of_int b + 1"
  using real_div_bounds [OF assms, of "- a"] by (simp_all add: ceil_div_def)

lemma MulRoundUpDec_bounds:
  assumes "BigDec_MulRoundUpDec d l = Inr r"
  shows "bd_val d * dec_val l \<le> bd_val r" "bd_val r < bd_val d * dec_val l + ulp"
proof -
  have "bdi r = ceil_div (bdi d * deci l) precisionReuseSDKDec"
    using assms by (auto simp: bigdec_ops split: if_splits)
  then show "bd_val d * dec_val l \<le> bd_val r" "bd_val r < bd_val d * dec_val l + ulp"
    using real_ceil_div_bounds [of precisionReuseSDKDec "bdi d * deci l"]
    by (simp_all add: bd_val_def dec_val_def ulp_def bigdec_consts field_simps)
qed

lemma MulTruncateDec_bounds:
  assumes "BigDec_MulTruncateDec d l = Inr r" "0 \<le> bdi d" "0 \<le> deci l"
  shows "0 \<le> bd_val r" "bd_val r \<le> bd_val d * dec_val l" "bd_val d * dec_val l < bd_val r + ulp"
proof -
  have "bdi r = bdi d * deci l div precisionReuseSDKDec"
    using assms by (auto simp: bigdec_ops sdiv_nonneg split: if_splits)
  then show "0 \<le> bd_val r" "bd_val r \<le> bd_val d * dec_val l" "bd_val d * dec_val l < bd_val r + ulp"
    using real_div_bounds [of precisionReuseSDKDec "bdi d * deci l"] assms(2,3)
    by (simp_all add: bd_val_def dec_val_def ulp_def bigdec_consts field_simps pos_imp_zdiv_nonneg_iff)
qed

lemma QuoRoundUpMut_bounds:
  assumes "BigDec_QuoRoundUpMut d e = Inr r" "0 \<le> bdi d" "0 < bdi e"
  shows "bd_val d / bd_val e \<le> bd_val r" "bd_val r < bd_val d / bd_val e + ulp"
proof -
  have "bdi r = ceil_div (bdi d * defaultBigDecPrecisionReuse) (bdi e)"
    using assms(1) unfolding QuoRoundUpMut_nonneg [OF assms(2,3)] by (auto split: if_splits)
  from ceil_quotient_bounds [OF assms(3) this]
  show "bd_val d / bd_val e \<le> bd_val r" "bd_val r < bd_val d / bd_val e + ulp" .
qed

lemma QuoTruncateMut_bounds:
  assumes "BigDec_QuoTruncateMut d e = Inr r" "0 \<le> bdi d" "0 < bdi e"
  shows "0 \<le> bd_val r" "bd_val r \<le> bd_val d / bd_val e" "bd_val d / bd_val e < bd_val r + ulp"
proof -
  have "bdi r = bdi d * defaultBigDecPrecisionReuse div bdi e"
    using assms by (auto simp: bigdec_ops sdiv_nonneg split: if_splits)
  then show "0 \<le> bd_val r" "bd_val r \<le> bd_val d / bd_val e" "bd_val d / bd_val e < bd_val r + ulp"
    using real_div_bounds [of "bdi e" "bdi d * defaultBigDecPrecisionReuse"] assms(2,3)
    by (simp_all add: bd_val_div bd_val_def ulp_def bigdec_consts field_simps pos_imp_zdiv_nonneg_iff)
qed

lemma QuoRoundUpNextIntMut_bounds:
  assumes "BigDec_QuoRoundUpNextIntMut d e = Inr r" "0 \<le> bdi d" "0 < bdi e"
  shows "bd_val d / bd_val e \<le> bd_val r" "bd_val r < bd_val d / bd_val e + 1" "BigDec_IsInteger r"
proof -
  have r: "bdi r = ceil_div (bdi d) (bdi e) * defaultBigDecPrecisionReuse"
    using assms by (auto simp: bigdec_ops incBasedOnRem_ceil split: if_splits)
  then have "bd_val r = real_of_int (ceil_div (bdi d) (bdi e))"
    by (simp add: bd_val_def ulp_def bigdec_consts)
  then show "bd_val d / bd_val e \<le> bd_val r" "bd_val r < bd_val d / bd_val e + 1"
    using real_ceil_div_bounds [OF assms(3), of "bdi d"] by (simp_all add: bd_val_div)
  show "BigDec_IsInteger r" using r by (simp add: BigDec_IsInteger_iff)
qed

lemma Sub_exact: "BigDec_Sub d e = Inr r \<Longrightarrow> bdi r = bdi d - bdi e" "BigDec_Sub d e = Inr r \<Longrightarrow> bd_val r = bd_val d - bd_val e"
  by (auto simp: bigdec_ops BigDec_Clone_def bd_val_def algebra_simps split: if_splits)

lemma AddMut_exact: "BigDec_AddMut d e = Inr r \<Longrightarrow> bdi r = bdi d + bdi e" "BigDec_AddMut d e = Inr r \<Longrightarrow> bd_val r = bd_val d + bd_val e"
  by (auto simp: bigdec_ops bd_val_def algebra_simps split: if_splits)

lemma dec_val_nonneg: "0 \<le> deci l \<Longrightarrow> 0 \<le> dec_val l" "0 < deci l \<Longrightarrow> 0 < dec_val l"
  by (simp_all add: dec_val_def)

section \<open>The amount of token 0\<close>

lemma CalcAmount0Delta_in:
  assumes "0 \<le> deci liq" "0 < bdi A" "bdi A \<le> bdi B" "CalcAmount0Delta liq A B True = Inr r"
  shows "dec_val liq * (bd_val B - bd_val A) / (bd_val A * bd_val B) \<le> bd_val r" "BigDec_IsInteger r"
proof -
  have B: "0 < bdi B" using assms(2,3) by linarith
  have v: "0 < bd_val A" "0 < bd_val B" "0 \<le> dec_val liq" using assms(1,2) B by (simp_all add: bd_val_sgn dec_val_nonneg)
  have "\<not> BigDec_GT A B" using assms(3) by (simp add: BigDec_GT_def big_simps)
  then obtain diff m q where up: "BigDec_Sub B A = Inr diff" "BigDec_MulRoundUpDec diff liq = Inr m"
      "BigDec_QuoRoundUpMut m B = Inr q" "BigDec_QuoRoundUpNextIntMut q A = Inr r"
    using assms(4) by (auto simp: CalcAmount0Delta_def)
  note d = Sub_exact [OF up(1)]
  have "0 \<le> bd_val diff" using d(1) assms(3) by (simp add: bd_val_sgn)
  note m = MulRoundUpDec_bounds(1) [OF up(2)]
  have ml: "0 \<le> bd_val m" using m \<open>0 \<le> bd_val diff\<close> v(3) by (meson order_trans mult_nonneg_nonneg)
  then have mi: "0 \<le> bdi m" by (simp add: bd_val_sgn)
  note q = QuoRoundUpMut_bounds(1) [OF up(3) mi B]
  have "0 \<le> bd_val m / bd_val B" using ml v(2) by simp
  with q have "0 \<le> bd_val q" by linarith
  then have qi: "0 \<le> bdi q" by (simp add: bd_val_sgn)
  have "bd_val diff * dec_val liq / bd_val B \<le> bd_val q"
    using q divide_right_mono [OF m, of "bd_val B"] v(2) by linarith
  then have "bd_val diff * dec_val liq / bd_val B / bd_val A \<le> bd_val q / bd_val A"
    using v(1) by (intro divide_right_mono) simp_all
  moreover have "dec_val liq * (bd_val B - bd_val A) / (bd_val A * bd_val B) = bd_val diff * dec_val liq / bd_val B / bd_val A"
    by (simp add: d(2) field_simps)
  ultimately show "dec_val liq * (bd_val B - bd_val A) / (bd_val A * bd_val B) \<le> bd_val r"
    using QuoRoundUpNextIntMut_bounds(1) [OF up(4) qi assms(2)] by linarith
  show "BigDec_IsInteger r" by (rule QuoRoundUpNextIntMut_bounds(3) [OF up(4) qi assms(2)])
qed

lemma CalcAmount0Delta_out:
  assumes "0 \<le> deci liq" "0 < bdi A" "bdi A \<le> bdi B" "CalcAmount0Delta liq A B False = Inr r"
  shows "0 \<le> bd_val r" "bd_val r \<le> dec_val liq * (bd_val B - bd_val A) / (bd_val A * bd_val B)"
proof -
  have B: "0 < bdi B" using assms(2,3) by linarith
  have v: "0 < bd_val A" "0 < bd_val B" using assms(2) B by (simp_all add: bd_val_sgn)
  have "\<not> BigDec_GT A B" using assms(3) by (simp add: BigDec_GT_def big_simps)
  then obtain diff m q where dn: "BigDec_Sub B A = Inr diff" "BigDec_MulTruncateDec diff liq = Inr m"
      "BigDec_QuoTruncateMut m B = Inr q" "BigDec_QuoTruncateMut q A = Inr r"
    using assms(4) by (auto simp: CalcAmount0Delta_def)
  note d = Sub_exact [OF dn(1)]
  have di: "0 \<le> bdi diff" using d(1) assms(3) by simp
  note m = MulTruncateDec_bounds [OF dn(2) di assms(1)]
  have mi: "0 \<le> bdi m" using m(1) by (simp add: bd_val_sgn)
  note q = QuoTruncateMut_bounds [OF dn(3) mi B]
  have qi: "0 \<le> bdi q" using q(1) by (simp add: bd_val_sgn)
  note r = QuoTruncateMut_bounds [OF dn(4) qi assms(2)]
  show "0 \<le> bd_val r" by (rule r(1))
  have "bd_val q \<le> bd_val diff * dec_val liq / bd_val B"
    using q(2) divide_right_mono [OF m(2), of "bd_val B"] v(2) by linarith
  then have "bd_val q / bd_val A \<le> bd_val diff * dec_val liq / bd_val B / bd_val A"
    using v(1) by (intro divide_right_mono) simp_all
  moreover have "dec_val liq * (bd_val B - bd_val A) / (bd_val A * bd_val B) = bd_val diff * dec_val liq / bd_val B / bd_val A"
    by (simp add: d(2) field_simps)
  ultimately show "bd_val r \<le> dec_val liq * (bd_val B - bd_val A) / (bd_val A * bd_val B)" using r(2) by linarith
qed

lemma CalcAmount0Delta_symmetric: "CalcAmount0Delta liq B A r = CalcAmount0Delta liq A B r"
  by (cases A; cases B; cases "bdi A" "bdi B" rule: linorder_cases) (auto simp: CalcAmount0Delta_def BigDec_GT_def big_simps)

section \<open>The amount of token 1\<close>

lemma MulDecMut_bounds:
  assumes "BigDec_MulDecMut d l = Inr r"
  shows "\<bar>bd_val r - bd_val d * dec_val l\<bar> \<le> ulp / 2"
proof -
  have r: "bdi r = chopPrecisionAndRoundSdkDec (bdi d * deci l)"
    using assms by (auto simp: bigdec_ops split: if_splits)
  have "\<bar>bdi d * deci l - precisionReuseSDKDec * bdi r\<bar> \<le> fivePrecisionSDKDec"
    unfolding r by (rule r18.chop_spec [THEN conjunct1])
  then have "real_of_int \<bar>bdi d * deci l - precisionReuseSDKDec * bdi r\<bar> \<le> real_of_int fivePrecisionSDKDec"
    by (simp only: of_int_le_iff)
  then have b: "\<bar>real_of_int (bdi d) * real_of_int (deci l) - 10 ^ 18 * real_of_int (bdi r)\<bar> \<le> 10 ^ 18 / 2"
    by (simp add: bigdec_consts sdiv_nonneg)
  have "bd_val r - bd_val d * dec_val l =
      - (real_of_int (bdi d) * real_of_int (deci l) - 10 ^ 18 * real_of_int (bdi r)) * (ulp / 10 ^ 18)"
    by (simp add: bd_val_def dec_val_def field_simps)
  then have "\<bar>bd_val r - bd_val d * dec_val l\<bar> =
      \<bar>real_of_int (bdi d) * real_of_int (deci l) - 10 ^ 18 * real_of_int (bdi r)\<bar> * (ulp / 10 ^ 18)"
    by (simp only: abs_mult abs_minus_cancel) simp
  also have "\<dots> \<le> 10 ^ 18 / 2 * (ulp / 10 ^ 18)" using b by (rule mult_right_mono) simp
  finally show ?thesis by simp
qed

lemma CeilMut_bounds:
  assumes "BigDec_CeilMut d = Inr r"
  shows "bd_val d \<le> bd_val r" "bd_val r < bd_val d + 1" "BigDec_IsInteger r"
proof -
  have r: "bdi r = ceil_div (bdi d) defaultBigDecPrecisionReuse * defaultBigDecPrecisionReuse"
    using assms by (auto simp: BigDec_CeilMut_eq)
  then have "bd_val r = real_of_int (ceil_div (bdi d) defaultBigDecPrecisionReuse)"
    by (simp add: bd_val_def ulp_def bigdec_consts)
  then show "bd_val d \<le> bd_val r" "bd_val r < bd_val d + 1"
    using real_ceil_div_bounds [of defaultBigDecPrecisionReuse "bdi d"] by (simp_all add: bd_val_def ulp_def bigdec_consts)
  show "BigDec_IsInteger r" using r by (simp add: BigDec_IsInteger_iff)
qed

section \<open>The next square root price\<close>

lemma MulTruncate_bounds:
  assumes "BigDec_MulTruncate d e = Inr r" "0 \<le> bdi d" "0 \<le> bdi e"
  shows "0 \<le> bd_val r" "bd_val r \<le> bd_val d * bd_val e"
proof -
  have r: "bdi r = bdi d * bdi e div defaultBigDecPrecisionReuse"
    using assms by (auto simp: bigdec_ops sdiv_nonneg split: if_splits)
  show "0 \<le> bd_val r" using r assms(2,3) by (simp add: bd_val_sgn pos_imp_zdiv_nonneg_iff)
  show "bd_val r \<le> bd_val d * bd_val e" unfolding bd_val_le_mult r by (simp add: mult_div_le)
qed

lemma MulRoundUp_bounds:
  assumes "BigDec_MulRoundUp d e = Inr r"
  shows "bd_val d * bd_val e \<le> bd_val r"
proof -
  have "bdi r = ceil_div (bdi d * bdi e) defaultBigDecPrecisionReuse"
    using assms by (auto simp: bigdec_ops split: if_splits)
  then show ?thesis unfolding mult_le_bd_val by (simp add: ceil_div_ge)
qed

lemma QuoTruncateDec_bounds:
  assumes "BigDec_QuoTruncateDec d l = Inr r" "0 \<le> bdi d" "0 < deci l"
  shows "0 \<le> bd_val r" "bd_val r \<le> bd_val d / dec_val l" "bd_val d / dec_val l < bd_val r + ulp"
proof -
  have "bdi r = bdi d * precisionReuseSDKDec div deci l"
    using assms by (auto simp: bigdec_ops sdiv_nonneg split: if_splits)
  then show "0 \<le> bd_val r" "bd_val r \<le> bd_val d / dec_val l" "bd_val d / dec_val l < bd_val r + ulp"
    using real_div_bounds [OF assms(3), of "bdi d * precisionReuseSDKDec"] assms(2,3)
    by (simp_all add: bd_val_def dec_val_def ulp_def bigdec_consts field_simps pos_imp_zdiv_nonneg_iff)
qed

lemma QuoByDecRoundUp_bounds:
  assumes "BigDec_QuoByDecRoundUp d l = Inr r" "0 < deci l"
  shows "bd_val d / dec_val l \<le> bd_val r" "bd_val r < bd_val d / dec_val l + ulp"
proof -
  have "bdi r = ceil_div (bdi d * precisionReuseSDKDec) (deci l)"
    using assms(1,2) quo_round_up_ceil [of "deci l" "bdi d * precisionReuseSDKDec"]
    by (auto simp: BigDec_QuoByDecRoundUp_def big_div_simps split: if_splits)
  then show "bd_val d / dec_val l \<le> bd_val r" "bd_val r < bd_val d / dec_val l + ulp"
    using real_ceil_div_bounds [OF assms(2), of "bdi d * precisionReuseSDKDec"] assms(2)
    by (simp_all add: bd_val_def dec_val_def ulp_def bigdec_consts field_simps)
qed

text \<open>A numerator rounded up over a denominator that is not above the exact one.\<close>

lemma quotient_rounded_up:
  assumes "BigDec_MulRoundUp L s = Inr m" "BigDec_QuoRoundUpMut m den = Inr r" "0 < bdi L" "0 < bdi s" "0 < bdi den"
    "bd_val den \<le> D"
  shows "bd_val L * bd_val s / D \<le> bd_val r"
proof -
  have v: "0 < bd_val L * bd_val s" "0 < bd_val den" using assms(3-5) by (simp_all add: bd_val_sgn)
  note m = MulRoundUp_bounds [OF assms(1)]
  have "0 \<le> bd_val m" using m v(1) by linarith
  then have mi: "0 \<le> bdi m" by (simp add: bd_val_sgn)
  have "bd_val L * bd_val s / D \<le> bd_val m / bd_val den"
    using m v assms(6) by (intro frac_le) simp_all
  with QuoRoundUpMut_bounds(1) [OF assms(2) mi assms(5)] show ?thesis by linarith
qed

section \<open>Properties\<close>

text \<open>C15: \<open>CalcAmount0Delta\<close> encloses the exact amount of token 0 between two positive square root
  prices, \<open>liq * (B - A) / (A * B)\<close>: the amount out, truncated at every step, is not above it;
  the amount in, rounded up at every step, is a whole number not below it. Both keep the
  rounding in favour of the pool, and the order of the prices does not matter.\<close>

theorem CalcAmount0Delta_favours_pool:
  assumes "0 \<le> deci liq" "0 < bdi A" "bdi A \<le> bdi B"
    "CalcAmount0Delta liq A B True = Inr amountIn" "CalcAmount0Delta liq A B False = Inr amountOut"
  defines "exact \<equiv> dec_val liq * (bd_val B - bd_val A) / (bd_val A * bd_val B)"
  shows "0 \<le> bd_val amountOut \<and>
    bd_val amountOut \<le> exact \<and>
    exact \<le> bd_val amountIn \<and>
    BigDec_IsInteger amountIn \<and>
    CalcAmount0Delta liq B A r = CalcAmount0Delta liq A B r"
  unfolding exact_def using CalcAmount0Delta_in [OF assms(1-4)] CalcAmount0Delta_out [OF assms(1-3,5)] CalcAmount0Delta_symmetric
  by blast+

theorem CalcAmount0Delta_favours_pool_witness:
  "CalcAmount0Delta (Dec (10 ^ 18)) (BigDec (2 * 10 ^ 36)) (BigDec (3 * 10 ^ 36)) True = Inr (BigDec (10 ^ 36)) \<and>
   CalcAmount0Delta (Dec (10 ^ 18)) (BigDec (2 * 10 ^ 36)) (BigDec (3 * 10 ^ 36)) False = Inr (BigDec 166666666666666666666666666666666666) \<and>
   BigDec_IsInteger (BigDec (10 ^ 36))"
proof -
  let ?liq = "Dec (10 ^ 18)" and ?A = "BigDec (2 * 10 ^ 36)" and ?B = "BigDec (3 * 10 ^ 36)"
  have i: "CalcAmount0Delta ?liq ?A ?B True = Inr (BigDec (10 ^ 36))"
    by (simp add: CalcAmount0Delta_def BigDec_GT_def bigdec_ops BigDec_Clone_def bigdec_consts ceil_div_code incBasedOnRem_def
        sdiv_nonneg smod_nonneg)
  have o: "CalcAmount0Delta ?liq ?A ?B False = Inr (BigDec 166666666666666666666666666666666666)"
    by (simp add: CalcAmount0Delta_def BigDec_GT_def bigdec_ops BigDec_Clone_def bigdec_consts sdiv_nonneg)
  show ?thesis using CalcAmount0Delta_favours_pool [OF _ _ _ i o] i o by simp
qed



text \<open>Because the product is rounded to nearest before the ceiling, the amount in can fall below
  the exact amount: with the smallest liquidity and a price difference just above \<open>10 ^ 18\<close>
  the pool is asked for exactly one unit where slightly more is due.\<close>

theorem CalcAmount1Delta_in_below_exact:
  "CalcAmount1Delta (Dec 1) (BigDec 0) (BigDec (10 ^ 54 + 4 * 10 ^ 17)) True = Inr (BigDec (10 ^ 36)) \<and>
   bd_val (BigDec (10 ^ 36)) < dec_val (Dec 1) * \<bar>bd_val (BigDec (10 ^ 54 + 4 * 10 ^ 17)) - bd_val (BigDec 0)\<bar>"
proof
  show "CalcAmount1Delta (Dec 1) (BigDec 0) (BigDec (10 ^ 54 + 4 * 10 ^ 17)) True = Inr (BigDec (10 ^ 36))"
    by (simp add: CalcAmount1Delta_def bigdec_ops BigDec_Clone_def BigDec_AbsMut_def BigDec_CeilMut_eq bigdec_consts ceil_div_code
        chopPrecisionAndRoundSdkDec.simps sdiv_nonneg smod_nonneg)
  show "bd_val (BigDec (10 ^ 36)) < dec_val (Dec 1) * \<bar>bd_val (BigDec (10 ^ 54 + 4 * 10 ^ 17)) - bd_val (BigDec 0)\<bar>"
    by (simp add: bd_val_def dec_val_def ulp_def)
qed

text \<open>C34: The next square root price never moves further than the exact formula allows in the
  direction that costs the pool: for token 0 in and token 0 out it is not below
  \<open>liq * s / (liq + in * s)\<close> and \<open>liq * s / (liq - out * s)\<close>.\<close>

theorem GetNextSqrtPrice_amount0_bounds:
  assumes "0 < bdi s" "0 < bdi L" "0 < bdi a" "GetNextSqrtPriceFromAmount0InRoundingUp s L a = Inr r"
    and "sdk_cmp_laws S" "0 < deci out" "bd_val s * dec_val out + ulp \<le> bd_val L"
      "GetNextSqrtPriceFromAmount0OutRoundingUp S s L out = Inr r'"
  shows "bd_val L * bd_val s / (bd_val L + bd_val a * bd_val s) \<le> bd_val r \<and>
    bd_val L * bd_val s / (bd_val L - dec_val out * bd_val s) \<le> bd_val r'"
proof (intro conjI)
  obtain p den m where in0: "BigDec_MulTruncate a s = Inr p" "BigDec_AddMut p L = Inr den" "BigDec_MulRoundUp L s = Inr m"
      "BigDec_QuoRoundUpMut m den = Inr r"
    using assms(3,4) by (auto simp: GetNextSqrtPriceFromAmount0InRoundingUp_def BigDec_IsZero_def big_simps)
  note p = MulTruncate_bounds [OF in0(1) less_imp_le [OF assms(3)] less_imp_le [OF assms(1)]]
  note den = AddMut_exact [OF in0(2)]
  have dp: "0 < bdi den" using p(1) assms(2) den(1) by (simp add: bd_val_sgn)
  show "bd_val L * bd_val s / (bd_val L + bd_val a * bd_val s) \<le> bd_val r"
    by (rule quotient_rounded_up [OF in0(3,4) assms(2,1) dp]) (use p den in simp)
  obtain p' den' m' where out0: "BigDec_MulRoundUpDec s out = Inr p'" "BigDec_Sub L p' = Inr den'" "BigDec_MulRoundUp L s = Inr m'"
      "BigDec_QuoRoundUpMut m' den' = Inr r'"
    using assms(5,6,8) by (auto simp: GetNextSqrtPriceFromAmount0OutRoundingUp_def sdk_cmp_laws_def)
  note p' = MulRoundUpDec_bounds [OF out0(1)]
  note den' = Sub_exact [OF out0(2)]
  have "0 < bd_val den'" using p'(2) den'(2) assms(7) by linarith
  then have dp': "0 < bdi den'" by (simp add: bd_val_sgn)
  show "bd_val L * bd_val s / (bd_val L - dec_val out * bd_val s) \<le> bd_val r'"
    by (rule quotient_rounded_up [OF out0(3,4) assms(2,1) dp']) (use p' den' in \<open>simp add: mult.commute\<close>)
qed

theorem GetNextSqrtPrice_amount0_bounds_witness:
  "GetNextSqrtPriceFromAmount0InRoundingUp (BigDec (10 ^ 36)) (BigDec (10 ^ 36)) (BigDec (10 ^ 36)) = Inr (BigDec (5 * 10 ^ 35)) \<and>
   bd_val (BigDec (10 ^ 36)) * bd_val (BigDec (10 ^ 36)) / (bd_val (BigDec (10 ^ 36)) + bd_val (BigDec (10 ^ 36)) * bd_val (BigDec (10 ^ 36)))
     \<le> bd_val (BigDec (5 * 10 ^ 35))"
proof -
  let ?P = "BigDec (10 ^ 36)" and ?out = "Dec (5 * 10 ^ 17)"
  have i: "GetNextSqrtPriceFromAmount0InRoundingUp ?P ?P ?P = Inr (BigDec (5 * 10 ^ 35))"
    by (simp add: GetNextSqrtPriceFromAmount0InRoundingUp_def BigDec_IsZero_def bigdec_ops bigdec_consts ceil_div_code
        incBasedOnRem_def sdiv_nonneg smod_nonneg)
  have o: "GetNextSqrtPriceFromAmount0OutRoundingUp plain_sdk ?P ?P ?out = Inr (BigDec (2 * 10 ^ 36))"
    by (simp add: GetNextSqrtPriceFromAmount0OutRoundingUp_def plain_sdk_def bigdec_ops BigDec_Clone_def bigdec_consts ceil_div_code
        incBasedOnRem_def sdiv_nonneg smod_nonneg)
  have laws: "sdk_cmp_laws plain_sdk" using plain_sdk_laws by (simp add: sdk_laws_def)
  have "bd_val ?P * dec_val ?out + ulp \<le> bd_val ?P" by (simp add: bd_val_def dec_val_def ulp_def)
  from GetNextSqrtPrice_amount0_bounds [OF _ _ _ i laws _ this o] i show ?thesis by simp
qed

text \<open>For token 1 the next square root price is the exact one rounded down by less than one unit
  in the last place: \<open>s + in / liq\<close>, never below the current price, and \<open>s - out / liq\<close>.\<close>

theorem GetNextSqrtPrice_amount1_bounds:
  assumes "0 < deci L" "0 \<le> bdi a" "GetNextSqrtPriceFromAmount1InRoundingDown s L a = Inr r"
    "GetNextSqrtPriceFromAmount1OutRoundingDown s L out = Inr r'"
  shows "bd_val s \<le> bd_val r \<and>
    bd_val r \<le> bd_val s + bd_val a / dec_val L \<and>
    bd_val s + bd_val a / dec_val L < bd_val r + ulp \<and>
    bd_val r' \<le> bd_val s - bd_val out / dec_val L \<and>
    bd_val s - bd_val out / dec_val L < bd_val r' + ulp"
proof (intro conjI)
  obtain q where q: "BigDec_QuoTruncateDec a L = Inr q" "BigDec_AddMut q s = Inr r"
    using assms(3) by (auto simp: GetNextSqrtPriceFromAmount1InRoundingDown_def)
  note q' = QuoTruncateDec_bounds [OF q(1) assms(2,1)] AddMut_exact(2) [OF q(2)]
  then show "bd_val s \<le> bd_val r" "bd_val r \<le> bd_val s + bd_val a / dec_val L" "bd_val s + bd_val a / dec_val L < bd_val r + ulp"
    by linarith+
  obtain p where p: "BigDec_QuoByDecRoundUp out L = Inr p" "BigDec_Sub s p = Inr r'"
    using assms(4) by (auto simp: GetNextSqrtPriceFromAmount1OutRoundingDown_def)
  from QuoByDecRoundUp_bounds [OF p(1) assms(1)] Sub_exact(2) [OF p(2)]
  show "bd_val r' \<le> bd_val s - bd_val out / dec_val L" "bd_val s - bd_val out / dec_val L < bd_val r' + ulp" by linarith+
qed

theorem GetNextSqrtPrice_amount1_bounds_witness:
  "GetNextSqrtPriceFromAmount1InRoundingDown (BigDec 5) (Dec (3 * 10 ^ 18)) (BigDec 10) = Inr (BigDec 8) \<and>
   GetNextSqrtPriceFromAmount1OutRoundingDown (BigDec 5) (Dec (3 * 10 ^ 18)) (BigDec 10) = Inr (BigDec 1) \<and> bd_val (BigDec 5) \<le> bd_val (BigDec 8)"
proof -
  have i: "GetNextSqrtPriceFromAmount1InRoundingDown (BigDec 5) (Dec (3 * 10 ^ 18)) (BigDec 10) = Inr (BigDec 8)"
    by (simp add: GetNextSqrtPriceFromAmount1InRoundingDown_def bigdec_ops bigdec_consts sdiv_nonneg)
  have o: "GetNextSqrtPriceFromAmount1OutRoundingDown (BigDec 5) (Dec (3 * 10 ^ 18)) (BigDec 10) = Inr (BigDec 1)"
    by (simp add: GetNextSqrtPriceFromAmount1OutRoundingDown_def bigdec_ops BigDec_Clone_def bigdec_consts sdiv_nonneg smod_nonneg)
  show ?thesis using GetNextSqrtPrice_amount1_bounds [OF _ _ i o] i o by simp
qed

text \<open>Rounding up can also move the price the wrong way: at the square root price \<open>10 ^ -12\<close> and
  liquidity about one, swapping in the smallest amount of token 0 returns a square root price
  above the current one, where the price should decrease.\<close>

theorem GetNextSqrtPrice_amount0_can_rise:
  "GetNextSqrtPriceFromAmount0InRoundingUp (BigDec (10 ^ 24)) (BigDec (10 ^ 36 + 1)) (BigDec (10 ^ 18)) = Inr (BigDec (10 ^ 24 + 1))"
  by (simp add: GetNextSqrtPriceFromAmount0InRoundingUp_def BigDec_IsZero_def bigdec_ops bigdec_consts ceil_div_code
      incBasedOnRem_def sdiv_nonneg smod_nonneg)

end
