(* ===== verification/Swap_Strategy.thy ===== *)
theory Swap_Strategy
  imports CL_Math CL_SqrtTick
begin

text \<open>
  \<open>x/concentrated-liquidity/swapstrategy\<close>: one step of a swap within the bucket of the current
  tick, in the two directions, with the spread reward charged on the amount in. The store key
  of the Go structs is left out: the search of the next tick is in \<open>Tick_Keys\<close>.
\<close>

section \<open>Limits of the square root price\<close>

definition MaxSqrtPrice :: "sdk \<Rightarrow> Dec res" where
  "MaxSqrtPrice S = MustMonotonicSqrt (Dec_IsNegative S) MaxSpotPrice"

definition MinSqrtPrice :: "sdk \<Rightarrow> Dec res" where
  "MinSqrtPrice S = MustMonotonicSqrt (Dec_IsNegative S) MinSpotPrice"

definition MaxSqrtPriceBigDec :: "sdk \<Rightarrow> BigDec res" where
  "MaxSqrtPriceBigDec S = bindE (MaxSqrtPrice S) BigDecFromDec"

definition MinSqrtPriceBigDec :: "sdk \<Rightarrow> BigDec res" where
  "MinSqrtPriceBigDec S = bindE (MinSqrtPrice S) BigDecFromDec"

definition GetPriceLimit :: "bool \<Rightarrow> BigDec" where
  "GetPriceLimit zeroForOne = (if zeroForOne then MinSpotPriceBigDec else MaxSpotPriceBigDec)"

definition GetSqrtPriceLimit :: "sdk \<Rightarrow> BigDec \<Rightarrow> bool \<Rightarrow> BigDec res" where
  "GetSqrtPriceLimit S priceLimit zeroForOne =
    (if BigDec_IsZero priceLimit then (if zeroForOne then MinSqrtPriceBigDec S else MaxSqrtPriceBigDec S)
     else if BigDec_LT priceLimit MinSpotPriceV2 \<or> BigDec_GT priceLimit MaxSpotPriceBigDec then Inl (Err ''PriceBoundError'')
     else if BigDec_GTE priceLimit MinSpotPriceBigDec then
       bindE (BigDec_Dec priceLimit) (\<lambda>d.
       bindE (MonotonicSqrtMut (Dec_IsNegative S) d) BigDecFromDecMut)
     else MonotonicSqrtBigDec priceLimit)"

section \<open>Spread rewards\<close>

definition computeSpreadRewardChargeFromAmountIn :: "sdk \<Rightarrow> Dec \<Rightarrow> Dec \<Rightarrow> Dec res" where
  "computeSpreadRewardChargeFromAmountIn S amountIn spreadFactorOverOneMinusSpreadFactor =
    Dec_MulRoundUp S amountIn spreadFactorOverOneMinusSpreadFactor"

text \<open>The getter is only called when the target was reached, so it is passed as a result.\<close>

definition computeSpreadRewardChargePerSwapStepOutGivenIn ::
  "sdk \<Rightarrow> bool \<Rightarrow> Dec \<Rightarrow> Dec \<Rightarrow> Dec \<Rightarrow> Dec res \<Rightarrow> Dec res" where
  "computeSpreadRewardChargePerSwapStepOutGivenIn S hasReachedTarget amountIn amountSpecifiedRemaining spreadFactor SfOveroneMinSf =
    (if Dec_IsZero S spreadFactor then Inr (Dec 0)
     else if Dec_IsNegative S spreadFactor then Inl (Panic ''spread factor must be non-negative'')
     else
       bindE (if hasReachedTarget then bindE SfOveroneMinSf (computeSpreadRewardChargeFromAmountIn S amountIn)
              else Dec_Sub S amountSpecifiedRemaining amountIn) (\<lambda>spreadRewardChargeTotal.
       if Dec_IsNegative S spreadRewardChargeTotal then Inl (Panic ''spread factor charge must be non-negative'')
       else Inr spreadRewardChargeTotal))"

section \<open>The two strategies\<close>

text \<open>The fields the two Go structs share; a nil \<open>Dec\<close> is \<open>None\<close>.\<close>

record strategy =
  sqrtPriceLimit :: BigDec
  spreadFactor :: Dec
  oneMinusSpreadFactor :: "Dec option"
  spfOverOneMinusSpf :: "Dec option"

datatype SwapStrategy = zeroForOneStrategy strategy | oneForZeroStrategy strategy

definition New :: "bool \<Rightarrow> BigDec \<Rightarrow> Dec \<Rightarrow> SwapStrategy" where
  "New zeroForOne limit spf =
    (let s = \<lparr>sqrtPriceLimit = limit, spreadFactor = spf, oneMinusSpreadFactor = None, spfOverOneMinusSpf = None\<rparr> in
     if zeroForOne then zeroForOneStrategy s else oneForZeroStrategy s)"

definition ZeroForOne :: "SwapStrategy \<Rightarrow> bool" where
  "ZeroForOne s = (case s of zeroForOneStrategy _ \<Rightarrow> True | oneForZeroStrategy _ \<Rightarrow> False)"

definition oneDec :: Dec where
  "oneDec = Dec precisionReuseSDKDec"

text \<open>The receivers are values: what the two getters cache is lost with the copy.\<close>

definition getOneMinusSpreadFactor :: "sdk \<Rightarrow> strategy \<Rightarrow> Dec res" where
  "getOneMinusSpreadFactor S s = (case oneMinusSpreadFactor s of None \<Rightarrow> Dec_Sub S oneDec (spreadFactor s) | Some d \<Rightarrow> Inr d)"

definition getSpfOverOneMinusSpf :: "sdk \<Rightarrow> strategy \<Rightarrow> Dec res" where
  "getSpfOverOneMinusSpf S s = (case spfOverOneMinusSpf s of
     None \<Rightarrow> bindE (getOneMinusSpreadFactor S s) (Dec_QuoRoundUp S (spreadFactor s))
   | Some d \<Rightarrow> Inr d)"

subsection \<open>Token zero in, token one out\<close>

definition zfo_GetSqrtTargetPrice :: "strategy \<Rightarrow> BigDec \<Rightarrow> BigDec" where
  "zfo_GetSqrtTargetPrice s nextTickSqrtPrice =
    (if BigDec_LT nextTickSqrtPrice (sqrtPriceLimit s) then sqrtPriceLimit s else nextTickSqrtPrice)"

definition zfo_ComputeSwapWithinBucketOutGivenIn ::
  "sdk \<Rightarrow> strategy \<Rightarrow> BigDec \<Rightarrow> BigDec \<Rightarrow> Dec \<Rightarrow> Dec \<Rightarrow> (BigDec \<times> Dec \<times> Dec \<times> Dec) res" where
  "zfo_ComputeSwapWithinBucketOutGivenIn S s sqrtPriceCurrent sqrtPriceTarget liquidity amountZeroInRemaining =
    bindE (BigDecFromDec liquidity) (\<lambda>liquidityBigDec.
    bindE (CalcAmount0Delta liquidity sqrtPriceTarget sqrtPriceCurrent True) (\<lambda>amountZeroIn0.
    bindE (getOneMinusSpreadFactor S s) (\<lambda>oneMinusTakerFee.
    let amountZeroInRemainingLessSpreadReward = NewBigDecFromDecMulDec amountZeroInRemaining oneMinusTakerFee in
    bindE (if BigDec_GTE amountZeroInRemainingLessSpreadReward amountZeroIn0 then Inr sqrtPriceTarget
           else GetNextSqrtPriceFromAmount0InRoundingUp sqrtPriceCurrent liquidityBigDec amountZeroInRemainingLessSpreadReward)
      (\<lambda>sqrtPriceNext.
    let hasReachedTarget = BigDec_Equal sqrtPriceTarget sqrtPriceNext in
    bindE (if \<not> hasReachedTarget then CalcAmount0Delta liquidity sqrtPriceNext sqrtPriceCurrent True else Inr amountZeroIn0)
      (\<lambda>amountZeroIn.
    bindE (CalcAmount1Delta liquidity sqrtPriceNext sqrtPriceCurrent False) (\<lambda>amountOneOut.
    bindE (BigDec_DecRoundUp amountZeroIn) (\<lambda>amountZeroInFinal.
    bindE (computeSpreadRewardChargePerSwapStepOutGivenIn S hasReachedTarget amountZeroInFinal amountZeroInRemaining
             (spreadFactor s) (getSpfOverOneMinusSpf S s)) (\<lambda>spreadRewardChargeTotal.
    bindE (BigDec_Dec amountOneOut) (\<lambda>out.
    Inr (sqrtPriceNext, amountZeroInFinal, out, spreadRewardChargeTotal))))))))))"

definition zfo_ComputeSwapWithinBucketInGivenOut ::
  "sdk \<Rightarrow> strategy \<Rightarrow> BigDec \<Rightarrow> BigDec \<Rightarrow> Dec \<Rightarrow> Dec \<Rightarrow> (BigDec \<times> Dec \<times> Dec \<times> Dec) res" where
  "zfo_ComputeSwapWithinBucketInGivenOut S s sqrtPriceCurrent sqrtPriceTarget liquidity amountOneRemainingOut =
    bindE (BigDecFromDec amountOneRemainingOut) (\<lambda>amountOneRemainingOutBigDec.
    bindE (CalcAmount1Delta liquidity sqrtPriceTarget sqrtPriceCurrent False) (\<lambda>amountOneOut0.
    bindE (if BigDec_GTE amountOneRemainingOutBigDec amountOneOut0 then Inr sqrtPriceTarget
           else GetNextSqrtPriceFromAmount1OutRoundingDown sqrtPriceCurrent liquidity amountOneRemainingOutBigDec)
      (\<lambda>sqrtPriceNext.
    let hasReachedTarget = BigDec_Equal sqrtPriceTarget sqrtPriceNext in
    bindE (if \<not> hasReachedTarget then CalcAmount1Delta liquidity sqrtPriceNext sqrtPriceCurrent False else Inr amountOneOut0)
      (\<lambda>amountOneOut1.
    bindE (CalcAmount0Delta liquidity sqrtPriceNext sqrtPriceCurrent True) (\<lambda>amountZeroIn.
    bindE (BigDec_DecRoundUp amountZeroIn) (\<lambda>amountZeroInFinal.
    bindE (getSpfOverOneMinusSpf S s) (\<lambda>spf.
    bindE (computeSpreadRewardChargeFromAmountIn S amountZeroInFinal spf) (\<lambda>spreadRewardChargeTotal.
    let amountOneOut = (if BigDec_GT amountOneOut1 amountOneRemainingOutBigDec then amountOneRemainingOutBigDec else amountOneOut1) in
    bindE (BigDec_Dec amountOneOut) (\<lambda>out.
    Inr (sqrtPriceNext, out, amountZeroInFinal, spreadRewardChargeTotal))))))))))"

definition zfo_SetLiquidityDeltaSign :: "sdk \<Rightarrow> Dec \<Rightarrow> Dec" where
  "zfo_SetLiquidityDeltaSign S deltaLiquidity = Dec_Neg S deltaLiquidity"

definition zfo_UpdateTickAfterCrossing :: "int \<Rightarrow> int" where
  "zfo_UpdateTickAfterCrossing nextTick = int64 (nextTick - 1)"

definition zfo_ValidateSqrtPrice :: "sdk \<Rightarrow> BigDec \<Rightarrow> BigDec \<Rightarrow> unit res" where
  "zfo_ValidateSqrtPrice S sqrtPrice currentSqrtPrice =
    bindE (MinSqrtPriceBigDec S) (\<lambda>minSqrt.
    if BigDec_GT sqrtPrice currentSqrtPrice \<or> BigDec_LT sqrtPrice minSqrt then Inl (Err ''SqrtPriceValidationError'') else Inr ())"

subsection \<open>Token one in, token zero out\<close>

definition ofz_GetSqrtTargetPrice :: "strategy \<Rightarrow> BigDec \<Rightarrow> BigDec" where
  "ofz_GetSqrtTargetPrice s nextTickSqrtPrice =
    (if BigDec_GT nextTickSqrtPrice (sqrtPriceLimit s) then sqrtPriceLimit s else nextTickSqrtPrice)"

definition ofz_ComputeSwapWithinBucketOutGivenIn ::
  "sdk \<Rightarrow> strategy \<Rightarrow> BigDec \<Rightarrow> BigDec \<Rightarrow> Dec \<Rightarrow> Dec \<Rightarrow> (BigDec \<times> Dec \<times> Dec \<times> Dec) res" where
  "ofz_ComputeSwapWithinBucketOutGivenIn S s sqrtPriceCurrent sqrtPriceTarget liquidity amountOneInRemaining =
    bindE (CalcAmount1Delta liquidity sqrtPriceTarget sqrtPriceCurrent True) (\<lambda>amountOneIn0.
    bindE (getOneMinusSpreadFactor S s) (\<lambda>oneMinusTakerFee.
    let amountOneInRemainingLessSpreadReward = NewBigDecFromDecMulDec amountOneInRemaining oneMinusTakerFee in
    bindE (if BigDec_GTE amountOneInRemainingLessSpreadReward amountOneIn0 then Inr sqrtPriceTarget
           else GetNextSqrtPriceFromAmount1InRoundingDown sqrtPriceCurrent liquidity amountOneInRemainingLessSpreadReward)
      (\<lambda>sqrtPriceNext.
    let hasReachedTarget = BigDec_Equal sqrtPriceTarget sqrtPriceNext in
    bindE (if \<not> hasReachedTarget then CalcAmount1Delta liquidity sqrtPriceNext sqrtPriceCurrent True else Inr amountOneIn0)
      (\<lambda>amountOneIn.
    bindE (CalcAmount0Delta liquidity sqrtPriceNext sqrtPriceCurrent False) (\<lambda>amountZeroOut.
    bindE (BigDec_DecRoundUp amountOneIn) (\<lambda>amountInDecFinal.
    bindE (computeSpreadRewardChargePerSwapStepOutGivenIn S hasReachedTarget amountInDecFinal amountOneInRemaining
             (spreadFactor s) (getSpfOverOneMinusSpf S s)) (\<lambda>spreadRewardChargeTotal.
    bindE (BigDec_Dec amountZeroOut) (\<lambda>out.
    Inr (sqrtPriceNext, amountInDecFinal, out, spreadRewardChargeTotal)))))))))"

definition ofz_ComputeSwapWithinBucketInGivenOut ::
  "sdk \<Rightarrow> strategy \<Rightarrow> BigDec \<Rightarrow> BigDec \<Rightarrow> Dec \<Rightarrow> Dec \<Rightarrow> (BigDec \<times> Dec \<times> Dec \<times> Dec) res" where
  "ofz_ComputeSwapWithinBucketInGivenOut S s sqrtPriceCurrent sqrtPriceTarget liquidity amountZeroRemainingOut =
    bindE (BigDecFromDec liquidity) (\<lambda>liquidityBigDec.
    bindE (BigDecFromDec amountZeroRemainingOut) (\<lambda>amountZeroRemainingOutBigDec.
    bindE (CalcAmount0Delta liquidity sqrtPriceTarget sqrtPriceCurrent False) (\<lambda>amountZeroOut0.
    bindE (if BigDec_GTE amountZeroRemainingOutBigDec amountZeroOut0 then Inr sqrtPriceTarget
           else GetNextSqrtPriceFromAmount0OutRoundingUp S sqrtPriceCurrent liquidityBigDec amountZeroRemainingOut)
      (\<lambda>sqrtPriceNext.
    let hasReachedTarget = BigDec_Equal sqrtPriceTarget sqrtPriceNext in
    bindE (if \<not> hasReachedTarget then CalcAmount0Delta liquidity sqrtPriceNext sqrtPriceCurrent False else Inr amountZeroOut0)
      (\<lambda>amountZeroOut1.
    bindE (CalcAmount1Delta liquidity sqrtPriceNext sqrtPriceCurrent True) (\<lambda>amountOneIn.
    bindE (BigDec_DecRoundUp amountOneIn) (\<lambda>amountOneInFinal.
    bindE (getSpfOverOneMinusSpf S s) (\<lambda>spf.
    bindE (computeSpreadRewardChargeFromAmountIn S amountOneInFinal spf) (\<lambda>spreadRewardChargeTotal.
    let amountZeroOut = (if BigDec_GT amountZeroOut1 amountZeroRemainingOutBigDec then amountZeroRemainingOutBigDec else amountZeroOut1) in
    bindE (BigDec_Dec amountZeroOut) (\<lambda>out.
    Inr (sqrtPriceNext, out, amountOneInFinal, spreadRewardChargeTotal)))))))))))"

definition ofz_SetLiquidityDeltaSign :: "Dec \<Rightarrow> Dec" where
  "ofz_SetLiquidityDeltaSign deltaLiquidity = deltaLiquidity"

definition ofz_UpdateTickAfterCrossing :: "int \<Rightarrow> int" where
  "ofz_UpdateTickAfterCrossing nextTick = nextTick"

definition ofz_ValidateSqrtPrice :: "sdk \<Rightarrow> BigDec \<Rightarrow> BigDec \<Rightarrow> unit res" where
  "ofz_ValidateSqrtPrice S sqrtPrice currentSqrtPrice =
    bindE (MaxSqrtPriceBigDec S) (\<lambda>maxSqrt.
    if BigDec_LT sqrtPrice currentSqrtPrice \<or> BigDec_GT sqrtPrice maxSqrt then Inl (Err ''SqrtPriceValidationError'') else Inr ())"

section \<open>Exact amounts between two square root prices\<close>

definition exact0 :: "Dec \<Rightarrow> BigDec \<Rightarrow> BigDec \<Rightarrow> real" where
  "exact0 liq a b = dec_val liq * \<bar>bd_val b - bd_val a\<bar> / (bd_val a * bd_val b)"

definition exact1 :: "Dec \<Rightarrow> BigDec \<Rightarrow> BigDec \<Rightarrow> real" where
  "exact1 liq a b = dec_val liq * \<bar>bd_val b - bd_val a\<bar>"

lemma exact_symmetric: "exact0 liq b a = exact0 liq a b" "exact1 liq b a = exact1 liq a b"
  by (simp_all add: exact0_def exact1_def abs_minus_commute mult.commute)

lemma exact0_ordered: "bdi a \<le> bdi b \<Longrightarrow> exact0 liq a b = dec_val liq * (bd_val b - bd_val a) / (bd_val a * bd_val b)"
  by (simp add: exact0_def bd_val_mono)

lemma CalcAmount0Delta_in_exact:
  assumes "0 \<le> deci liq" "0 < bdi a" "0 < bdi b" "CalcAmount0Delta liq a b True = Inr r"
  shows "exact0 liq a b \<le> bd_val r \<and> BigDec_IsInteger r"
proof (cases "bdi a \<le> bdi b")
  case True
  with CalcAmount0Delta_in [OF assms(1,2) True assms(4)] show ?thesis by (simp only: exact0_ordered simp_thms)
next
  case False
  then have le: "bdi b \<le> bdi a" by simp
  have "CalcAmount0Delta liq b a True = Inr r" using assms(4) by (simp only: CalcAmount0Delta_symmetric [of liq b a])
  from CalcAmount0Delta_in [OF assms(1,3) le this] show ?thesis
    unfolding exact_symmetric(1) [of liq a b] exact0_ordered [OF le] by blast
qed

lemma CalcAmount0Delta_out_exact:
  assumes "0 \<le> deci liq" "0 < bdi a" "0 < bdi b" "CalcAmount0Delta liq a b False = Inr r"
  shows "0 \<le> bd_val r \<and> bd_val r \<le> exact0 liq a b"
proof (cases "bdi a \<le> bdi b")
  case True
  with CalcAmount0Delta_out [OF assms(1,2) True assms(4)] show ?thesis by (simp only: exact0_ordered simp_thms)
next
  case False
  then have le: "bdi b \<le> bdi a" by simp
  have "CalcAmount0Delta liq b a False = Inr r" using assms(4) by (simp only: CalcAmount0Delta_symmetric [of liq b a])
  from CalcAmount0Delta_out [OF assms(1,3) le this] show ?thesis
    unfolding exact_symmetric(1) [of liq a b] exact0_ordered [OF le] by blast
qed

lemma CalcAmount1Delta_in_exact:
  assumes "0 \<le> deci liq" "CalcAmount1Delta liq a b True = Inr r"
  shows "exact1 liq a b - ulp / 2 \<le> bd_val r"
proof -
  obtain d m where d: "BigDec_Sub b a = Inr d" "BigDec_MulDecMut (BigDec_AbsMut d) liq = Inr m" "BigDec_CeilMut m = Inr r"
    using assms(2) by (auto simp: CalcAmount1Delta_def elim!: bindE_InrE)
  have "exact1 liq a b = bd_val (BigDec_AbsMut d) * dec_val liq"
    using Sub_exact(2) [OF d(1)] bd_val_Abs [of d] by (simp add: exact1_def BigDec_AbsMut_def BigDec_Abs_def)
  then show ?thesis using MulDecMut_bounds [OF d(2)] CeilMut_bounds [OF d(3)] by linarith
qed

lemma CalcAmount1Delta_out_exact:
  assumes "0 \<le> deci liq" "CalcAmount1Delta liq a b False = Inr r"
  shows "0 \<le> bd_val r \<and> bd_val r \<le> exact1 liq a b"
proof -
  obtain d where d: "BigDec_Sub b a = Inr d" "BigDec_MulTruncateDec (BigDec_AbsMut d) liq = Inr r"
    using assms(2) by (auto simp: CalcAmount1Delta_def elim!: bindE_InrE)
  have e: "exact1 liq a b = bd_val (BigDec_AbsMut d) * dec_val liq"
    using Sub_exact(2) [OF d(1)] bd_val_Abs [of d] by (simp add: exact1_def BigDec_AbsMut_def BigDec_Abs_def)
  have "0 \<le> bdi (BigDec_AbsMut d)" by (simp add: BigDec_AbsMut_def)
  from MulTruncateDec_bounds [OF d(2) this assms(1)] show ?thesis unfolding e by linarith
qed

lemma DecRoundUp_ge:
  assumes "BigDec_DecRoundUp d = Inr r"
  shows "bd_val d \<le> dec_val r"
proof -
  let ?F = bigDecDecPrecisionFactorDiff
  have F: "0 < ?F" by (simp add: bigdec_consts)
  have r: "deci r = incBasedOnRem (bdi d smod ?F) (bdi d sdiv ?F)" using assms by (auto simp: BigDec_DecRoundUp_eq)
  have "bdi d \<le> deci r * ?F"
  proof (cases "0 \<le> bdi d")
    case True
    then show ?thesis unfolding r using F ceil_div_ge [OF F, of "bdi d"] by (simp add: incBasedOnRem_ceil mult.commute)
  next
    case False
    then have "bdi d \<le> bdi d sdiv ?F * ?F" using F ceil_div_ge [OF F, of "bdi d"] by (simp add: sdiv_neg ceil_div_def mult.commute)
    also have "\<dots> \<le> deci r * ?F" unfolding r using F by (intro mult_right_mono) (simp_all add: incBasedOnRem_def)
    finally show ?thesis .
  qed
  then have "bd_val d \<le> bd_val (BigDec (deci r * ?F))" by (simp add: bd_val_mono)
  also have "\<dots> = dec_val r" by (simp add: bd_val_def dec_val_def ulp_def bigdec_consts)
  finally show ?thesis .
qed

lemma Dec_truncates:
  assumes "BigDec_Dec d = Inr r" "0 \<le> bdi d"
  shows "0 \<le> dec_val r" "dec_val r \<le> bd_val d"
proof -
  let ?F = bigDecDecPrecisionFactorDiff
  have r: "deci r = bdi d div ?F" using assms by (auto simp: BigDec_Dec_eq sdiv_nonneg bigdec_consts)
  show "0 \<le> dec_val r" using assms(2) by (simp add: dec_val_nonneg r pos_imp_zdiv_nonneg_iff bigdec_consts)
  have "deci r * ?F \<le> bdi d" unfolding r using mult_div_le [of ?F "bdi d"] by (simp add: mult.commute bigdec_consts)
  then have "bd_val (BigDec (deci r * ?F)) \<le> bd_val d" by (simp add: bd_val_mono)
  moreover have "bd_val (BigDec (deci r * ?F)) = dec_val r" by (simp add: bd_val_def dec_val_def ulp_def bigdec_consts)
  ultimately show "dec_val r \<le> bd_val d" by simp
qed

lemma sdiv_mono: "a \<le> b \<Longrightarrow> 0 < d \<Longrightarrow> a sdiv d \<le> b sdiv d" for a b d :: int
  by (cases "0 \<le> a"; cases "0 \<le> b")
    (auto simp: sdiv_nonneg sdiv_neg zdiv_mono1 pos_imp_zdiv_nonneg_iff intro: order_trans [of _ 0])

section \<open>The contract of a swap step\<close>

text \<open>
  What both strategies promise of a step from \<open>c\<close> towards the target \<open>t\<close>: the amounts are those of
  the price range actually covered, by one routine for the token in and one for the token out,
  converted to 18 decimals up and down; the spread reward is computed from the amount in; and
  for an exact output the amount out is capped by what remains.
\<close>

locale swap_step =
  fixes S :: sdk and s :: strategy
    and out_given_in in_given_out :: "BigDec \<Rightarrow> BigDec \<Rightarrow> Dec \<Rightarrow> Dec \<Rightarrow> (BigDec \<times> Dec \<times> Dec \<times> Dec) res"
    and delta_in delta_out :: "Dec \<Rightarrow> BigDec \<Rightarrow> BigDec \<Rightarrow> BigDec res"
    and exact_in exact_out :: "Dec \<Rightarrow> BigDec \<Rightarrow> BigDec \<Rightarrow> real" and slack :: real
  assumes ogi: "out_given_in c t liq rem = Inr (n, ain, aout, fee) \<Longrightarrow>
      \<exists>i u. delta_in liq n c = Inr i \<and> delta_out liq n c = Inr u \<and> BigDec_DecRoundUp i = Inr ain \<and> BigDec_Dec u = Inr aout \<and>
        computeSpreadRewardChargePerSwapStepOutGivenIn S (t = n) ain rem (spreadFactor s) (getSpfOverOneMinusSpf S s) = Inr fee"
    and igo: "in_given_out c t liq rem = Inr (n, aout, ain, fee) \<Longrightarrow>
      \<exists>i u. delta_in liq n c = Inr i \<and> delta_out liq n c = Inr u \<and> BigDec_DecRoundUp i = Inr ain \<and>
        BigDec_Dec (BigDec (min (bdi u) (deci rem * bigDecDecPrecisionFactorDiff))) = Inr aout \<and>
        bindE (getSpfOverOneMinusSpf S s) (computeSpreadRewardChargeFromAmountIn S ain) = Inr fee"
    and delta_in_up: "0 \<le> deci liq \<Longrightarrow> 0 < bdi a \<Longrightarrow> 0 < bdi b \<Longrightarrow> delta_in liq a b = Inr r \<Longrightarrow> exact_in liq a b - slack \<le> bd_val r"
    and delta_out_down: "0 \<le> deci liq \<Longrightarrow> 0 < bdi a \<Longrightarrow> 0 < bdi b \<Longrightarrow> delta_out liq a b = Inr r \<Longrightarrow>
      0 \<le> bd_val r \<and> bd_val r \<le> exact_out liq a b"
begin

lemma step_amounts:
  assumes "0 \<le> deci liq" "0 < bdi c" "0 < bdi n"
    and "out_given_in c t liq rem = Inr (n, ain, aout, fee) \<or> in_given_out c t liq rem = Inr (n, aout, ain, fee) \<and> 0 \<le> deci rem"
  shows "exact_in liq n c - slack \<le> dec_val ain" "0 \<le> dec_val aout" "dec_val aout \<le> exact_out liq n c"
proof -
  have "\<exists>i u u'. delta_in liq n c = Inr i \<and> BigDec_DecRoundUp i = Inr ain \<and> delta_out liq n c = Inr u \<and> BigDec_Dec u' = Inr aout \<and>
    bdi u' \<le> bdi u \<and> (0 \<le> bdi u \<longrightarrow> 0 \<le> bdi u')"
    using assms(4)
  proof
    assume "out_given_in c t liq rem = Inr (n, ain, aout, fee)"
    from ogi [OF this] show ?thesis by blast
  next
    assume r: "in_given_out c t liq rem = Inr (n, aout, ain, fee) \<and> 0 \<le> deci rem"
    then obtain i u where "delta_in liq n c = Inr i" "BigDec_DecRoundUp i = Inr ain" "delta_out liq n c = Inr u"
      "BigDec_Dec (BigDec (min (bdi u) (deci rem * bigDecDecPrecisionFactorDiff))) = Inr aout"
      using igo by blast
    moreover have "0 \<le> deci rem * bigDecDecPrecisionFactorDiff" using r by (simp add: bigdec_consts)
    then have "bdi (BigDec (min (bdi u) (deci rem * bigDecDecPrecisionFactorDiff))) \<le> bdi u"
      "0 \<le> bdi u \<longrightarrow> 0 \<le> bdi (BigDec (min (bdi u) (deci rem * bigDecDecPrecisionFactorDiff)))" by simp_all
    ultimately show ?thesis by blast
  qed
  then obtain i u u' where io: "delta_in liq n c = Inr i" "BigDec_DecRoundUp i = Inr ain" "delta_out liq n c = Inr u" "BigDec_Dec u' = Inr aout"
    "bdi u' \<le> bdi u" "0 \<le> bdi u \<longrightarrow> 0 \<le> bdi u'" by blast
  have o: "0 \<le> bd_val u" "bd_val u \<le> exact_out liq n c" using delta_out_down [OF assms(1,3,2) io(3)] by blast+
  have o0: "0 \<le> bdi u'" using o(1) io(6) by (simp add: bd_val_sgn)
  have "exact_in liq n c - slack \<le> bd_val i" using delta_in_up [OF assms(1,3,2) io(1)] .
  also have "\<dots> \<le> dec_val ain" by (rule DecRoundUp_ge [OF io(2)])
  finally show "exact_in liq n c - slack \<le> dec_val ain" .
  show "0 \<le> dec_val aout" using Dec_truncates(1) [OF io(4) o0] .
  have "dec_val aout \<le> bd_val u'" using Dec_truncates(2) [OF io(4) o0] .
  also have "\<dots> \<le> bd_val u" using io(5) by (simp add: bd_val_mono)
  finally show "dec_val aout \<le> exact_out liq n c" using o(2) by linarith
qed

lemma step_charge:
  assumes "sdk_laws S" "out_given_in c t liq rem = Inr (n, ain, aout, fee)"
  shows "0 \<le> deci fee" "deci (spreadFactor s) \<noteq> 0 \<Longrightarrow> n \<noteq> t \<Longrightarrow> deci ain + deci fee = deci rem"
proof -
  have z: "Dec_IsZero S d \<longleftrightarrow> deci d = 0" "Dec_IsNegative S d \<longleftrightarrow> deci d < 0" for d
    using assms(1) by (simp_all add: sdk_laws_def sdk_cmp_laws_def)
  have sub: "Dec_Sub S rem ain = Inr d \<Longrightarrow> deci d = deci rem - deci ain" for d
    using assms(1) by (simp add: sdk_laws_def sdk_dec_laws_def)
  have c: "computeSpreadRewardChargePerSwapStepOutGivenIn S (t = n) ain rem (spreadFactor s) (getSpfOverOneMinusSpf S s) = Inr fee"
    using ogi [OF assms(2)] by blast
  then show "0 \<le> deci fee"
    unfolding computeSpreadRewardChargePerSwapStepOutGivenIn_def z by (auto elim!: bindE_InrE split: if_splits)
  show "deci ain + deci fee = deci rem" if "deci (spreadFactor s) \<noteq> 0" "n \<noteq> t"
    using c that unfolding computeSpreadRewardChargePerSwapStepOutGivenIn_def z
    by (auto elim!: bindE_InrE dest: sub split: if_splits)
qed

lemma step_cap:
  assumes "in_given_out c t liq rem = Inr (n, aout, ain, fee)" "0 \<le> deci rem"
  shows "deci aout \<le> deci rem"
proof -
  obtain u where "BigDec_Dec (BigDec (min u (deci rem * bigDecDecPrecisionFactorDiff))) = Inr aout"
    using igo [OF assms(1)] by blast
  then have "deci aout = min u (deci rem * bigDecDecPrecisionFactorDiff) sdiv bigDecDecPrecisionFactorDiff" by (auto simp: BigDec_Dec_eq)
  also have "\<dots> \<le> deci rem * bigDecDecPrecisionFactorDiff sdiv bigDecDecPrecisionFactorDiff"
    by (intro sdiv_mono) (simp_all add: bigdec_consts)
  finally show ?thesis by (simp add: sdiv_nonneg assms(2) bigdec_consts)
qed

end

lemma zfo_out_given_in_step:
  assumes "zfo_ComputeSwapWithinBucketOutGivenIn S s c t liq rem = Inr (n, ain, aout, fee)"
  shows "\<exists>i u. CalcAmount0Delta liq n c True = Inr i \<and> CalcAmount1Delta liq n c False = Inr u \<and> BigDec_DecRoundUp i = Inr ain \<and>
    BigDec_Dec u = Inr aout \<and>
    computeSpreadRewardChargePerSwapStepOutGivenIn S (t = n) ain rem (spreadFactor s) (getSpfOverOneMinusSpf S s) = Inr fee"
  using assms by (auto simp: zfo_ComputeSwapWithinBucketOutGivenIn_def Let_def elim!: bindE_InrE split: if_splits)

lemma ofz_out_given_in_step:
  assumes "ofz_ComputeSwapWithinBucketOutGivenIn S s c t liq rem = Inr (n, ain, aout, fee)"
  shows "\<exists>i u. CalcAmount1Delta liq n c True = Inr i \<and> CalcAmount0Delta liq n c False = Inr u \<and> BigDec_DecRoundUp i = Inr ain \<and>
    BigDec_Dec u = Inr aout \<and>
    computeSpreadRewardChargePerSwapStepOutGivenIn S (t = n) ain rem (spreadFactor s) (getSpfOverOneMinusSpf S s) = Inr fee"
  using assms by (auto simp: ofz_ComputeSwapWithinBucketOutGivenIn_def Let_def elim!: bindE_InrE split: if_splits)

lemma capped: "(if BigDec_GT u (BigDec m) then BigDec m else u) = BigDec (min (bdi u) m)"
  by (cases u) auto

lemma zfo_in_given_out_step:
  assumes "zfo_ComputeSwapWithinBucketInGivenOut S s c t liq rem = Inr (n, aout, ain, fee)"
  shows "\<exists>i u. CalcAmount0Delta liq n c True = Inr i \<and> CalcAmount1Delta liq n c False = Inr u \<and> BigDec_DecRoundUp i = Inr ain \<and>
    BigDec_Dec (BigDec (min (bdi u) (deci rem * bigDecDecPrecisionFactorDiff))) = Inr aout \<and>
    bindE (getSpfOverOneMinusSpf S s) (computeSpreadRewardChargeFromAmountIn S ain) = Inr fee"
  using assms unfolding zfo_ComputeSwapWithinBucketInGivenOut_def Let_def BigDecFromDec_eq bindE_Inr capped
  by (auto elim!: bindE_InrE split: if_splits)

lemma ofz_in_given_out_step:
  assumes "ofz_ComputeSwapWithinBucketInGivenOut S s c t liq rem = Inr (n, aout, ain, fee)"
  shows "\<exists>i u. CalcAmount1Delta liq n c True = Inr i \<and> CalcAmount0Delta liq n c False = Inr u \<and> BigDec_DecRoundUp i = Inr ain \<and>
    BigDec_Dec (BigDec (min (bdi u) (deci rem * bigDecDecPrecisionFactorDiff))) = Inr aout \<and>
    bindE (getSpfOverOneMinusSpf S s) (computeSpreadRewardChargeFromAmountIn S ain) = Inr fee"
  using assms unfolding ofz_ComputeSwapWithinBucketInGivenOut_def Let_def BigDecFromDec_eq bindE_Inr capped
  by (auto elim!: bindE_InrE split: if_splits)

interpretation zfo: swap_step S s "zfo_ComputeSwapWithinBucketOutGivenIn S s" "zfo_ComputeSwapWithinBucketInGivenOut S s"
  "\<lambda>liq a b. CalcAmount0Delta liq a b True" "\<lambda>liq a b. CalcAmount1Delta liq a b False" exact0 exact1 0 for S s
  by unfold_locales
    (erule zfo_out_given_in_step, erule zfo_in_given_out_step, simp add: CalcAmount0Delta_in_exact, erule (1) CalcAmount1Delta_out_exact)

interpretation ofz: swap_step S s "ofz_ComputeSwapWithinBucketOutGivenIn S s" "ofz_ComputeSwapWithinBucketInGivenOut S s"
  "\<lambda>liq a b. CalcAmount1Delta liq a b True" "\<lambda>liq a b. CalcAmount0Delta liq a b False" exact1 exact0 "ulp / 2" for S s
  by unfold_locales
    (erule ofz_out_given_in_step, erule ofz_in_given_out_step, erule (1) CalcAmount1Delta_in_exact, erule (3) CalcAmount0Delta_out_exact)

lemma DecRoundUp_whole:
  assumes "BigDec_DecRoundUp i = Inr r" "BigDec_IsInteger i" "0 \<le> bdi i"
  shows "deci r = bdi i div defaultBigDecPrecisionReuse * precisionReuseSDKDec"
proof -
  obtain m where m: "bdi i = defaultBigDecPrecisionReuse * m" using assms(2) by (auto simp: BigDec_IsInteger_iff)
  have f: "defaultBigDecPrecisionReuse * m = (precisionReuseSDKDec * m) * bigDecDecPrecisionFactorDiff" by (simp add: bigdec_consts)
  have "0 \<le> precisionReuseSDKDec * m" using assms(3) unfolding m by (simp add: bigdec_consts)
  then show ?thesis
    using assms(1) unfolding BigDec_DecRoundUp_eq m f by (auto simp: incBasedOnRem_def sdiv_nonneg smod_nonneg bigdec_consts)
qed

lemma asserted_small: "\<bar>i\<bar> < 2 ^ 300 \<Longrightarrow> asserted i = Inr (BigDec i)"
proof -
  assume "\<bar>i\<bar> < 2 ^ 300"
  also have "(2::int) ^ 300 < 2 ^ maxDecBitLen"
    by (rule power_strict_increasing) (simp_all add: maxDecBitLen_def maxBitLen_def BigDecimalPrecisionBits_def)
  finally show ?thesis by simp
qed

lemma bindE_weak_cong: "r = r' \<Longrightarrow> bindE r f = bindE r' f" by simp

text \<open>The definitions to unfold to evaluate a step on numbers.\<close>

lemmas swap_eval = Let_def getOneMinusSpreadFactor_def getSpfOverOneMinusSpf_def oneDec_def plain_sdk_def
  NewBigDecFromDecMulDec_def computeSpreadRewardChargePerSwapStepOutGivenIn_def computeSpreadRewardChargeFromAmountIn_def
  CalcAmount0Delta_def CalcAmount1Delta_def GetNextSqrtPriceFromAmount0InRoundingUp_def BigDec_AbsMut_def BigDec_Clone_def
  bigdec_ops bigdec_consts BigDec_Dec_eq BigDec_DecRoundUp_eq BigDecFromDec_eq incBasedOnRem_def ceil_div_code sdiv_nonneg smod_nonneg

text \<open>A step that stops before its target: a hundred units of liquidity, one token in, a spread of one percent.\<close>

definition one_percent :: strategy where
  "one_percent = \<lparr>sqrtPriceLimit = BigDec 1, spreadFactor = Dec (10 ^ 16), oneMinusSpreadFactor = None, spfOverOneMinusSpf = None\<rparr>"

lemma zfo_example:
  "zfo_ComputeSwapWithinBucketOutGivenIn plain_sdk one_percent (BigDec (2 * 10 ^ 36)) (BigDec (10 ^ 36)) (Dec (100 * 10 ^ 18)) (Dec (10 ^ 18)) =
     Inr (BigDec 1961168856638556579721514022357324966, Dec (10 ^ 18), Dec 3883114336144342027, Dec 0)"
  by (simp add: zfo_ComputeSwapWithinBucketOutGivenIn_def one_percent_def swap_eval asserted_small del: asserted_eq cong: bindE_weak_cong let_weak_cong)

section \<open>Properties\<close>

text \<open>C1: The amounts of a swap step favour the pool in both directions and for both kinds of order:
  whatever price the step ends at, the trader pays at least the exact amount of the token in
  for the price range covered (for token one up to half a unit of the 36th decimal) and
  receives a non-negative amount of the token out that is at most the exact one.\<close>

theorem swap_step_favours_pool:
  assumes "0 \<le> deci liq" "0 < bdi c" "0 < bdi n" "0 \<le> deci rem"
  shows "(zfo_ComputeSwapWithinBucketOutGivenIn S s c t liq rem = Inr (n, ain, aout, fee) \<or>
      zfo_ComputeSwapWithinBucketInGivenOut S s c t liq rem = Inr (n, aout, ain, fee) \<longrightarrow>
      exact0 liq n c \<le> dec_val ain \<and> 0 \<le> dec_val aout \<and> dec_val aout \<le> exact1 liq n c) \<and>
    (ofz_ComputeSwapWithinBucketOutGivenIn S s c t liq rem = Inr (n, ain, aout, fee) \<or>
      ofz_ComputeSwapWithinBucketInGivenOut S s c t liq rem = Inr (n, aout, ain, fee) \<longrightarrow>
      exact1 liq n c - ulp / 2 \<le> dec_val ain \<and> 0 \<le> dec_val aout \<and> dec_val aout \<le> exact0 liq n c)"
  using zfo.step_amounts [OF assms(1-3)] ofz.step_amounts [OF assms(1-3)] assms(4) by fastforce

theorem swap_step_favours_pool_witness:
  "exact0 (Dec (100 * 10 ^ 18)) (BigDec 1961168856638556579721514022357324966) (BigDec (2 * 10 ^ 36)) \<le> dec_val (Dec (10 ^ 18)) \<and>
   dec_val (Dec 3883114336144342027) \<le> exact1 (Dec (100 * 10 ^ 18)) (BigDec 1961168856638556579721514022357324966) (BigDec (2 * 10 ^ 36))"
  using swap_step_favours_pool [of "Dec (100 * 10 ^ 18)" "BigDec (2 * 10 ^ 36)" "BigDec 1961168856638556579721514022357324966" "Dec (10 ^ 18)"
      plain_sdk one_percent "BigDec (10 ^ 36)" "Dec (10 ^ 18)" "Dec 3883114336144342027" "Dec 0"] zfo_example
  by (simp del: power_numeral)





end
