(* ===== verification/Tick_Keys.thy ===== *)
theory Tick_Keys
  imports Go_Text "HOL-Library.Char_ord" "HOL-Library.List_Lexorder" "HOL-Library.Sublist"
begin

text \<open>
  The store keys of \<open>x/concentrated-liquidity/types/keys.go\<close> and the search of the next initialized
  tick, \<open>InitializeNextTickIterator\<close> of the two swap strategies. Bytes are characters and are
  compared lexicographically. The encoding of 64-bit integers, \<open>sdk.Uint64ToBigEndian\<close> and its
  inverse, and the iterators of the key-value store belong to the SDK and are parameters.
\<close>

section \<open>Tick indices as keys\<close>

definition TickPrefix :: string where
  "TickPrefix = [CHR 0x01]"

definition TickNegativePrefix :: string where
  "TickNegativePrefix = [CHR 0x05]"

definition TickPositivePrefix :: string where
  "TickPositivePrefix = [CHR 0x06]"

text \<open>\<open>uint64(i)\<close> of an \<open>int64\<close>.\<close>

definition uint64_of :: "int \<Rightarrow> nat" where
  "uint64_of i = nat (i mod 2 ^ 64)"

definition TickIndexToBytes :: "(nat \<Rightarrow> string) \<Rightarrow> int \<Rightarrow> string" where
  "TickIndexToBytes Uint64ToBigEndian tickIndex =
    (if tickIndex < 0 then TickNegativePrefix @ Uint64ToBigEndian (uint64_of tickIndex)
     else TickPositivePrefix @ Uint64ToBigEndian (uint64_of tickIndex))"

definition TickIndexFromBytes :: "(string \<Rightarrow> nat) \<Rightarrow> string \<Rightarrow> int res" where
  "TickIndexFromBytes BigEndianToUint64 bz =
    (if length bz \<noteq> 9 then Inl (Err ''InvalidTickIndexEncodingError'')
     else
       let i = int64 (int (BigEndianToUint64 (tl bz))) in
       if hd bz = hd TickNegativePrefix \<and> i \<ge> 0 then Inl (Err ''InvalidTickIndexEncodingError'')
       else if hd bz = hd TickPositivePrefix \<and> i < 0 then Inl (Err ''InvalidTickIndexEncodingError'')
       else Inr i)"

definition keyTickPrefixByPoolIdPrealloc :: "(nat \<Rightarrow> string) \<Rightarrow> nat \<Rightarrow> string" where
  "keyTickPrefixByPoolIdPrealloc Uint64ToBigEndian poolId = TickPrefix @ Uint64ToBigEndian poolId"

definition KeyTickPrefixByPoolId :: "(nat \<Rightarrow> string) \<Rightarrow> nat \<Rightarrow> string" where
  "KeyTickPrefixByPoolId Uint64ToBigEndian poolId = keyTickPrefixByPoolIdPrealloc Uint64ToBigEndian poolId"

definition KeyTick :: "(nat \<Rightarrow> string) \<Rightarrow> nat \<Rightarrow> int \<Rightarrow> string" where
  "KeyTick Uint64ToBigEndian poolId tickIndex =
    keyTickPrefixByPoolIdPrealloc Uint64ToBigEndian poolId @ TickIndexToBytes Uint64ToBigEndian tickIndex"

section \<open>The next initialized tick\<close>

text \<open>
  The loop over an iterator, as the list of the keys it has left. It stops at the first key
  whose tick satisfies the condition; the result is the position of the iterator.
\<close>

fun seek_tick :: "(string \<Rightarrow> nat) \<Rightarrow> (int \<Rightarrow> bool) \<Rightarrow> string list \<Rightarrow> string list res" where
  "seek_tick B stop [] = Inr []"
| "seek_tick B stop (k # ks) = (case TickIndexFromBytes B k of
     Inl _ \<Rightarrow> Inl (Panic ''invalid tick index'')
   | Inr tick \<Rightarrow> if stop tick then Inr (k # ks) else seek_tick B stop ks)"

text \<open>\<open>Iterator start\<close> are the keys from \<open>start\<close> on in increasing order, \<open>ReverseIterator end\<close> the keys
  before \<open>end\<close> in decreasing order, in the prefix store of the pool.\<close>

definition ofz_InitializeNextTickIterator :: "(nat \<Rightarrow> string) \<Rightarrow> (string \<Rightarrow> nat) \<Rightarrow> (string \<Rightarrow> string list) \<Rightarrow> int \<Rightarrow> string list res" where
  "ofz_InitializeNextTickIterator U B Iterator currentTickIndex =
    seek_tick B (\<lambda>tick. tick > currentTickIndex) (Iterator (TickIndexToBytes U currentTickIndex))"

definition zfo_InitializeNextTickIterator :: "(nat \<Rightarrow> string) \<Rightarrow> (string \<Rightarrow> nat) \<Rightarrow> (string \<Rightarrow> string list) \<Rightarrow> int \<Rightarrow> string list res" where
  "zfo_InitializeNextTickIterator U B ReverseIterator currentTickIndex =
    seek_tick B (\<lambda>tick. tick \<le> currentTickIndex) (ReverseIterator (TickIndexToBytes U (int64 (currentTickIndex + 1))))"

section \<open>Keys of positions, pools and incentives\<close>

definition PositionPrefix :: string where
  "PositionPrefix = [CHR 0x02]"

definition PoolPrefix :: string where
  "PoolPrefix = [CHR 0x03]"

definition IncentivePrefix :: string where
  "IncentivePrefix = [CHR 0x04]"

definition PositionIdPrefix :: string where
  "PositionIdPrefix = [CHR 0x08]"

definition PoolPositionPrefix :: string where
  "PoolPositionPrefix = [CHR 0x09]"

definition SpreadRewardPositionAccumulatorPrefix :: string where
  "SpreadRewardPositionAccumulatorPrefix = [CHR 0x0A]"

definition KeySpreadRewardPoolAccumulatorPrefix :: string where
  "KeySpreadRewardPoolAccumulatorPrefix = [CHR 0x0B]"

definition UptimeAccumulatorPrefix :: string where
  "UptimeAccumulatorPrefix = [CHR 0x0C]"

definition PositionToLockPrefix :: string where
  "PositionToLockPrefix = [CHR 0x0D]"

definition FullRangeLiquidityPrefix :: string where
  "FullRangeLiquidityPrefix = [CHR 0x0E]"

definition BalancerFullRangePrefix :: string where
  "BalancerFullRangePrefix = [CHR 0x0F]"

definition LockToPositionPrefix :: string where
  "LockToPositionPrefix = [CHR 0x10]"

definition KeyTotalLiquidity :: string where
  "KeyTotalLiquidity = [CHR 0x13]"

definition KeyContractHookPrefix :: string where
  "KeyContractHookPrefix = [CHR 0x14]"

definition KeySeparator :: string where
  "KeySeparator = ''|''"

text \<open>The verb \<open>%x\<close> on bytes: two lower-case hexadecimal digits each.\<close>

definition hex_digit :: "nat \<Rightarrow> char" where
  "hex_digit d = (if d < 10 then char_of (48 + d) else char_of (87 + d))"

definition hex_text :: "string \<Rightarrow> string" where
  "hex_text bz = concat (map (\<lambda>c. [hex_digit (of_char c div 16), hex_digit (of_char c mod 16)]) bz)"

definition KeyPositionIdForLock :: "nat \<Rightarrow> string" where
  "KeyPositionIdForLock positionId = PositionToLockPrefix @ nat_text positionId"

definition KeyLockIdForPositionId :: "nat \<Rightarrow> string" where
  "KeyLockIdForPositionId lockId = LockToPositionPrefix @ nat_text lockId"

definition PositionIdForLockIdKeys :: "nat \<Rightarrow> nat \<Rightarrow> string \<times> string" where
  "PositionIdForLockIdKeys positionId lockId = (KeyPositionIdForLock positionId, KeyLockIdForPositionId lockId)"

definition KeyFullRangeLiquidityPrefix :: "nat \<Rightarrow> string" where
  "KeyFullRangeLiquidityPrefix poolId = FullRangeLiquidityPrefix @ nat_text poolId"

definition KeyPositionId :: "nat \<Rightarrow> string" where
  "KeyPositionId positionId = PositionIdPrefix @ nat_text positionId"

definition KeyAddressPoolIdPositionId :: "string \<Rightarrow> nat \<Rightarrow> nat \<Rightarrow> string" where
  "KeyAddressPoolIdPositionId addr poolId positionId =
    PositionPrefix @ KeySeparator @ hex_text addr @ KeySeparator @ nat_text poolId @ KeySeparator @ nat_text positionId"

definition KeyAddressAndPoolId :: "string \<Rightarrow> nat \<Rightarrow> string" where
  "KeyAddressAndPoolId addr poolId =
    PositionPrefix @ KeySeparator @ hex_text addr @ KeySeparator @ nat_text poolId @ KeySeparator"

definition KeyUserPositions :: "string \<Rightarrow> string" where
  "KeyUserPositions addr = PositionPrefix @ KeySeparator @ hex_text addr @ KeySeparator"

definition KeyPoolPositionPositionId :: "(nat \<Rightarrow> string) \<Rightarrow> nat \<Rightarrow> nat \<Rightarrow> string" where
  "KeyPoolPositionPositionId Uint64ToBigEndian poolId positionId =
    PoolPositionPrefix @ Uint64ToBigEndian poolId @ KeySeparator @ Uint64ToBigEndian positionId"

definition KeyPoolPosition :: "(nat \<Rightarrow> string) \<Rightarrow> nat \<Rightarrow> string" where
  "KeyPoolPosition Uint64ToBigEndian poolId = PoolPositionPrefix @ Uint64ToBigEndian poolId"

definition KeyPool :: "nat \<Rightarrow> string" where
  "KeyPool poolId = [CHR 0x03] @ nat_text poolId"

definition KeyIncentiveRecord :: "nat \<Rightarrow> int \<Rightarrow> nat \<Rightarrow> string" where
  "KeyIncentiveRecord poolId minUptimeIndex recordId =
    IncentivePrefix @ KeySeparator @ nat_text poolId @ KeySeparator @ big_MarshalText minUptimeIndex @ KeySeparator @ nat_text recordId @ KeySeparator"

definition KeyUptimeIncentiveRecords :: "nat \<Rightarrow> int \<Rightarrow> string" where
  "KeyUptimeIncentiveRecords poolId minUptimeIndex =
    IncentivePrefix @ KeySeparator @ nat_text poolId @ KeySeparator @ big_MarshalText minUptimeIndex @ KeySeparator"

definition KeyPoolIncentiveRecords :: "nat \<Rightarrow> string" where
  "KeyPoolIncentiveRecords poolId = IncentivePrefix @ KeySeparator @ nat_text poolId @ KeySeparator"

definition KeySpreadRewardPositionAccumulator :: "nat \<Rightarrow> string" where
  "KeySpreadRewardPositionAccumulator positionId = SpreadRewardPositionAccumulatorPrefix @ KeySeparator @ nat_text positionId"

definition KeySpreadRewardPoolAccumulator :: "nat \<Rightarrow> string" where
  "KeySpreadRewardPoolAccumulator poolId = KeySpreadRewardPoolAccumulatorPrefix @ ''/'' @ nat_text poolId"

definition KeyUptimeAccumulator :: "nat \<Rightarrow> nat \<Rightarrow> string" where
  "KeyUptimeAccumulator poolId uptimeIndex = UptimeAccumulatorPrefix @ ''/'' @ nat_text poolId @ ''/'' @ nat_text uptimeIndex"

definition KeyBalancerFullRange :: "nat \<Rightarrow> nat \<Rightarrow> nat \<Rightarrow> string" where
  "KeyBalancerFullRange clPoolId balancerPoolId uptimeIndex =
    BalancerFullRangePrefix @ KeySeparator @ nat_text clPoolId @ KeySeparator @ nat_text balancerPoolId @ KeySeparator @ nat_text uptimeIndex"

definition GetDenomPrefix :: "string \<Rightarrow> string" where
  "GetDenomPrefix denom = KeyTotalLiquidity @ denom"

definition GetPoolPrefixStoreKey :: "nat \<Rightarrow> string" where
  "GetPoolPrefixStoreKey poolID = KeyContractHookPrefix @ nat_text poolID @ KeySeparator"

lemmas key_prefixes = PositionPrefix_def PoolPrefix_def IncentivePrefix_def PositionIdPrefix_def PoolPositionPrefix_def
  SpreadRewardPositionAccumulatorPrefix_def KeySpreadRewardPoolAccumulatorPrefix_def UptimeAccumulatorPrefix_def
  PositionToLockPrefix_def FullRangeLiquidityPrefix_def BalancerFullRangePrefix_def LockToPositionPrefix_def
  KeyTotalLiquidity_def KeyContractHookPrefix_def KeySeparator_def

section \<open>Parameters\<close>

text \<open>What the code relies on: the encoding has eight bytes, is read back, and keeps the order.\<close>

definition big_endian :: "(nat \<Rightarrow> string) \<Rightarrow> (string \<Rightarrow> nat) \<Rightarrow> bool" where
  "big_endian U B \<longleftrightarrow> (\<forall>n < 2 ^ 64. length (U n) = 8 \<and> B (U n) = n) \<and> (\<forall>m n. m < n \<longrightarrow> n < 2 ^ 64 \<longrightarrow> U m < U n)"

definition iterates :: "string set \<Rightarrow> (string \<Rightarrow> string list) \<Rightarrow> (string \<Rightarrow> string list) \<Rightarrow> bool" where
  "iterates K Iterator ReverseIterator \<longleftrightarrow> finite K \<and>
    (\<forall>s. Iterator s = sorted_list_of_set {k \<in> K. s \<le> k}) \<and> (\<forall>e. ReverseIterator e = rev (sorted_list_of_set {k \<in> K. k < e}))"

text \<open>The encoding itself, for concrete examples.\<close>

fun be :: "nat \<Rightarrow> nat \<Rightarrow> string" where
  "be 0 n = []"
| "be (Suc k) n = char_of (n div 256 ^ k) # be k (n mod 256 ^ k)"

definition eb :: "string \<Rightarrow> nat" where
  "eb s = foldl (\<lambda>a c. a * 256 + of_char c) 0 s"

lemma length_be [simp]: "length (be k n) = k"
  by (induction k arbitrary: n) simp_all

lemma foldl_bytes: "foldl (\<lambda>a c. a * 256 + of_char c) x s = x * 256 ^ length s + eb s" for x :: nat
proof (induction s arbitrary: x)
  case (Cons c s)
  from Cons.IH [of "x * 256 + of_char c"] Cons.IH [of "of_char c"] show ?case by (simp add: eb_def algebra_simps)
qed (simp add: eb_def)

lemma eb_be: "n < 256 ^ k \<Longrightarrow> eb (be k n) = n"
proof (induction k arbitrary: n)
  case (Suc k)
  have "n div 256 ^ k < 256" using Suc.prems by (simp add: less_mult_imp_div_less mult.commute)
  then have "of_char (char_of (n div 256 ^ k) :: char) = n div 256 ^ k" by (simp add: of_char_of)
  moreover have "eb (be k (n mod 256 ^ k)) = n mod 256 ^ k" by (rule Suc.IH) simp
  ultimately show ?case using foldl_bytes [of "n div 256 ^ k" "be k (n mod 256 ^ k)"] by (simp add: eb_def div_mult_mod_eq)
qed (simp add: eb_def)

lemma be_less: "m < n \<Longrightarrow> n < 256 ^ k \<Longrightarrow> be k m < be k n"
proof (induction k arbitrary: m n)
  case (Suc k)
  have lt: "n div 256 ^ k < 256" "m div 256 ^ k < 256"
    using Suc.prems by (simp_all add: less_mult_imp_div_less mult.commute)
  have "m div 256 ^ k \<le> n div 256 ^ k" using Suc.prems by (simp add: div_le_mono)
  then consider "m div 256 ^ k < n div 256 ^ k" | "m div 256 ^ k = n div 256 ^ k" by linarith
  then show ?case
  proof cases
    case 1
    with lt have "char_of (m div 256 ^ k) < (char_of (n div 256 ^ k) :: char)" by (simp add: less_char_def of_char_of)
    then show ?thesis by simp
  next
    case 2
    then have "m mod 256 ^ k < n mod 256 ^ k"
      using Suc.prems(1) by (metis div_mult_mod_eq nat_add_left_cancel_less)
    with Suc.IH [of "m mod 256 ^ k" "n mod 256 ^ k"] 2 show ?thesis by simp
  qed
qed simp

lemma big_endian_be: "big_endian (be 8) eb"
proof -
  have e: "(2::nat) ^ 64 = 256 ^ 8" by simp
  show ?thesis unfolding big_endian_def e using eb_be [of _ 8] be_less [of _ _ 8] by (simp only: length_be) blast
qed

section \<open>Keys of ticks keep their order\<close>

lemma uint64_of_less: "uint64_of i < 2 ^ 64"
proof -
  have "i mod 2 ^ 64 < 2 ^ 64" by (rule pos_mod_bound) simp
  then show ?thesis by (simp add: uint64_of_def nat_less_iff)
qed

lemma uint64_of_neg: "- (2 ^ 63) \<le> i \<Longrightarrow> i < 0 \<Longrightarrow> int (uint64_of i) = i + 2 ^ 64"
proof -
  assume "- (2 ^ 63) \<le> i" "i < 0"
  then have "(i + 2 ^ 64) mod 2 ^ 64 = i + 2 ^ 64" by (intro mod_pos_pos_trivial) simp_all
  then have "i mod 2 ^ 64 = i + 2 ^ 64" by (simp only: mod_add_self2)
  with \<open>- (2 ^ 63) \<le> i\<close> show ?thesis by (simp add: uint64_of_def)
qed

lemma uint64_of_nonneg: "0 \<le> i \<Longrightarrow> i < 2 ^ 63 \<Longrightarrow> int (uint64_of i) = i"
  by (simp add: uint64_of_def)

lemma int64_uint64_of: "IsInt64 i \<Longrightarrow> int64 (int (uint64_of i)) = i"
proof -
  assume "IsInt64 i"
  have "int (uint64_of i) mod 2 ^ 64 = i mod 2 ^ 64" by (simp add: uint64_of_def)
  then have "int64 (int (uint64_of i)) = int64 i" unfolding int64_def by (metis mod_add_left_eq)
  with \<open>IsInt64 i\<close> show ?thesis by (simp add: int64_id)
qed

lemma TickIndex_roundtrip:
  assumes "big_endian U B" "IsInt64 t"
  shows "TickIndexFromBytes B (TickIndexToBytes U t) = Inr t"
  using assms(1) uint64_of_less [of t] int64_uint64_of [OF assms(2)]
  by (simp add: TickIndexFromBytes_def TickIndexToBytes_def big_endian_def TickNegativePrefix_def TickPositivePrefix_def)

lemma TickIndexToBytes_less:
  assumes "big_endian U B" "IsInt64 t" "IsInt64 t'" "t < t'"
  shows "TickIndexToBytes U t < TickIndexToBytes U t'"
proof (cases "t < 0 \<longleftrightarrow> t' < 0")
  case True
  then have "int (uint64_of t) < int (uint64_of t')"
    using assms(2-4) by (cases "t < 0") (auto simp: IsInt64_def uint64_of_neg uint64_of_nonneg)
  then have "U (uint64_of t) < U (uint64_of t')"
    using assms(1) uint64_of_less [of t'] by (simp add: big_endian_def)
  with True show ?thesis by (simp add: TickIndexToBytes_def TickNegativePrefix_def TickPositivePrefix_def)
next
  case False
  with assms(4) have "t < 0" "\<not> t' < 0" by auto
  then show ?thesis by (simp add: TickIndexToBytes_def TickNegativePrefix_def TickPositivePrefix_def less_char_def)
qed

lemma TickIndexToBytes_le_iff:
  assumes "big_endian U B" "IsInt64 t" "IsInt64 t'"
  shows "TickIndexToBytes U t \<le> TickIndexToBytes U t' \<longleftrightarrow> t \<le> t'"
  using TickIndexToBytes_less [OF assms] TickIndexToBytes_less [OF assms(1,3,2)]
  by (metis linorder_not_less order_le_less)

text \<open>The iterators over the keys of a set of ticks run through the ticks in their order.\<close>

lemma sorted_list_of_keys:
  assumes "big_endian U B" "finite T" "\<And>t. t \<in> T \<Longrightarrow> IsInt64 t"
  shows "sorted_list_of_set (TickIndexToBytes U ` T) = map (TickIndexToBytes U) (sorted_list_of_set T)"
proof (rule sorted_distinct_set_unique)
  have inj: "inj_on (TickIndexToBytes U) T"
    using TickIndex_roundtrip [OF assms(1,3)] by (metis inj_onI sum.inject(2))
  show "sorted (map (TickIndexToBytes U) (sorted_list_of_set T))"
    unfolding sorted_map using sorted_sorted_list_of_set [of T]
    by (rule sorted_wrt_mono_rel [rotated]) (use TickIndexToBytes_le_iff [OF assms(1,3,3)] assms(2) in auto)
  show "distinct (map (TickIndexToBytes U) (sorted_list_of_set T))"
    using inj assms(2) by (simp add: distinct_map)
qed (use assms(2) in auto)

lemma seek_tick_ticks:
  assumes "big_endian U B" "\<And>t. t \<in> set ts \<Longrightarrow> IsInt64 t"
  shows "seek_tick B stop (map (TickIndexToBytes U) ts) = Inr (map (TickIndexToBytes U) (dropWhile (\<lambda>t. \<not> stop t) ts))"
  using assms(2) by (induction ts) (auto simp: TickIndex_roundtrip [OF assms(1)])

lemma dropWhile_sorted: "sorted ts \<Longrightarrow> dropWhile (\<lambda>t. \<not> c < t) ts = filter (\<lambda>t. c < t) ts" for c :: int
  by (induction ts) (auto intro!: filter_True [symmetric])

lemma dropWhile_none: "\<forall>t \<in> set ts. stop t \<Longrightarrow> dropWhile (\<lambda>t. \<not> stop t) ts = ts"
  by (cases ts) auto

lemma last_sorted_list_of_set: "finite A \<Longrightarrow> A \<noteq> {} \<Longrightarrow> last (sorted_list_of_set A) = Max A" for A :: "int set"
proof -
  assume A: "finite A" "A \<noteq> {}"
  then have ne: "sorted_list_of_set A \<noteq> []" by simp
  then obtain xs x where x: "sorted_list_of_set A = xs @ [x]" by (cases "sorted_list_of_set A" rule: rev_cases) auto
  have s: "set (xs @ [x]) = A" "sorted (xs @ [x])" using A x by (metis set_sorted_list_of_set, metis sorted_sorted_list_of_set)
  then have "Max A = x" using A by (intro Max_eqI) (auto simp: sorted_append)
  then show ?thesis by (simp add: x)
qed

lemma ofz_ticks:
  assumes "big_endian U B" "finite T" "\<forall>t \<in> T. IsInt64 t" "iterates (TickIndexToBytes U ` T) Iterator ReverseIterator" "IsInt64 c"
  shows "ofz_InitializeNextTickIterator U B Iterator c = Inr (map (TickIndexToBytes U) (sorted_list_of_set {t \<in> T. c < t}))"
proof -
  have "{k \<in> TickIndexToBytes U ` T. TickIndexToBytes U c \<le> k} = TickIndexToBytes U ` {t \<in> T. c \<le> t}"
    using assms(3) TickIndexToBytes_le_iff [OF assms(1,5)] by auto
  then have "Iterator (TickIndexToBytes U c) = map (TickIndexToBytes U) (sorted_list_of_set {t \<in> T. c \<le> t})"
    using assms(2-4) sorted_list_of_keys [OF assms(1), of "{t \<in> T. c \<le> t}"] by (simp add: iterates_def)
  then have "ofz_InitializeNextTickIterator U B Iterator c =
      Inr (map (TickIndexToBytes U) (dropWhile (\<lambda>t. \<not> c < t) (sorted_list_of_set {t \<in> T. c \<le> t})))"
    unfolding ofz_InitializeNextTickIterator_def using assms(2,3) by (simp only:) (intro seek_tick_ticks [OF assms(1)], simp)
  also have "dropWhile (\<lambda>t. \<not> c < t) (sorted_list_of_set {t \<in> T. c \<le> t}) = sorted_list_of_set {t \<in> T. c < t}"
    unfolding dropWhile_sorted [OF sorted_sorted_list_of_set]
    by (rule sorted_distinct_set_unique) (use assms(2) in \<open>auto intro: sorted_filter [of id, simplified]\<close>)
  finally show ?thesis .
qed

lemma zfo_ticks:
  assumes "big_endian U B" "finite T" "\<forall>t \<in> T. IsInt64 t" "iterates (TickIndexToBytes U ` T) Iterator ReverseIterator"
    "IsInt64 c" "IsInt64 (c + 1)"
  shows "zfo_InitializeNextTickIterator U B ReverseIterator c = Inr (map (TickIndexToBytes U) (rev (sorted_list_of_set {t \<in> T. t \<le> c})))"
proof -
  have "t \<in> T \<Longrightarrow> TickIndexToBytes U t < TickIndexToBytes U (c + 1) \<longleftrightarrow> t \<le> c" for t
    using TickIndexToBytes_le_iff [OF assms(1,6), of t] assms(3) by (metis linorder_not_less zless_add1_eq zless_imp_add1_zle order_le_less)
  then have "{k \<in> TickIndexToBytes U ` T. k < TickIndexToBytes U (c + 1)} = TickIndexToBytes U ` {t \<in> T. t \<le> c}" by auto
  then have "ReverseIterator (TickIndexToBytes U (int64 (c + 1))) = map (TickIndexToBytes U) (rev (sorted_list_of_set {t \<in> T. t \<le> c}))"
    using assms(2-4,6) sorted_list_of_keys [OF assms(1), of "{t \<in> T. t \<le> c}"] by (simp add: iterates_def int64_id rev_map)
  then have "zfo_InitializeNextTickIterator U B ReverseIterator c =
      Inr (map (TickIndexToBytes U) (dropWhile (\<lambda>t. \<not> t \<le> c) (rev (sorted_list_of_set {t \<in> T. t \<le> c}))))"
    unfolding zfo_InitializeNextTickIterator_def using assms(2,3) by (simp only:) (intro seek_tick_ticks [OF assms(1)], simp)
  also have "dropWhile (\<lambda>t. \<not> t \<le> c) (rev (sorted_list_of_set {t \<in> T. t \<le> c})) = rev (sorted_list_of_set {t \<in> T. t \<le> c})"
    using assms(2) by (intro dropWhile_none) simp
  finally show ?thesis .
qed

section \<open>Keys with separators\<close>

text \<open>A field without the separator ends at the first separator.\<close>

lemma prefix_field:
  assumes "c \<notin> set x" "c \<notin> set x'"
  shows "prefix (x @ c # y) (x' @ c # y') \<longleftrightarrow> x = x' \<and> prefix y y'"
  using assms
proof (induction x arbitrary: x')
  case Nil
  then show ?case by (cases x') auto
next
  case (Cons a x)
  then show ?case by (cases x') auto
qed

lemma field_inject:
  assumes "c \<notin> set x" "c \<notin> set x'"
  shows "x @ c # y = x' @ c # y' \<longleftrightarrow> x = x' \<and> y = y'"
  using prefix_field [OF assms, of y y'] prefix_field [OF assms(2,1), of y' y] by (metis prefix_order.antisym prefix_order.refl)

lemma not_sep_digits: "all_digits s \<Longrightarrow> CHR ''|'' \<notin> set s"
proof -
  have "\<not> digit_value CHR ''|'' < 10" by (simp add: digit_value_def)
  then show "all_digits s \<Longrightarrow> CHR ''|'' \<notin> set s" by (auto simp: all_digits_def)
qed

lemma nat_text_no_sep [simp]: "CHR ''|'' \<notin> set (nat_text n)"
  by (rule not_sep_digits [OF all_digits_nat_text])

lemma nat_text_inject [simp]: "nat_text m = nat_text n \<longleftrightarrow> m = n"
  by (metis scan10_nat_text option.inject)

lemma big_MarshalText_no_sep [simp]: "CHR ''|'' \<notin> set (big_MarshalText i)"
  by (simp add: big_MarshalText_def)

lemma big_MarshalText_inject [simp]: "big_MarshalText i = big_MarshalText j \<longleftrightarrow> i = j"
  by (metis big_scan0_MarshalText option.inject)

lemma hex_digits: "distinct (map hex_digit [0..<16])" "CHR ''|'' \<notin> set (map hex_digit [0..<16])"
  by code_simp+

lemma hex_digit_no_sep: "d < 16 \<Longrightarrow> hex_digit d \<noteq> CHR ''|''"
  using hex_digits(2) by (metis atLeastLessThan_iff image_eqI le0 set_map set_upt)

lemma of_char_less: "of_char c < (256 :: nat)"
  by (metis of_char_mod_256 mod_less_divisor zero_less_numeral)

lemma nibbles: "of_char c div 16 < (16 :: nat)" "of_char c mod 16 < (16 :: nat)"
  using of_char_less [of c] less_mult_imp_div_less [of "of_char c" 16 16] by simp_all

lemma hex_digit_inject: "d < 16 \<Longrightarrow> e < 16 \<Longrightarrow> hex_digit d = hex_digit e \<Longrightarrow> d = e"
  using hex_digits(1) by (auto simp: distinct_map inj_on_def)

lemma hex_text_no_sep [simp]: "CHR ''|'' \<notin> set (hex_text bz)"
proof (induction bz)
  case (Cons c bz)
  from Cons hex_digit_no_sep [OF nibbles(1) [of c]] hex_digit_no_sep [OF nibbles(2) [of c]]
  show ?case by (auto simp: hex_text_def)
qed (simp add: hex_text_def)

lemma hex_text_inject [simp]: "hex_text a = hex_text b \<longleftrightarrow> a = b"
proof
  show "hex_text a = hex_text b \<Longrightarrow> a = b"
  proof (induction a arbitrary: b)
    case Nil
    then show ?case by (cases b) (auto simp: hex_text_def)
  next
    case (Cons c a)
    then obtain d b' where b: "b = d # b'" by (cases b) (auto simp: hex_text_def)
    have "of_char c div 16 = (of_char d div 16 :: nat)" "of_char c mod 16 = (of_char d mod 16 :: nat)" "hex_text a = hex_text b'"
      using Cons.prems hex_digit_inject [OF nibbles(1) nibbles(1)] hex_digit_inject [OF nibbles(2) nibbles(2)] by (auto simp: b hex_text_def)
    then have "of_char c div 16 * 16 + of_char c mod 16 = (of_char d div 16 * 16 + of_char d mod 16 :: nat)" by simp
    then have "of_char c = (of_char d :: nat)" unfolding div_mult_mod_eq .
    with Cons.IH [of b'] \<open>hex_text a = hex_text b'\<close> show ?case by (simp add: b)
  qed
qed simp

section \<open>Properties\<close>

text \<open>C17: The keys of ticks read back and sort like the ticks, negative ones included, so an iterator over
  the store meets the ticks of a pool in their order.\<close>

theorem TickIndexToBytes_order:
  assumes "big_endian U B" "IsInt64 t" "IsInt64 t'"
  shows "TickIndexFromBytes B (TickIndexToBytes U t) = Inr t \<and> (TickIndexToBytes U t < TickIndexToBytes U t' \<longleftrightarrow> t < t') \<and>
    (poolId < 2 ^ 64 \<and> poolId' < 2 ^ 64 \<and> KeyTick U poolId t = KeyTick U poolId' t' \<longrightarrow> poolId = poolId' \<and> t = t')"
proof (intro conjI impI)
  show rt: "TickIndexFromBytes B (TickIndexToBytes U t) = Inr t" by (rule TickIndex_roundtrip [OF assms(1,2)])
  show "TickIndexToBytes U t < TickIndexToBytes U t' \<longleftrightarrow> t < t'"
    using TickIndexToBytes_le_iff [OF assms(1,3,2)] by (metis linorder_not_less)
  assume k: "poolId < 2 ^ 64 \<and> poolId' < 2 ^ 64 \<and> KeyTick U poolId t = KeyTick U poolId' t'"
  then have "U poolId @ TickIndexToBytes U t = U poolId' @ TickIndexToBytes U t'"
    by (simp add: KeyTick_def keyTickPrefixByPoolIdPrealloc_def)
  moreover have "length (U poolId) = length (U poolId')" using k assms(1) by (simp add: big_endian_def)
  ultimately have "U poolId = U poolId'" "TickIndexToBytes U t = TickIndexToBytes U t'" by simp_all
  then show "poolId = poolId'" "t = t'"
    using k assms(1) rt TickIndex_roundtrip [OF assms(1,3)] by (metis big_endian_def, metis sum.inject(2))
qed

theorem TickIndexToBytes_order_witness:
  "TickIndexFromBytes eb (TickIndexToBytes (be 8) (- 1)) = Inr (- 1) \<and> TickIndexToBytes (be 8) (- 1) < TickIndexToBytes (be 8) 1"
  using TickIndexToBytes_order [OF big_endian_be, of "- 1" 1 0 0] by (simp add: IsInt64_def)

text \<open>C22: Swapping to the right, the iterator stops at the least initialized tick above the current one;
  swapping to the left, at the greatest one not above it; and it is exhausted exactly when
  there is none.\<close>

theorem InitializeNextTickIterator_spec:
  assumes "big_endian U B" "finite T" "\<forall>t \<in> T. IsInt64 t" "iterates (TickIndexToBytes U ` T) Iterator ReverseIterator"
    "IsInt64 c" "IsInt64 (c + 1)"
  shows "(\<exists>ks. ofz_InitializeNextTickIterator U B Iterator c = Inr ks \<and>
      (if {t \<in> T. c < t} = {} then ks = [] else ks \<noteq> [] \<and> hd ks = TickIndexToBytes U (Min {t \<in> T. c < t}))) \<and>
    (\<exists>ks. zfo_InitializeNextTickIterator U B ReverseIterator c = Inr ks \<and>
      (if {t \<in> T. t \<le> c} = {} then ks = [] else ks \<noteq> [] \<and> hd ks = TickIndexToBytes U (Max {t \<in> T. t \<le> c})))"
proof (intro conjI)
  have "hd (sorted_list_of_set {t \<in> T. c < t}) = Min {t \<in> T. c < t}" if "{t \<in> T. c < t} \<noteq> {}"
    using that assms(2) by (subst sorted_list_of_set_nonempty) auto
  then show "\<exists>ks. ofz_InitializeNextTickIterator U B Iterator c = Inr ks \<and>
      (if {t \<in> T. c < t} = {} then ks = [] else ks \<noteq> [] \<and> hd ks = TickIndexToBytes U (Min {t \<in> T. c < t}))"
    unfolding ofz_ticks [OF assms(1-5)] using assms(2) by (auto simp: hd_map)
  have "hd (rev (sorted_list_of_set {t \<in> T. t \<le> c})) = Max {t \<in> T. t \<le> c}" if "{t \<in> T. t \<le> c} \<noteq> {}"
    using that assms(2) last_sorted_list_of_set [of "{t \<in> T. t \<le> c}"] by (simp add: hd_rev)
  then show "\<exists>ks. zfo_InitializeNextTickIterator U B ReverseIterator c = Inr ks \<and>
      (if {t \<in> T. t \<le> c} = {} then ks = [] else ks \<noteq> [] \<and> hd ks = TickIndexToBytes U (Max {t \<in> T. t \<le> c}))"
    unfolding zfo_ticks [OF assms] using assms(2) by (auto simp: hd_map)
qed

theorem InitializeNextTickIterator_spec_witness:
  "let K = TickIndexToBytes (be 8) ` {- 3, 5, 7};
       Iterator = \<lambda>s. sorted_list_of_set {k \<in> K. s \<le> k}; ReverseIterator = \<lambda>e. rev (sorted_list_of_set {k \<in> K. k < e}) in
   (\<exists>ks. ofz_InitializeNextTickIterator (be 8) eb Iterator 5 = Inr ks \<and> hd ks = TickIndexToBytes (be 8) 7) \<and>
   (\<exists>ks. zfo_InitializeNextTickIterator (be 8) eb ReverseIterator 5 = Inr ks \<and> hd ks = TickIndexToBytes (be 8) 5)"
proof -
  have a: "{t \<in> {- 3, 5, 7}. 5 < t} = {7 :: int}" "{t \<in> {- 3, 5, 7}. t \<le> 5} = {- 3, 5 :: int}" by auto
  have it: "iterates K (\<lambda>s. sorted_list_of_set {k \<in> K. s \<le> k}) (\<lambda>e. rev (sorted_list_of_set {k \<in> K. k < e}))" if "finite K" for K
    using that by (simp add: iterates_def)
  show ?thesis
    using InitializeNextTickIterator_spec [OF big_endian_be, of "{- 3, 5, 7}", OF _ _ it, of 5]
    unfolding a Let_def by (auto simp: IsInt64_def)
qed

text \<open>The prefixes the module iterates over select exactly the keys they mean: the positions of an
  address, those of an address in one pool, the incentive records of a pool and those of one
  uptime; the digits of a pool never run into those of another one.\<close>

theorem iteration_prefixes_exact:
  "(prefix (KeyUserPositions a) (KeyAddressPoolIdPositionId a' p' i) \<longleftrightarrow> a = a') \<and>
   (prefix (KeyAddressAndPoolId a p) (KeyAddressPoolIdPositionId a' p' i) \<longleftrightarrow> a = a' \<and> p = p') \<and>
   (prefix (KeyPoolIncentiveRecords p) (KeyIncentiveRecord p' u' i) \<longleftrightarrow> p = p') \<and>
   (prefix (KeyUptimeIncentiveRecords p u) (KeyIncentiveRecord p' u' i) \<longleftrightarrow> p = p' \<and> u = u') \<and>
   (KeyAddressPoolIdPositionId a p j = KeyAddressPoolIdPositionId a' p' i \<longleftrightarrow> a = a' \<and> p = p' \<and> j = i)"
  by (simp add: KeyUserPositions_def KeyAddressPoolIdPositionId_def KeyAddressAndPoolId_def KeyPoolIncentiveRecords_def
      KeyIncentiveRecord_def KeyUptimeIncentiveRecords_def key_prefixes prefix_field field_inject)

end
