(* ===== verification/KV_Store.thy ===== *)
theory KV_Store
  imports Go_Prelude "HOL-Library.Char_ord" "HOL-Library.List_Lexorder"
begin

text \<open>
  The persistent store of a module: byte keys in lexicographic order, each with a decoded value.
  The keepers only get, set, delete and iterate, so the store is kept as the ordered list of its
  entries. The locale \<open>ordered_store\<close> is the contract the keepers rely on.
\<close>

section \<open>The store as an ordered list\<close>

type_synonym 'v kv = "(string \<times> 'v) list"

fun kv_get :: "'v kv \<Rightarrow> string \<Rightarrow> 'v option" where
  "kv_get [] k = None"
| "kv_get ((j, v) # s) k = (if k = j then Some v else kv_get s k)"

fun kv_set :: "'v kv \<Rightarrow> string \<Rightarrow> 'v \<Rightarrow> 'v kv" where
  "kv_set [] k v = [(k, v)]"
| "kv_set ((j, w) # s) k v =
    (if k < j then (k, v) # (j, w) # s else if k = j then (k, v) # s else (j, w) # kv_set s k v)"

fun kv_delete :: "'v kv \<Rightarrow> string \<Rightarrow> 'v kv" where
  "kv_delete [] k = []"
| "kv_delete ((j, w) # s) k = (if k = j then s else (j, w) # kv_delete s k)"

text \<open>The iterator over a whole prefix: its entries in the order of the keys.\<close>

definition kv_entries :: "'v kv \<Rightarrow> (string \<times> 'v) list" where
  "kv_entries s = s"

definition kv_ordered :: "'v kv \<Rightarrow> bool" where
  "kv_ordered s \<longleftrightarrow> sorted_wrt (<) (map fst s)"

lemma kv_ordered_Cons: "kv_ordered ((j, w) # s) \<longleftrightarrow> (\<forall>x \<in> set s. j < fst x) \<and> kv_ordered s"
  by (auto simp: kv_ordered_def)

lemma kv_get_None: "k \<notin> fst ` set s \<Longrightarrow> kv_get s k = None"
  by (induction s k rule: kv_get.induct) auto

lemma kv_get_Some_in: "kv_get s k = Some v \<Longrightarrow> (k, v) \<in> set s"
  by (induction s k rule: kv_get.induct) (auto split: if_splits)

lemma kv_get_iff: "kv_ordered s \<Longrightarrow> kv_get s k = Some v \<longleftrightarrow> (k, v) \<in> set s"
  by (induction s k rule: kv_get.induct) (auto simp: kv_ordered_Cons)

lemma kv_get_set: "kv_get (kv_set s k v) j = (if j = k then Some v else kv_get s j)"
  by (induction s k v rule: kv_set.induct) auto

lemma fst_kv_set: "fst ` set (kv_set s k v) = insert k (fst ` set s)"
  by (induction s k v rule: kv_set.induct) auto

lemma kv_ordered_set: "kv_ordered s \<Longrightarrow> kv_ordered (kv_set s k v)"
proof (induction s k v rule: kv_set.induct)
  case (2 j w s k v)
  then have o: "\<forall>x \<in> set s. j < fst x" "kv_ordered s" by (simp_all add: kv_ordered_Cons)
  show ?case
  proof (cases k j rule: linorder_cases)
    case less
    with o show ?thesis by (auto simp: kv_ordered_Cons)
  next
    case equal
    with o show ?thesis by (simp add: kv_ordered_Cons)
  next
    case greater
    have "j < fst x" if "x \<in> set (kv_set s k v)" for x
    proof -
      have "fst x \<in> insert k (fst ` set s)" using that fst_kv_set [of s k v] by blast
      with o(1) greater show ?thesis by auto
    qed
    moreover have "\<not> k < j" "k \<noteq> j" using greater by auto
    ultimately show ?thesis using "2.IH" o(2) by (simp add: kv_ordered_Cons)
  qed
qed (simp add: kv_ordered_def)

lemma kv_get_delete: "kv_ordered s \<Longrightarrow> kv_get (kv_delete s k) j = (if j = k then None else kv_get s j)"
proof (induction s k rule: kv_delete.induct)
  case (2 j' w s k)
  then show ?case by (auto simp: kv_ordered_Cons intro: kv_get_None)
qed simp

lemma set_kv_delete: "set (kv_delete s k) \<subseteq> set s"
  by (induction s k rule: kv_delete.induct) auto

lemma kv_ordered_delete: "kv_ordered s \<Longrightarrow> kv_ordered (kv_delete s k)"
  by (induction s k rule: kv_delete.induct) (use set_kv_delete in \<open>auto simp: kv_ordered_Cons\<close>)

section \<open>The contract\<close>

locale ordered_store =
  fixes get :: "'s \<Rightarrow> string \<Rightarrow> 'v option" and set_entry :: "'s \<Rightarrow> string \<Rightarrow> 'v \<Rightarrow> 's"
    and delete :: "'s \<Rightarrow> string \<Rightarrow> 's" and entries :: "'s \<Rightarrow> (string \<times> 'v) list" and invar :: "'s \<Rightarrow> bool"
  assumes get_set: "invar s \<Longrightarrow> get (set_entry s k v) j = (if j = k then Some v else get s j)"
    and get_delete: "invar s \<Longrightarrow> get (delete s k) j = (if j = k then None else get s j)"
    and invar_set: "invar s \<Longrightarrow> invar (set_entry s k v)"
    and invar_delete: "invar s \<Longrightarrow> invar (delete s k)"
    and entries_get: "invar s \<Longrightarrow> (k, v) \<in> set (entries s) \<longleftrightarrow> get s k = Some v"
    and entries_keys: "invar s \<Longrightarrow> sorted_wrt (<) (map fst (entries s))"
begin

lemma entries_distinct: "invar s \<Longrightarrow> distinct (map fst (entries s))"
  using entries_keys [of s] strict_sorted_iff by blast

text \<open>Setting again every entry of a snapshot changes each value once and adds no key.\<close>

lemma invar_fold_set: "invar s \<Longrightarrow> invar (foldl (\<lambda>s (k, v). set_entry s k (f k v)) s es)"
  by (induction es arbitrary: s) (auto simp: invar_set)

lemma get_fold_set:
  assumes "invar s" "distinct (map fst es)"
  shows "get (foldl (\<lambda>s (k, v). set_entry s k (f k v)) s es) j =
    (case map_of es j of Some v \<Rightarrow> Some (f j v) | None \<Rightarrow> get s j)"
  using assms
proof (induction es arbitrary: s)
  case (Cons e es)
  obtain k v where e: "e = (k, v)" by fastforce
  have "invar (set_entry s k (f k v))" using Cons.prems by (simp add: invar_set)
  moreover have "map_of es k = None" using Cons.prems by (simp add: e map_of_eq_None_iff)
  ultimately show ?case using Cons by (auto simp: e get_set split: option.splits)
qed simp

lemma map_of_entries: "invar s \<Longrightarrow> map_of (entries s) k = get s k"
  by (metis entries_distinct entries_get map_of_eq_None_iff map_of_SomeD map_of_eq_Some_iff not_None_eq)

lemma get_update_all:
  assumes "invar s"
  shows "get (foldl (\<lambda>s (k, v). set_entry s k (f k v)) s (entries s)) j = map_option (f j) (get s j)"
  using get_fold_set [OF assms entries_distinct [OF assms], of f j] map_of_entries [OF assms, of j]
  by (simp split: option.splits)

end

interpretation kv: ordered_store kv_get kv_set kv_delete kv_entries kv_ordered
proof unfold_locales
  show "kv_ordered s \<Longrightarrow> (k, v) \<in> set (kv_entries s) \<longleftrightarrow> kv_get s k = Some v" for s :: "'v kv" and k v
    by (simp add: kv_get_iff kv_entries_def)
  show "kv_ordered s \<Longrightarrow> sorted_wrt (<) (map fst (kv_entries s))" for s :: "'v kv"
    by (simp add: kv_entries_def kv_ordered_def)
qed (simp_all add: kv_get_set kv_get_delete kv_ordered_set kv_ordered_delete)

end
