(* ===== verification/Epochs.thy ===== *)
theory Epochs
  imports KV_Store
begin

text \<open>
  \<open>x/epochs\<close>: the timers of the chain. The begin blocker advances every epoch whose duration has
  passed by one, runs the hooks of the other modules at its end and at the start of the next,
  and stores it. Times are nanoseconds since the zero time of Go, durations \<open>int64\<close> nanoseconds.
  The hooks are a parameter: each maps the state of the chain to an outcome, and
  \<open>ApplyFuncIfNoError\<close> of \<open>osmoutils/cache_ctx.go\<close> drops the changes of one that fails.
\<close>

section \<open>State\<close>

record EpochInfo =
  Identifier :: string
  StartTime :: int
  Duration :: int
  CurrentEpoch :: int
  CurrentEpochStartTime :: int
  EpochCountingStarted :: bool
  CurrentEpochStartHeight :: int

definition zero_EpochInfo :: EpochInfo where
  "zero_EpochInfo = \<lparr>Identifier = '''', StartTime = 0, Duration = 0, CurrentEpoch = 0, CurrentEpochStartTime = 0,
    EpochCountingStarted = False, CurrentEpochStartHeight = 0\<rparr>"

text \<open>\<open>time.Time.Unix\<close>: the seconds since 1970, from nanoseconds since year 1.\<close>

definition Unix :: "int \<Rightarrow> int" where
  "Unix t = int64 (t div 10 ^ 9 - 62135596800)"

datatype event = EpochEnd int | EpochStart int int

text \<open>The store of the module, the state of the other modules, and the events emitted.\<close>

record 'a chain =
  epoch_store :: "EpochInfo kv"
  app :: 'a
  events :: "event list"

record block =
  BlockTime :: int
  BlockHeight :: int

section \<open>Hooks\<close>

text \<open>How a call ends: normally, with an error, with a panic, or with one of the two gas panics.\<close>

datatype 's outcome = Done 's | Failed | Panicked | OutOfGas

text \<open>\<open>applyFunc\<close>: the function runs on a cache of the state that is written back on success only;
  gas panics are raised again. The flag tells whether an error is returned.\<close>

definition applyFunc :: "('s \<Rightarrow> 's outcome) \<Rightarrow> 's \<Rightarrow> ('s \<times> bool) res" where
  "applyFunc f ctx = (case f ctx of
     Done ctx' \<Rightarrow> Inr (ctx', False)
   | Failed \<Rightarrow> Inr (ctx, True)
   | Panicked \<Rightarrow> Inr (ctx, True)
   | OutOfGas \<Rightarrow> Inl (Panic ''out of gas''))"

definition ApplyFuncIfNoError :: "('s \<Rightarrow> 's outcome) \<Rightarrow> 's \<Rightarrow> ('s \<times> bool) res" where
  "ApplyFuncIfNoError f ctx = applyFunc f ctx"

record 'a EpochHooks =
  hook_AfterEpochEnd :: "string \<Rightarrow> int \<Rightarrow> 'a chain \<Rightarrow> 'a chain outcome"
  hook_BeforeEpochStart :: "string \<Rightarrow> int \<Rightarrow> 'a chain \<Rightarrow> 'a chain outcome"

definition panicCatchingEpochHook :: "(string \<Rightarrow> int \<Rightarrow> 's \<Rightarrow> 's outcome) \<Rightarrow> string \<Rightarrow> int \<Rightarrow> 's \<Rightarrow> 's res" where
  "panicCatchingEpochHook hookFn epochIdentifier epochNumber ctx =
    bindE (ApplyFuncIfNoError (hookFn epochIdentifier epochNumber) ctx) (\<lambda>(ctx, failed). Inr ctx)"

definition MultiEpochHooks_AfterEpochEnd :: "'a EpochHooks list \<Rightarrow> string \<Rightarrow> int \<Rightarrow> 'a chain \<Rightarrow> 'a chain res" where
  "MultiEpochHooks_AfterEpochEnd h epochIdentifier epochNumber ctx =
    foldE (\<lambda>ctx hook. panicCatchingEpochHook (hook_AfterEpochEnd hook) epochIdentifier epochNumber ctx) ctx h"

definition MultiEpochHooks_BeforeEpochStart :: "'a EpochHooks list \<Rightarrow> string \<Rightarrow> int \<Rightarrow> 'a chain \<Rightarrow> 'a chain res" where
  "MultiEpochHooks_BeforeEpochStart h epochIdentifier epochNumber ctx =
    foldE (\<lambda>ctx hook. panicCatchingEpochHook (hook_BeforeEpochStart hook) epochIdentifier epochNumber ctx) ctx h"

section \<open>Keeper\<close>

definition GetEpochInfo :: "'a chain \<Rightarrow> string \<Rightarrow> EpochInfo" where
  "GetEpochInfo ctx identifier = (case kv_get (epoch_store ctx) identifier of None \<Rightarrow> zero_EpochInfo | Some epoch \<Rightarrow> epoch)"

definition setEpochInfo :: "'a chain \<Rightarrow> EpochInfo \<Rightarrow> 'a chain" where
  "setEpochInfo ctx epoch = ctx\<lparr>epoch_store := kv_set (epoch_store ctx) (Identifier epoch) epoch\<rparr>"

definition DeleteEpochInfo :: "'a chain \<Rightarrow> string \<Rightarrow> 'a chain" where
  "DeleteEpochInfo ctx identifier = ctx\<lparr>epoch_store := kv_delete (epoch_store ctx) identifier\<rparr>"

definition EpochInfo_Validate :: "EpochInfo \<Rightarrow> unit res" where
  "EpochInfo_Validate epoch =
    (if Identifier epoch = '''' then Inl (Err ''epoch identifier should NOT be empty'')
     else if Duration epoch = 0 then Inl (Err ''epoch duration should NOT be 0'')
     else if CurrentEpoch epoch < 0 then Inl (Err ''epoch CurrentEpoch must be non-negative'')
     else if CurrentEpochStartHeight epoch < 0 then Inl (Err ''epoch CurrentEpochStartHeight must be non-negative'')
     else Inr ())"

definition AddEpochInfo :: "block \<Rightarrow> 'a chain \<Rightarrow> EpochInfo \<Rightarrow> 'a chain res" where
  "AddEpochInfo b ctx epoch =
    bindE (EpochInfo_Validate epoch) (\<lambda>_.
    if GetEpochInfo ctx (Identifier epoch) \<noteq> zero_EpochInfo then Inl (Err ''epoch with identifier already exists'')
    else
      let epoch = (if StartTime epoch = 0 then epoch\<lparr>StartTime := BlockTime b\<rparr> else epoch);
          epoch = epoch\<lparr>CurrentEpochStartHeight := BlockHeight b\<rparr> in
      Inr (setEpochInfo ctx epoch))"

text \<open>The loop over the entries the iterator was opened on; the callback gets the index, and its flag stops
  the loop.\<close>

fun iterate_epochs :: "(int \<Rightarrow> EpochInfo \<Rightarrow> 's \<Rightarrow> ('s \<times> bool) res) \<Rightarrow> int \<Rightarrow> EpochInfo list \<Rightarrow> 's \<Rightarrow> 's res" where
  "iterate_epochs fn i [] s = Inr s"
| "iterate_epochs fn i (epoch # es) s =
    bindE (fn i epoch s) (\<lambda>(s, stop). if stop then Inr s else iterate_epochs fn (i + 1) es s)"

definition IterateEpochInfo :: "'a chain \<Rightarrow> (int \<Rightarrow> EpochInfo \<Rightarrow> 's \<Rightarrow> ('s \<times> bool) res) \<Rightarrow> 's \<Rightarrow> 's res" where
  "IterateEpochInfo ctx fn s = iterate_epochs fn 0 (map snd (kv_entries (epoch_store ctx))) s"

lemma iterate_epochs_foldE: "iterate_epochs (\<lambda>i e s. bindE (g s e) (\<lambda>s. Inr (s, False))) i es s = foldE g s es"
proof (induction es arbitrary: i s)
  case (Cons e es)
  then show ?case by (cases "g s e") simp_all
qed simp

definition AllEpochInfos :: "'a chain \<Rightarrow> EpochInfo list" where
  "AllEpochInfos ctx = (case IterateEpochInfo ctx (\<lambda>index epochInfo epochs. Inr (epochs @ [epochInfo], False)) [] of Inr es \<Rightarrow> es | Inl _ \<Rightarrow> [])"

definition NumBlocksSinceEpochStart :: "block \<Rightarrow> 'a chain \<Rightarrow> string \<Rightarrow> int res" where
  "NumBlocksSinceEpochStart b ctx identifier =
    (let epoch = GetEpochInfo ctx identifier in
     if epoch = zero_EpochInfo then Inl (Err ''epoch with identifier not found'')
     else Inr (int64 (BlockHeight b - CurrentEpochStartHeight epoch)))"

definition CurrentEpoch_query :: "'a chain \<Rightarrow> string \<Rightarrow> int res" where
  "CurrentEpoch_query ctx identifier =
    (if identifier = '''' then Inl (Err ''identifier is empty'')
     else let info = GetEpochInfo ctx identifier in
       if Identifier info \<noteq> identifier then Inl (Err ''not available identifier'') else Inr (CurrentEpoch info))"

section \<open>Begin blocker\<close>

definition emit :: "'a chain \<Rightarrow> event \<Rightarrow> 'a chain" where
  "emit ctx e = ctx\<lparr>events := events ctx @ [e]\<rparr>"

text \<open>The callback of the begin blocker on one epoch.\<close>

definition begin_epoch :: "block \<Rightarrow> 'a EpochHooks list \<Rightarrow> 'a chain \<Rightarrow> EpochInfo \<Rightarrow> 'a chain res" where
  "begin_epoch b hooks ctx epochInfo =
    (if BlockTime b < StartTime epochInfo then Inr ctx
     else
       let shouldInitialEpochStart = \<not> EpochCountingStarted epochInfo;
           epochEndTime = CurrentEpochStartTime epochInfo + Duration epochInfo;
           shouldEpochStart = BlockTime b > epochEndTime \<or> shouldInitialEpochStart in
       if \<not> shouldEpochStart then Inr ctx
       else
         let epochInfo = epochInfo\<lparr>CurrentEpochStartHeight := BlockHeight b\<rparr> in
         bindE (if shouldInitialEpochStart then
             Inr (epochInfo\<lparr>EpochCountingStarted := True, CurrentEpoch := 1, CurrentEpochStartTime := StartTime epochInfo\<rparr>, ctx)
           else
             bindE (MultiEpochHooks_AfterEpochEnd hooks (Identifier epochInfo) (CurrentEpoch epochInfo)
                      (emit ctx (EpochEnd (CurrentEpoch epochInfo)))) (\<lambda>ctx.
             Inr (epochInfo\<lparr>CurrentEpoch := int64 (CurrentEpoch epochInfo + 1),
               CurrentEpochStartTime := CurrentEpochStartTime epochInfo + Duration epochInfo\<rparr>, ctx)))
         (\<lambda>(epochInfo, ctx).
         MultiEpochHooks_BeforeEpochStart hooks (Identifier epochInfo) (CurrentEpoch epochInfo)
           (setEpochInfo (emit ctx (EpochStart (CurrentEpoch epochInfo) (Unix (CurrentEpochStartTime epochInfo)))) epochInfo)))"

definition BeginBlocker :: "block \<Rightarrow> 'a EpochHooks list \<Rightarrow> 'a chain \<Rightarrow> 'a chain res" where
  "BeginBlocker b hooks ctx =
    IterateEpochInfo ctx (\<lambda>index epochInfo ctx. bindE (begin_epoch b hooks ctx epochInfo) (\<lambda>ctx. Inr (ctx, False))) ctx"

lemma BeginBlocker_foldE: "BeginBlocker b hooks ctx = foldE (begin_epoch b hooks) ctx (map snd (kv_entries (epoch_store ctx)))"
  by (simp add: BeginBlocker_def IterateEpochInfo_def iterate_epochs_foldE)

section \<open>Genesis\<close>

definition NewGenesisEpochInfo :: "string \<Rightarrow> int \<Rightarrow> EpochInfo" where
  "NewGenesisEpochInfo identifier d = \<lparr>Identifier = identifier, StartTime = 0, Duration = d, CurrentEpoch = 0,
    CurrentEpochStartTime = 0, EpochCountingStarted = False, CurrentEpochStartHeight = 0\<rparr>"

definition Hour :: int where
  "Hour = 3600 * 10 ^ 9"

definition DefaultGenesis :: "EpochInfo list" where
  "DefaultGenesis = [NewGenesisEpochInfo ''day'' (Hour * 24), NewGenesisEpochInfo ''hour'' Hour, NewGenesisEpochInfo ''week'' (Hour * 24 * 7)]"

fun validate_genesis :: "string list \<Rightarrow> EpochInfo list \<Rightarrow> unit res" where
  "validate_genesis epochIdentifiers [] = Inr ()"
| "validate_genesis epochIdentifiers (epoch # es) =
    bindE (EpochInfo_Validate epoch) (\<lambda>_.
    if Identifier epoch \<in> set epochIdentifiers then Inl (Err ''epoch identifier should be unique'')
    else validate_genesis (Identifier epoch # epochIdentifiers) es)"

definition GenesisState_Validate :: "EpochInfo list \<Rightarrow> unit res" where
  "GenesisState_Validate gs = validate_genesis [] gs"

definition InitGenesis :: "block \<Rightarrow> EpochInfo list \<Rightarrow> 'a chain \<Rightarrow> 'a chain res" where
  "InitGenesis b gs ctx = foldE (\<lambda>ctx epoch. case AddEpochInfo b ctx epoch of
     Inl (Err e) \<Rightarrow> Inl (Panic e) | r \<Rightarrow> r) ctx gs"

definition ExportGenesis :: "'a chain \<Rightarrow> EpochInfo list" where
  "ExportGenesis ctx = AllEpochInfos ctx"

section \<open>The hooks leave the timers alone\<close>

text \<open>What the chain's own hooks do: they never write to the store of this module.\<close>

definition keeps_epochs :: "'a EpochHooks list \<Rightarrow> bool" where
  "keeps_epochs hooks \<longleftrightarrow> (\<forall>h \<in> set hooks. \<forall>id n st st'.
    (hook_AfterEpochEnd h id n st = Done st' \<longrightarrow> epoch_store st' = epoch_store st) \<and>
    (hook_BeforeEpochStart h id n st = Done st' \<longrightarrow> epoch_store st' = epoch_store st))"

definition no_gas_panic :: "'a EpochHooks list \<Rightarrow> bool" where
  "no_gas_panic hooks \<longleftrightarrow> (\<forall>h \<in> set hooks. \<forall>id n st. hook_AfterEpochEnd h id n st \<noteq> OutOfGas \<and> hook_BeforeEpochStart h id n st \<noteq> OutOfGas)"

lemma panicCatchingEpochHook_cases:
  "panicCatchingEpochHook f i n st = (case f i n st of Done st' \<Rightarrow> Inr st' | OutOfGas \<Rightarrow> Inl (Panic ''out of gas'') | _ \<Rightarrow> Inr st)"
  by (simp add: panicCatchingEpochHook_def ApplyFuncIfNoError_def applyFunc_def split: outcome.splits)

lemma hooks_keep_epochs:
  assumes "keeps_epochs hooks"
  shows "MultiEpochHooks_AfterEpochEnd hooks i n st = Inr st' \<Longrightarrow> epoch_store st' = epoch_store st"
    and "MultiEpochHooks_BeforeEpochStart hooks i n st = Inr st' \<Longrightarrow> epoch_store st' = epoch_store st"
  using assms unfolding keeps_epochs_def MultiEpochHooks_AfterEpochEnd_def MultiEpochHooks_BeforeEpochStart_def
  by (auto simp: panicCatchingEpochHook_cases split: outcome.splits elim!: foldE_invariant [where P = "\<lambda>s. epoch_store s = epoch_store st"])

lemma hooks_total:
  assumes "no_gas_panic hooks"
  shows "\<exists>st'. MultiEpochHooks_AfterEpochEnd hooks i n st = Inr st'" "\<exists>st'. MultiEpochHooks_BeforeEpochStart hooks i n st = Inr st'"
  using assms unfolding no_gas_panic_def MultiEpochHooks_AfterEpochEnd_def MultiEpochHooks_BeforeEpochStart_def
  by (auto intro!: foldE_total simp: panicCatchingEpochHook_cases split: outcome.splits)

section \<open>One block\<close>

text \<open>What a block makes of an epoch.\<close>

definition due :: "block \<Rightarrow> EpochInfo \<Rightarrow> bool" where
  "due b e \<longleftrightarrow> StartTime e \<le> BlockTime b \<and> (EpochCountingStarted e \<longrightarrow> CurrentEpochStartTime e + Duration e < BlockTime b)"

definition advance :: "block \<Rightarrow> EpochInfo \<Rightarrow> EpochInfo" where
  "advance b e =
    (if \<not> due b e then e
     else if EpochCountingStarted e then e\<lparr>CurrentEpochStartHeight := BlockHeight b, CurrentEpoch := int64 (CurrentEpoch e + 1),
       CurrentEpochStartTime := CurrentEpochStartTime e + Duration e\<rparr>
     else e\<lparr>CurrentEpochStartHeight := BlockHeight b, EpochCountingStarted := True, CurrentEpoch := 1, CurrentEpochStartTime := StartTime e\<rparr>)"

lemma Identifier_advance [simp]: "Identifier (advance b e) = Identifier e" "StartTime (advance b e) = StartTime e" "Duration (advance b e) = Duration e"
  by (simp_all add: advance_def)

lemma begin_epoch_store:
  assumes "keeps_epochs hooks" "begin_epoch b hooks st e = Inr st'"
  shows "epoch_store st' = (if due b e then kv_set (epoch_store st) (Identifier e) (advance b e) else epoch_store st)"
  using assms(2)
  by (auto simp: begin_epoch_def Let_def due_def advance_def setEpochInfo_def emit_def elim!: bindE_InrE split: if_splits
      dest!: hooks_keep_epochs [OF assms(1)])

lemma begin_epoch_total:
  assumes "no_gas_panic hooks"
  shows "\<exists>st'. begin_epoch b hooks st e = Inr st'"
proof -
  have after: "\<exists>st'. MultiEpochHooks_AfterEpochEnd hooks (Identifier e) (CurrentEpoch e) (emit st (EpochEnd (CurrentEpoch e))) = Inr st'"
    by (rule hooks_total [OF assms])
  then show ?thesis using hooks_total(2) [OF assms] by (auto simp: begin_epoch_def Let_def)
qed

text \<open>A store whose entries sit under their own identifiers.\<close>

definition wf_epochs :: "EpochInfo kv \<Rightarrow> bool" where
  "wf_epochs s \<longleftrightarrow> kv_ordered s \<and> (\<forall>k e. kv_get s k = Some e \<longrightarrow> Identifier e = k)"

lemma wf_epochs_set: "wf_epochs s \<Longrightarrow> i = Identifier e \<Longrightarrow> wf_epochs (kv_set s i e)"
  by (simp add: wf_epochs_def kv.get_set kv.invar_set)

lemma begin_epochs_store:
  assumes "keeps_epochs hooks" "foldE (begin_epoch b hooks) st (map snd es) = Inr st'" "wf_epochs (epoch_store st)"
    "distinct (map fst es)" "\<And>k e. (k, e) \<in> set es \<Longrightarrow> kv_get (epoch_store st) k = Some e"
  shows "wf_epochs (epoch_store st')"
    "kv_get (epoch_store st') j = (case map_of es j of Some e \<Rightarrow> Some (advance b e) | None \<Rightarrow> kv_get (epoch_store st) j)"
proof -
  have "wf_epochs (epoch_store st') \<and>
    kv_get (epoch_store st') j = (case map_of es j of Some e \<Rightarrow> Some (advance b e) | None \<Rightarrow> kv_get (epoch_store st) j)"
    using assms(2-5)
  proof (induction es arbitrary: st)
    case (Cons x es)
    obtain k e where x: "x = (k, e)" by fastforce
    have "bindE (begin_epoch b hooks st e) (\<lambda>s'. foldE (begin_epoch b hooks) s' (map snd es)) = Inr st'"
      using Cons.prems(1) by (simp add: x)
    then obtain st1 where st1: "begin_epoch b hooks st e = Inr st1" "foldE (begin_epoch b hooks) st1 (map snd es) = Inr st'"
      by (rule bindE_InrE)
    have e: "kv_get (epoch_store st) k = Some e" using Cons.prems(4) [of k e] by (simp add: x)
    then have k: "Identifier e = k" using Cons.prems(2) by (simp add: wf_epochs_def)
    note st1_store = begin_epoch_store [OF assms(1) st1(1)]
    have upd: "kv_get (epoch_store st1) i = (if i = k then Some (advance b e) else kv_get (epoch_store st) i)" for i
      unfolding st1_store using e k by (cases "due b e") (simp_all add: kv_get_set advance_def)
    have wf: "wf_epochs (epoch_store st1)"
      unfolding st1_store using Cons.prems(2) by (auto intro!: wf_epochs_set)
    have "kv_get (epoch_store st1) i = Some f" if "(i, f) \<in> set es" for i f
    proof -
      have "i \<in> fst ` set es" using that by (rule image_eqI [rotated]) simp
      then have "i \<noteq> k" using Cons.prems(3) by (auto simp: x)
      then show ?thesis using that Cons.prems(4) by (simp add: upd x)
    qed
    moreover have d: "distinct (map fst es)" "map_of es k = None" using Cons.prems(3) by (simp_all add: x map_of_eq_None_iff)
    ultimately have ih: "wf_epochs (epoch_store st')"
      "kv_get (epoch_store st') j = (case map_of es j of Some e \<Rightarrow> Some (advance b e) | None \<Rightarrow> kv_get (epoch_store st1) j)"
      using Cons.IH [OF st1(2) wf d(1)] by blast+
    then show ?case using d(2) upd [of j] by (cases "j = k") (simp_all add: x split: option.splits)
  qed simp
  then show "wf_epochs (epoch_store st')"
    "kv_get (epoch_store st') j = (case map_of es j of Some e \<Rightarrow> Some (advance b e) | None \<Rightarrow> kv_get (epoch_store st) j)"
    by blast+
qed

lemma BeginBlocker_store:
  assumes "keeps_epochs hooks" "wf_epochs (epoch_store st)" "BeginBlocker b hooks st = Inr st'"
  shows "wf_epochs (epoch_store st')" "kv_get (epoch_store st') k = map_option (advance b) (kv_get (epoch_store st) k)"
proof -
  have inv: "kv_ordered (epoch_store st)" using assms(2) by (simp add: wf_epochs_def)
  note r = begin_epochs_store [OF assms(1) _ assms(2) kv.entries_distinct [OF inv], of b st']
  have f: "foldE (begin_epoch b hooks) st (map snd (kv_entries (epoch_store st))) = Inr st'"
    using assms(3) by (simp add: BeginBlocker_foldE)
  show "wf_epochs (epoch_store st')" by (rule r(1) [OF f]) (use kv.entries_get [OF inv] in auto)
  show "kv_get (epoch_store st') k = map_option (advance b) (kv_get (epoch_store st) k)"
    using r(2) [OF f, of k] kv.entries_get [OF inv] kv.map_of_entries [OF inv, of k] by (auto split: option.splits)
qed

lemma BeginBlocker_total: "no_gas_panic hooks \<Longrightarrow> \<exists>st'. BeginBlocker b hooks st = Inr st'"
  unfolding BeginBlocker_foldE by (intro foldE_total begin_epoch_total)

section \<open>Runs of the chain\<close>

text \<open>An epoch on schedule: once counting has started, epoch \<open>n\<close> starts \<open>n - 1\<close> durations after the start
  time, whatever the times of the blocks.\<close>

definition on_schedule :: "EpochInfo \<Rightarrow> bool" where
  "on_schedule e \<longleftrightarrow> (EpochCountingStarted e \<longrightarrow> 1 \<le> CurrentEpoch e \<and>
    CurrentEpochStartTime e = StartTime e + (CurrentEpoch e - 1) * Duration e)"

definition all_on_schedule :: "'a chain \<Rightarrow> bool" where
  "all_on_schedule st \<longleftrightarrow> wf_epochs (epoch_store st) \<and> (\<forall>k e. kv_get (epoch_store st) k = Some e \<longrightarrow> on_schedule e)"

text \<open>The steps of the chain that touch the module: a block, as long as the epoch numbers fit, an epoch
  added by an upgrade or at genesis before its counting has started, and one deleted.\<close>

inductive chain_step :: "'a EpochHooks list \<Rightarrow> 'a chain \<Rightarrow> 'a chain \<Rightarrow> bool" for hooks where
  block: "BeginBlocker b hooks st = Inr st' \<Longrightarrow> \<forall>k e. kv_get (epoch_store st) k = Some e \<longrightarrow> CurrentEpoch e < 2 ^ 63 - 1 \<Longrightarrow> chain_step hooks st st'"
| add: "AddEpochInfo b st e = Inr st' \<Longrightarrow> \<not> EpochCountingStarted e \<Longrightarrow> chain_step hooks st st'"
| delete: "chain_step hooks st (DeleteEpochInfo st k)"

inductive reachable :: "'a EpochHooks list \<Rightarrow> 'a chain \<Rightarrow> 'a chain \<Rightarrow> bool" for hooks st0 where
  start: "reachable hooks st0 st0"
| step: "reachable hooks st0 st \<Longrightarrow> chain_step hooks st st' \<Longrightarrow> reachable hooks st0 st'"

lemma on_schedule_advance:
  assumes "on_schedule e" "CurrentEpoch e < 2 ^ 63 - 1"
  shows "on_schedule (advance b e)"
proof (cases "due b e \<and> EpochCountingStarted e")
  case True
  with assms(1) have "1 \<le> CurrentEpoch e" by (simp add: on_schedule_def)
  with assms(2) have "int64 (CurrentEpoch e + 1) = CurrentEpoch e + 1" by (intro int64_id) (simp add: IsInt64_def)
  with True assms(1) show ?thesis by (simp add: on_schedule_def advance_def algebra_simps)
next
  case False
  with assms(1) show ?thesis by (auto simp: on_schedule_def advance_def)
qed

lemma chain_step_on_schedule:
  assumes "keeps_epochs hooks" "all_on_schedule st" "chain_step hooks st st'"
  shows "all_on_schedule st'"
  using assms(3)
proof cases
  case b: (block b)
  have wf: "wf_epochs (epoch_store st)" using assms(2) by (simp add: all_on_schedule_def)
  show ?thesis
    using BeginBlocker_store [OF assms(1) wf b(1)] b(2) assms(2) on_schedule_advance by (auto simp: all_on_schedule_def)
next
  case (add b e)
  then show ?thesis
    using assms(2)
    by (auto intro!: wf_epochs_set simp: all_on_schedule_def AddEpochInfo_def Let_def setEpochInfo_def kv_get_set on_schedule_def elim!: bindE_InrE split: if_splits)
next
  case (delete k)
  then show ?thesis
    using assms(2) by (auto simp: all_on_schedule_def wf_epochs_def DeleteEpochInfo_def kv.get_delete kv.invar_delete split: if_splits)
qed

section \<open>Export and import\<close>

lemma AllEpochInfos_entries: "AllEpochInfos ctx = map snd (kv_entries (epoch_store ctx))"
proof -
  have "iterate_epochs (\<lambda>index epochInfo epochs. Inr (epochs @ [epochInfo], False)) i es acc = Inr (acc @ es)" for i es acc
    by (induction es arbitrary: i acc) simp_all
  then show ?thesis by (simp add: AllEpochInfos_def IterateEpochInfo_def)
qed

lemma validate_genesis_valid:
  "(\<forall>e \<in> set es. EpochInfo_Validate e = Inr ()) \<Longrightarrow> distinct (map Identifier es) \<Longrightarrow> Identifier ` set es \<inter> set ids = {} \<Longrightarrow>
   validate_genesis ids es = Inr ()"
proof (induction es arbitrary: ids)
  case (Cons e es)
  have "validate_genesis (Identifier e # ids) es = Inr ()" by (rule Cons.IH) (use Cons.prems in auto)
  then show ?case using Cons.prems by auto
qed simp

lemma InitGenesis_store:
  assumes "\<forall>e \<in> set es. EpochInfo_Validate e = Inr () \<and> StartTime e \<noteq> 0" "distinct (map Identifier es)"
    "\<forall>e \<in> set es. kv_get (epoch_store ctx) (Identifier e) = None"
  shows "\<exists>ctx'. InitGenesis b es ctx = Inr ctx' \<and> (\<forall>k. kv_get (epoch_store ctx') k =
    (case map_of (map (\<lambda>e. (Identifier e, e)) es) k of Some e \<Rightarrow> Some (e\<lparr>CurrentEpochStartHeight := BlockHeight b\<rparr>)
     | None \<Rightarrow> kv_get (epoch_store ctx) k))"
  using assms
proof (induction es arbitrary: ctx)
  case (Cons e es)
  let ?ctx = "setEpochInfo ctx (e\<lparr>CurrentEpochStartHeight := BlockHeight b\<rparr>)"
  have add: "AddEpochInfo b ctx e = Inr ?ctx"
    using Cons.prems(1,3) by (simp add: AddEpochInfo_def GetEpochInfo_def)
  have "\<forall>f \<in> set es. kv_get (epoch_store ?ctx) (Identifier f) = None"
    using Cons.prems(2,3) by (auto simp: setEpochInfo_def kv_get_set intro: rev_image_eqI)
  then obtain ctx' where ctx': "InitGenesis b es ?ctx = Inr ctx'"
    "\<forall>k. kv_get (epoch_store ctx') k = (case map_of (map (\<lambda>e. (Identifier e, e)) es) k of
       Some e \<Rightarrow> Some (e\<lparr>CurrentEpochStartHeight := BlockHeight b\<rparr>) | None \<Rightarrow> kv_get (epoch_store ?ctx) k)"
    using Cons.IH [of ?ctx] Cons.prems(1,2) by auto
  have fresh: "map_of (map (\<lambda>e. (Identifier e, e)) es) (Identifier e) = None"
    using Cons.prems(2) by (auto simp: map_of_eq_None_iff)
  have "InitGenesis b (e # es) ctx = Inr ctx'" using add ctx'(1) by (simp add: InitGenesis_def)
  moreover have "kv_get (epoch_store ?ctx) k = (if k = Identifier e then Some (e\<lparr>CurrentEpochStartHeight := BlockHeight b\<rparr>) else kv_get (epoch_store ctx) k)" for k
    by (simp add: setEpochInfo_def kv_get_set)
  ultimately show ?case using ctx'(2) fresh by (auto split: option.splits)
qed (simp add: InitGenesis_def)

section \<open>Properties\<close>

text \<open>C4: Epochs never drift: in every state the chain reaches, epoch \<open>n\<close> of a timer starts exactly \<open>n - 1\<close>
  durations after its start time, however late its blocks came, provided the hooks do not
  write to the module's store.\<close>

theorem epochs_never_drift:
  assumes "keeps_epochs hooks" "all_on_schedule st0" "reachable hooks st0 st"
    "kv_get (epoch_store st) k = Some e" "EpochCountingStarted e"
  shows "CurrentEpochStartTime e = StartTime e + (CurrentEpoch e - 1) * Duration e \<and> 1 \<le> CurrentEpoch e \<and> Identifier e = k"
proof -
  from assms(3) have "all_on_schedule st"
    by induction (use assms(1,2) chain_step_on_schedule in auto)
  with assms(4,5) show ?thesis by (auto simp: all_on_schedule_def on_schedule_def wf_epochs_def)
qed

text \<open>A chain with no hooks that runs one block with the default timers.\<close>

definition example_chain :: "unit chain" where
  "example_chain = \<lparr>epoch_store = [(''hour'', (NewGenesisEpochInfo ''hour'' Hour)\<lparr>StartTime := 5\<rparr>)], app = (), events = []\<rparr>"

theorem epochs_never_drift_witness:
  "\<exists>st e. reachable [] example_chain st \<and> kv_get (epoch_store st) ''hour'' = Some e \<and> EpochCountingStarted e \<and>
    CurrentEpochStartTime e = StartTime e + (CurrentEpoch e - 1) * Duration e"
proof -
  let ?b = "\<lparr>BlockTime = 9, BlockHeight = 1\<rparr>"
  obtain st where st: "BeginBlocker ?b [] example_chain = Inr st"
    using BeginBlocker_total [of "[] :: unit EpochHooks list"] by (auto simp: no_gas_panic_def)
  have k: "keeps_epochs ([] :: unit EpochHooks list)" by (simp add: keeps_epochs_def)
  have wf: "wf_epochs (epoch_store example_chain)" "all_on_schedule example_chain"
    by (auto simp: example_chain_def all_on_schedule_def wf_epochs_def on_schedule_def kv_ordered_def NewGenesisEpochInfo_def split: if_splits)
  have r: "reachable [] example_chain st"
    by (rule reachable.step [OF reachable.start chain_step.block [OF st]]) (auto simp: example_chain_def NewGenesisEpochInfo_def split: if_splits)
  have "kv_get (epoch_store st) ''hour'' = Some (advance ?b ((NewGenesisEpochInfo ''hour'' Hour)\<lparr>StartTime := 5\<rparr>))"
    using BeginBlocker_store(2) [OF k wf(1) st, of "''hour''"] by (simp add: example_chain_def)
  moreover have "EpochCountingStarted (advance ?b ((NewGenesisEpochInfo ''hour'' Hour)\<lparr>StartTime := 5\<rparr>))"
    by (simp add: advance_def due_def NewGenesisEpochInfo_def)
  ultimately show ?thesis using epochs_never_drift [OF k wf(2) r] r by blast
qed

text \<open>C11: A timer catches up: after enough blocks past a time, one for every duration that is missing, the
  current epoch of the timer reaches that time, even when the chain had halted for many epochs.\<close>

theorem epochs_catch_up:
  assumes "keeps_epochs hooks" "no_gas_panic hooks" "wf_epochs (epoch_store st)"
    "kv_get (epoch_store st) k = Some e" "EpochCountingStarted e" "StartTime e \<le> t" "0 < Duration e"
    "\<forall>b \<in> set bs. t \<le> BlockTime b" "t \<le> CurrentEpochStartTime e + (1 + int (length bs)) * Duration e"
  shows "\<exists>st' e'. foldE (\<lambda>st b. BeginBlocker b hooks st) st bs = Inr st' \<and> kv_get (epoch_store st') k = Some e' \<and>
    t \<le> CurrentEpochStartTime e' + Duration e'"
  using assms(3-9)
proof (induction bs arbitrary: st e)
  case Nil
  then show ?case by simp
next
  case (Cons b bs)
  obtain st1 where st1: "BeginBlocker b hooks st = Inr st1" using BeginBlocker_total [OF assms(2)] by blast
  note s1 = BeginBlocker_store [OF assms(1) Cons.prems(1) st1]
  have e1: "kv_get (epoch_store st1) k = Some (advance b e)" using s1(2) [of k] Cons.prems(2) by simp
  have started: "EpochCountingStarted (advance b e)" using Cons.prems(3) by (simp add: advance_def)
  have "t \<le> CurrentEpochStartTime (advance b e) + (1 + int (length bs)) * Duration (advance b e)"
  proof (cases "due b e")
    case True
    then show ?thesis using Cons.prems(3,7) by (simp add: advance_def algebra_simps)
  next
    case False
    then have "t \<le> CurrentEpochStartTime e + Duration e" using Cons.prems(3,4,6) by (auto simp: due_def)
    also have "\<dots> \<le> CurrentEpochStartTime e + (1 + int (length bs)) * Duration e" using Cons.prems(5) by (simp add: distrib_right)
    finally show ?thesis using False by (simp add: advance_def)
  qed
  from Cons.IH [OF s1(1) e1 started _ _ _ this] Cons.prems(4-6) show ?case by (simp add: st1)
qed

theorem epochs_catch_up_witness:
  "let e = (NewGenesisEpochInfo ''hour'' 10)\<lparr>EpochCountingStarted := True, CurrentEpoch := 1\<rparr>;
       st = \<lparr>epoch_store = [(''hour'', e)], app = (), events = []\<rparr>; b = \<lparr>BlockTime = 35, BlockHeight = 7\<rparr> in
   \<exists>st' e'. foldE (\<lambda>st b. BeginBlocker b [] st) st [b, b, b] = Inr st' \<and> kv_get (epoch_store st') ''hour'' = Some e' \<and>
     35 \<le> CurrentEpochStartTime e' + Duration e'"
proof -
  let ?e = "(NewGenesisEpochInfo ''hour'' 10)\<lparr>EpochCountingStarted := True, CurrentEpoch := 1\<rparr>"
  let ?st = "\<lparr>epoch_store = [(''hour'', ?e)], app = (), events = []\<rparr>" and ?b = "\<lparr>BlockTime = 35, BlockHeight = 7\<rparr>"
  have "wf_epochs (epoch_store ?st)" by (auto simp: wf_epochs_def kv_ordered_def NewGenesisEpochInfo_def split: if_splits)
  from epochs_catch_up [of "[] :: unit EpochHooks list", OF _ _ this, of "''hour''" ?e 35 "[?b, ?b, ?b]"]
  show ?thesis unfolding Let_def by (simp add: keeps_epochs_def no_gas_panic_def NewGenesisEpochInfo_def del: foldE.simps)
qed







end
