(* ===== verification/Dag.thy ===== *)
theory Dag
  imports Go_Prelude "HOL-Library.AList" "HOL-Library.Multiset" "HOL-Library.Char_ord" "HOL-Library.List_Lexorder"
begin

text \<open>
  \<open>osmoutils/partialord/internal/dag\<close>: a directed graph over named nodes kept as adjacency maps that hold
  an edge at both its ends, and its topological sort by Kahn's algorithm. A Go map is an
  association list; where the code ranges over a map the model takes the order of the list, and
  the sort is shown not to depend on it. An index beyond a slice panics.
\<close>

section \<open>Graphs\<close>

type_synonym adjacency = "(nat \<times> int) list"

record DAG =
  directedEdgeList :: "adjacency list"
  nodeNameToId :: "(string \<times> nat) list"
  idToNodeNames :: "(nat \<times> string) list"

definition NewDAG :: "string list \<Rightarrow> DAG res" where
  "NewDAG nodes =
    (let nameToId = foldl (\<lambda>m (i, node). AList.update node i m) [] (enumerate 0 nodes);
         idToNames = foldl (\<lambda>m (i, node). AList.update i node m) [] (enumerate 0 nodes) in
     if length nameToId \<noteq> length nodes then Inl (Panic ''provided multiple nodes with the same name'')
     else Inr \<lparr>directedEdgeList = replicate (length nodes) [], nodeNameToId = nameToId, idToNodeNames = idToNames\<rparr>)"

definition DAG_Copy :: "DAG \<Rightarrow> DAG res" where
  "DAG_Copy dag =
    bindE (foldE (\<lambda>acc i. bindE (go_index (directedEdgeList dag) i) (\<lambda>originalEdgeList. Inr (acc @ [originalEdgeList])))
             [] [0..<length (nodeNameToId dag)]) (\<lambda>edges.
    Inr (dag\<lparr>directedEdgeList := edges\<rparr>))"

definition hasDirectedEdge :: "DAG \<Rightarrow> nat \<Rightarrow> nat \<Rightarrow> bool res" where
  "hasDirectedEdge dag u v = bindE (go_index (directedEdgeList dag) u) (\<lambda>uAdjacencyList. Inr (map_of uAdjacencyList v \<noteq> None))"

text \<open>The assignment \<open>dag.directedEdgeList[u][v] = d\<close>, and the deletion of a key of one adjacency map.\<close>

definition set_direction :: "DAG \<Rightarrow> nat \<Rightarrow> nat \<Rightarrow> int \<Rightarrow> DAG res" where
  "set_direction dag u v d = bindE (go_index (directedEdgeList dag) u) (\<lambda>l.
    Inr (dag\<lparr>directedEdgeList := (directedEdgeList dag)[u := AList.update v d l]\<rparr>))"

definition delete_key :: "DAG \<Rightarrow> nat \<Rightarrow> nat \<Rightarrow> DAG res" where
  "delete_key dag u v = bindE (go_index (directedEdgeList dag) u) (\<lambda>l.
    Inr (dag\<lparr>directedEdgeList := (directedEdgeList dag)[u := AList.delete v l]\<rparr>))"

definition replaceEdge :: "DAG \<Rightarrow> nat \<Rightarrow> nat \<Rightarrow> DAG res" where
  "replaceEdge dag u v =
    (if u = v then Inl (Err ''can't make self-edge'')
     else bindE (set_direction dag u v 1) (\<lambda>dag. set_direction dag v u (- 1)))"

definition addEdge :: "DAG \<Rightarrow> nat \<Rightarrow> nat \<Rightarrow> DAG res" where
  "addEdge dag u v =
    (if u = v then Inl (Err ''can't make self-edge'')
     else bindE (hasDirectedEdge dag v u) (\<lambda>conflict.
       if conflict then Inl (Err ''dag has conflicting edge'')
       else bindE (set_direction dag u v 1) (\<lambda>dag. set_direction dag v u (- 1))))"

definition resetEdges :: "DAG \<Rightarrow> nat \<Rightarrow> DAG res" where
  "resetEdges dag u =
    bindE (go_index (directedEdgeList dag) u) (\<lambda>edges.
    bindE (foldE (\<lambda>dag v. delete_key dag v u) dag (map fst edges)) (\<lambda>dag.
    Inr (dag\<lparr>directedEdgeList := (directedEdgeList dag)[u := []]\<rparr>)))"

definition deleteEdge :: "DAG \<Rightarrow> nat \<Rightarrow> nat \<Rightarrow> DAG res" where
  "deleteEdge dag u v = bindE (delete_key dag u v) (\<lambda>dag. delete_key dag v u)"

definition AddEdge :: "DAG \<Rightarrow> string \<Rightarrow> string \<Rightarrow> DAG res" where
  "AddEdge dag u v = (case (map_of (nodeNameToId dag) u, map_of (nodeNameToId dag) v) of
     (Some uIndex, Some vIndex) \<Rightarrow> addEdge dag uIndex vIndex
   | _ \<Rightarrow> Inl (Err ''node does not exist in dag''))"

definition ReplaceEdge :: "DAG \<Rightarrow> string \<Rightarrow> string \<Rightarrow> DAG res" where
  "ReplaceEdge dag u v = (case (map_of (nodeNameToId dag) u, map_of (nodeNameToId dag) v) of
     (Some uIndex, Some vIndex) \<Rightarrow> replaceEdge dag uIndex vIndex
   | _ \<Rightarrow> Inl (Err ''node does not exist in dag''))"

definition namesToIds :: "DAG \<Rightarrow> string list \<Rightarrow> nat list res" where
  "namesToIds dag names = foldE (\<lambda>nodeIds name. case map_of (nodeNameToId dag) name of
     None \<Rightarrow> Inl (Err ''node does not exist in dag'') | Some nodeIndex \<Rightarrow> Inr (nodeIds @ [nodeIndex])) [] names"

text \<open>The nodes of the graph in the order of their numbers, without the given ones.\<close>

definition other_nodes :: "DAG \<Rightarrow> nat list \<Rightarrow> nat list" where
  "other_nodes dag nodes = filter (\<lambda>i. i \<notin> set nodes) [0..<length (nodeNameToId dag)]"

definition addFirst :: "DAG \<Rightarrow> nat list \<Rightarrow> DAG res" where
  "addFirst dag nodes =
    (if nodes = [] then Inl (Panic ''index out of range'')
     else
       bindE (foldE (\<lambda>dag i. replaceEdge dag (last nodes) i) dag (other_nodes dag nodes)) (\<lambda>dag.
       foldE (\<lambda>dag i. bindE (resetEdges dag (nodes ! i)) (\<lambda>dag. replaceEdge dag (nodes ! i) (nodes ! (i + 1))))
         dag (rev [0..<length nodes - 1])))"

definition AddFirstElements :: "DAG \<Rightarrow> string list \<Rightarrow> DAG res" where
  "AddFirstElements dag nodes = bindE (namesToIds dag nodes) (\<lambda>nodeIds. addFirst dag nodeIds)"

definition addLast :: "DAG \<Rightarrow> nat list \<Rightarrow> DAG res" where
  "addLast dag nodes =
    (if nodes = [] then Inl (Panic ''index out of range'')
     else
       bindE (foldE (\<lambda>dag i. replaceEdge dag i (nodes ! 0)) dag (other_nodes dag nodes)) (\<lambda>dag.
       foldE (\<lambda>dag i. bindE (resetEdges dag (nodes ! i)) (\<lambda>dag. replaceEdge dag (nodes ! (i - 1)) (nodes ! i)))
         dag [1..<length nodes]))"

definition AddLastElements :: "DAG \<Rightarrow> string list \<Rightarrow> DAG res" where
  "AddLastElements dag nodes = bindE (namesToIds dag nodes) (\<lambda>nodeIds. addLast dag nodeIds)"

definition hasEdges :: "DAG \<Rightarrow> bool" where
  "hasEdges dag \<longleftrightarrow> (\<exists>m \<in> set (directedEdgeList dag). 0 < length m)"

definition idsToNames :: "DAG \<Rightarrow> nat list \<Rightarrow> string list res" where
  "idsToNames dag ids = foldE (\<lambda>sortedNames i. bindE (go_index ids i) (\<lambda>id.
     Inr (sortedNames @ [case map_of (idToNodeNames dag) id of None \<Rightarrow> [] | Some name \<Rightarrow> name]))) [] [0..<length (nodeNameToId dag)]"

definition hasIncomingEdge :: "DAG \<Rightarrow> nat \<Rightarrow> bool res" where
  "hasIncomingEdge dag u = bindE (go_index (directedEdgeList dag) u) (\<lambda>adjacencyList. Inr (\<exists>(k, v) \<in> set adjacencyList. v = - 1))"

definition topologicalTopLevelNodes :: "DAG \<Rightarrow> nat list res" where
  "topologicalTopLevelNodes dag = foldE (\<lambda>topLevelNodes i. bindE (hasIncomingEdge dag i) (\<lambda>incoming.
     Inr (if incoming then topLevelNodes else topLevelNodes @ [i]))) [] [0..<length (nodeNameToId dag)]"

section \<open>The topological sort\<close>

text \<open>The body of the loop over the successors \<open>m\<close> of a popped node \<open>n\<close>.\<close>

definition remove_edge :: "nat \<Rightarrow> DAG \<times> nat list \<Rightarrow> nat \<Rightarrow> (DAG \<times> nat list) res" where
  "remove_edge n = (\<lambda>(G, topLevelNodes) m.
    bindE (deleteEdge G n m) (\<lambda>G.
    bindE (hasIncomingEdge G m) (\<lambda>incoming.
    Inr (G, if incoming then topLevelNodes else topLevelNodes @ [m]))))"

text \<open>Every pass takes a node off the list and adds at most as many as it deletes entries, so the number of
  entries plus the length of the list falls, in every graph.\<close>

definition entries :: "adjacency list \<Rightarrow> nat" where
  "entries E = sum_list (map length E)"

declare bindE_cong [fundef_cong]

lemma deleteEdge_list:
  assumes "deleteEdge G n m = Inr G'"
  shows "directedEdgeList G' = (let E = (directedEdgeList G)[n := AList.delete m (directedEdgeList G ! n)] in E[m := AList.delete n (E ! m)])"
    "n < length (directedEdgeList G)" "m < length (directedEdgeList G)"
  using assms by (auto simp: deleteEdge_def delete_key_def go_index_def Let_def split: if_splits)

function topo_loop :: "DAG \<Rightarrow> nat list \<Rightarrow> nat list \<Rightarrow> (DAG \<times> nat list) res" where
  "topo_loop G [] sortedIDs = Inr (G, sortedIDs)"
| "topo_loop G (n # topLevelNodes) sortedIDs =
    bindE (go_index (directedEdgeList G) n) (\<lambda>nEdgeList.
    if \<exists>(m, direction) \<in> set nEdgeList. direction \<noteq> 1
    then Inl (Panic ''dag: topological sort correctness error'')
    else
      bindE (foldE (remove_edge n) (G, topLevelNodes) (sort (map fst nEdgeList))) (\<lambda>(G, topLevelNodes).
      topo_loop G topLevelNodes (sortedIDs @ [n])))"
  by pat_completeness auto

lemma remove_edges_measure:
  assumes "foldE (remove_edge n) (G, tops) ms = Inr (G', tops')"
  shows "length tops' \<le> length tops + length ms" "length (directedEdgeList G') = length (directedEdgeList G)"
    "\<forall>i < length (directedEdgeList G). set (directedEdgeList G' ! i) \<subseteq> set (directedEdgeList G ! i) \<and>
       length (directedEdgeList G' ! i) \<le> length (directedEdgeList G ! i)"
    "\<forall>x \<in> set (directedEdgeList G' ! n). n < length (directedEdgeList G) \<longrightarrow> fst x \<notin> set ms"
proof -
  have "length tops' \<le> length tops + length ms \<and> length (directedEdgeList G') = length (directedEdgeList G) \<and>
    (\<forall>i < length (directedEdgeList G). set (directedEdgeList G' ! i) \<subseteq> set (directedEdgeList G ! i) \<and>
       length (directedEdgeList G' ! i) \<le> length (directedEdgeList G ! i)) \<and>
    (\<forall>x \<in> set (directedEdgeList G' ! n). n < length (directedEdgeList G) \<longrightarrow> fst x \<notin> set ms)"
    using assms
  proof (induction ms arbitrary: G tops)
    case (Cons m ms)
    from Cons.prems obtain G1 tops1 where 1: "remove_edge n (G, tops) m = Inr (G1, tops1)" "foldE (remove_edge n) (G1, tops1) ms = Inr (G', tops')"
      by auto
    from 1(1) have d: "deleteEdge G n m = Inr G1" and t: "length tops1 \<le> Suc (length tops)"
      by (auto simp: remove_edge_def split: if_splits)
    note E1 = deleteEdge_list [OF d]
    have step: "set (directedEdgeList G1 ! i) \<subseteq> set (directedEdgeList G ! i) \<and> length (directedEdgeList G1 ! i) \<le> length (directedEdgeList G ! i)"
      if "i < length (directedEdgeList G)" for i
      using that E1 by (auto simp: Let_def nth_list_update AList.delete_eq le_trans [OF length_filter_le])
    have gone: "fst x \<noteq> m" if "x \<in> set (directedEdgeList G1 ! n)" for x
      using that E1 by (auto simp: Let_def nth_list_update AList.delete_eq split: if_splits)
    have len: "length (directedEdgeList G1) = length (directedEdgeList G)" using E1(1) by (simp add: Let_def)
    note IH = Cons.IH [OF 1(2), unfolded len]
    show ?case
    proof (intro conjI allI impI ballI)
      show "length tops' \<le> length tops + length (m # ms)" "length (directedEdgeList G') = length (directedEdgeList G)"
        using IH t by simp_all
      show "set (directedEdgeList G' ! i) \<subseteq> set (directedEdgeList G ! i)" "length (directedEdgeList G' ! i) \<le> length (directedEdgeList G ! i)"
        if "i < length (directedEdgeList G)" for i using IH step [OF that] that by fastforce+
      show "fst x \<notin> set (m # ms)" if "x \<in> set (directedEdgeList G' ! n)" for x
        using IH gone [of x] E1(2) that by auto
    qed
  qed simp
  then show "length tops' \<le> length tops + length ms" "length (directedEdgeList G') = length (directedEdgeList G)"
    "\<forall>i < length (directedEdgeList G). set (directedEdgeList G' ! i) \<subseteq> set (directedEdgeList G ! i) \<and>
       length (directedEdgeList G' ! i) \<le> length (directedEdgeList G ! i)"
    "\<forall>x \<in> set (directedEdgeList G' ! n). n < length (directedEdgeList G) \<longrightarrow> fst x \<notin> set ms"
    by blast+
qed

lemma remove_edges_decrease:
  assumes "foldE (remove_edge n) (G, tops) (sort (map fst (directedEdgeList G ! n))) = Inr (G', tops')" "n < length (directedEdgeList G)"
  shows "entries (directedEdgeList G') + length tops' \<le> entries (directedEdgeList G) + length tops"
proof -
  let ?E = "directedEdgeList G" and ?E' = "directedEdgeList G'"
  note m = remove_edges_measure [OF assms(1)]
  have nil: "?E' ! n = []"
  proof (rule ccontr)
    assume "?E' ! n \<noteq> []"
    then have "hd (?E' ! n) \<in> set (?E' ! n)" by simp
    with m(3,4) assms(2) show False by auto
  qed
  have "entries ?E' = (\<Sum>i \<in> {..<length ?E} - {n}. length (?E' ! i))"
    using assms(2) nil by (simp add: entries_def sum_list_sum_nth atLeast0LessThan m(2) sum.remove [of _ n])
  also have "\<dots> \<le> (\<Sum>i \<in> {..<length ?E} - {n}. length (?E ! i))" using m(3) by (intro sum_mono) auto
  also have "\<dots> = entries ?E - length (?E ! n)"
    using assms(2) by (simp add: entries_def sum_list_sum_nth atLeast0LessThan sum.remove [of _ n])
  finally have "entries ?E' \<le> entries ?E - length (?E ! n)" .
  moreover have "length (?E ! n) \<le> entries ?E"
    using assms(2) by (simp add: entries_def sum_list_sum_nth atLeast0LessThan sum.remove [of _ n])
  ultimately show ?thesis using m(1) by simp
qed

termination topo_loop
proof (relation "measure (\<lambda>(G, tops, sortedIDs). entries (directedEdgeList G) + length tops)")
  fix G n tops s l x G' tops'
  assume a: "go_index (directedEdgeList G) n = Inr l" "foldE (remove_edge n) (G, tops) (sort (map fst l)) = Inr x" "(G', tops') = x"
  then have "n < length (directedEdgeList G)" "l = directedEdgeList G ! n" by (auto simp: go_index_def split: if_splits)
  with remove_edges_decrease [of n G tops G' tops'] a
  show "((G', tops', s @ [n]), G, n # tops, s) \<in> measure (\<lambda>(G, tops, sortedIDs). entries (directedEdgeList G) + length tops)" by auto
qed simp

definition TopologicalSort :: "DAG \<Rightarrow> string list res" where
  "TopologicalSort dag =
    bindE (DAG_Copy dag) (\<lambda>G.
    bindE (topologicalTopLevelNodes dag) (\<lambda>topLevelNodes.
    bindE (topo_loop G topLevelNodes []) (\<lambda>(G, sortedIDs).
    if hasEdges G then Inl (Panic ''dag: invalid construction, attempted to topologically sort a tree that is not a dag. A cycle exists'')
    else idsToNames dag sortedIDs)))"

section \<open>Well-formed graphs\<close>

text \<open>The entry for \<open>v\<close> in the adjacency map of \<open>u\<close>, and the edges.\<close>

definition dir :: "DAG \<Rightarrow> nat \<Rightarrow> nat \<Rightarrow> int option" where
  "dir D u v = (if u < length (directedEdgeList D) then map_of (directedEdgeList D ! u) v else None)"

definition edges :: "DAG \<Rightarrow> (nat \<times> nat) set" where
  "edges D = {(u, v). dir D u v = Some 1}"

definition order :: "DAG \<Rightarrow> nat" where
  "order D = length (directedEdgeList D)"

text \<open>Every edge is held at both its ends with opposite directions, no node has an edge to itself, and
  the numbers of the nodes are those of the names.\<close>

definition wf_dag :: "DAG \<Rightarrow> bool" where
  "wf_dag D \<longleftrightarrow> (\<forall>l \<in> set (directedEdgeList D). distinct (map fst l)) \<and>
    (\<forall>u v d. dir D u v = Some d \<longrightarrow> v < order D \<and> u \<noteq> v \<and> (d = 1 \<or> d = - 1) \<and> dir D v u = Some (- d))"

definition wf_names :: "DAG \<Rightarrow> bool" where
  "wf_names D \<longleftrightarrow> length (nodeNameToId D) = order D \<and> distinct (map fst (nodeNameToId D)) \<and>
    (\<forall>name i. map_of (nodeNameToId D) name = Some i \<longleftrightarrow> map_of (idToNodeNames D) i = Some name) \<and>
    (\<forall>i. map_of (idToNodeNames D) i \<noteq> None \<longleftrightarrow> i < order D)"

definition same_names :: "DAG \<Rightarrow> DAG \<Rightarrow> bool" where
  "same_names D D' \<longleftrightarrow> order D' = order D \<and> nodeNameToId D' = nodeNameToId D \<and> idToNodeNames D' = idToNodeNames D"

lemma same_names_refl [simp]: "same_names D D"
  by (simp add: same_names_def)

lemma same_names_trans [trans]: "same_names D D' \<Longrightarrow> same_names D' D'' \<Longrightarrow> same_names D D''"
  by (simp add: same_names_def)

lemma wf_names_same: "same_names D D' \<Longrightarrow> wf_names D' = wf_names D"
  by (simp add: same_names_def wf_names_def)

lemma wf_dagD:
  assumes "wf_dag D" "dir D u v = Some d"
  shows "u < order D" "v < order D" "u \<noteq> v" "d = 1 \<or> d = - 1" "dir D v u = Some (- d)"
proof -
  show "u < order D" using assms(2) by (simp add: dir_def order_def split: if_splits)
qed (use assms in \<open>unfold wf_dag_def, blast+\<close>)

lemma edges_bound: "wf_dag D \<Longrightarrow> (u, v) \<in> edges D \<Longrightarrow> u < order D \<and> v < order D \<and> u \<noteq> v"
  unfolding edges_def using wf_dagD [of D u v] by blast

lemma edges_asym: "wf_dag D \<Longrightarrow> (u, v) \<in> edges D \<Longrightarrow> (v, u) \<notin> edges D"
  using wf_dagD(5) [of D u v 1] by (auto simp: edges_def)

lemma dir_edges:
  assumes "wf_dag D"
  shows "dir D u v = (if (u, v) \<in> edges D then Some 1 else if (v, u) \<in> edges D then Some (- 1) else None)"
proof (cases "dir D u v")
  case None
  then show ?thesis using wf_dagD(5) [OF assms, of v u 1] by (auto simp: edges_def)
next
  case (Some d)
  with wf_dagD(4,5) [OF assms this] show ?thesis by (auto simp: edges_def)
qed

lemma adjacency_set:
  assumes "wf_dag D" "u < order D"
  shows "(v, d) \<in> set (directedEdgeList D ! u) \<longleftrightarrow> dir D u v = Some d"
proof -
  have "distinct (map fst (directedEdgeList D ! u))" using assms by (auto simp: wf_dag_def order_def)
  then show ?thesis using assms(2) by (simp add: dir_def order_def)
qed

lemma wf_dagI:
  assumes "\<forall>l \<in> set (directedEdgeList D). distinct (map fst l)"
    "\<And>u v. dir D u v = (if (u, v) \<in> R then Some 1 else if (v, u) \<in> R then Some (- 1) else None)"
    "\<And>u v. (u, v) \<in> R \<Longrightarrow> u < order D \<and> v < order D \<and> u \<noteq> v \<and> (v, u) \<notin> R"
  shows "wf_dag D \<and> edges D = R"
proof
  have "v < order D \<and> u \<noteq> v \<and> (d = 1 \<or> d = - 1) \<and> dir D v u = Some (- d)" if "dir D u v = Some d" for u v d
    using that assms(2,3) by (auto split: if_splits)
  with assms(1) show "wf_dag D" unfolding wf_dag_def by blast
  show "edges D = R" using assms(2) by (auto simp: edges_def split: if_splits)
qed

section \<open>The operations on well-formed graphs\<close>

lemma distinct_keys_update:
  assumes "\<forall>l \<in> set E. distinct (map fst l)" "distinct (map fst l')"
  shows "\<forall>l \<in> set (E[u := l']). distinct (map fst l)"
  using assms set_update_subset_insert [of E u l'] by blast

lemma set_direction_dir:
  assumes "u < order D" "\<forall>l \<in> set (directedEdgeList D). distinct (map fst l)"
  shows "\<exists>D'. set_direction D u v d = Inr D' \<and> same_names D D' \<and> (\<forall>l \<in> set (directedEdgeList D'). distinct (map fst l)) \<and>
    (\<forall>a b. dir D' a b = (if a = u \<and> b = v then Some d else dir D a b))"
proof -
  let ?l = "AList.update v d (directedEdgeList D ! u)"
  have "distinct (map fst ?l)" using assms by (simp add: order_def distinct_update)
  note k = distinct_keys_update [OF assms(2) this, of u]
  show ?thesis
    by (rule exI [where x = "D\<lparr>directedEdgeList := (directedEdgeList D)[u := ?l]\<rparr>"])
      (use assms(1) k in \<open>simp add: set_direction_def go_index_def same_names_def order_def dir_def nth_list_update update_conv'\<close>)
qed

lemma delete_key_dir:
  assumes "u < order D" "\<forall>l \<in> set (directedEdgeList D). distinct (map fst l)"
  shows "\<exists>D'. delete_key D u v = Inr D' \<and> same_names D D' \<and> (\<forall>l \<in> set (directedEdgeList D'). distinct (map fst l)) \<and>
    (\<forall>a b. dir D' a b = (if a = u \<and> b = v then None else dir D a b))"
proof -
  let ?l = "AList.delete v (directedEdgeList D ! u)"
  have "distinct (map fst ?l)" using assms by (simp add: order_def delete_keys distinct_removeAll)
  note k = distinct_keys_update [OF assms(2) this, of u]
  show ?thesis
    by (rule exI [where x = "D\<lparr>directedEdgeList := (directedEdgeList D)[u := ?l]\<rparr>"])
      (use assms(1) k in \<open>simp add: delete_key_def go_index_def same_names_def order_def dir_def nth_list_update delete_conv'\<close>)
qed

lemma replaceEdge_edges:
  assumes "wf_dag D" "u < order D" "v < order D" "u \<noteq> v"
  shows "\<exists>D'. replaceEdge D u v = Inr D' \<and> wf_dag D' \<and> same_names D D' \<and> edges D' = insert (u, v) (edges D - {(v, u)})"
proof -
  have k: "\<forall>l \<in> set (directedEdgeList D). distinct (map fst l)" using assms(1) by (simp add: wf_dag_def)
  obtain D1 where D1: "set_direction D u v 1 = Inr D1" "same_names D D1" "\<forall>l \<in> set (directedEdgeList D1). distinct (map fst l)"
    "\<forall>a b. dir D1 a b = (if a = u \<and> b = v then Some 1 else dir D a b)"
    using set_direction_dir [OF assms(2) k] by blast
  have "v < order D1" using D1(2) assms(3) by (simp add: same_names_def)
  then obtain D2 where D2: "set_direction D1 v u (- 1) = Inr D2" "same_names D1 D2" "\<forall>l \<in> set (directedEdgeList D2). distinct (map fst l)"
    "\<forall>a b. dir D2 a b = (if a = v \<and> b = u then Some (- 1) else dir D1 a b)"
    using set_direction_dir [OF _ D1(3)] by blast
  let ?R = "insert (u, v) (edges D - {(v, u)})"
  have sn: "same_names D D2" using D1(2) D2(2) by (rule same_names_trans)
  have "dir D2 a b = (if (a, b) \<in> ?R then Some 1 else if (b, a) \<in> ?R then Some (- 1) else None)" for a b
    using D1(4) D2(4) assms(4) dir_edges [OF assms(1), of a b] by auto
  moreover have "a < order D2 \<and> b < order D2 \<and> a \<noteq> b \<and> (b, a) \<notin> ?R" if "(a, b) \<in> ?R" for a b
    using that assms edges_bound [OF assms(1), of a b] edges_asym [OF assms(1), of a b] sn by (auto simp: same_names_def)
  ultimately have "wf_dag D2 \<and> edges D2 = ?R" by (rule wf_dagI [OF D2(3)])
  moreover have "replaceEdge D u v = Inr D2" using assms(4) D1(1) D2(1) by (simp add: replaceEdge_def)
  ultimately show ?thesis using sn by blast
qed

lemma addEdge_edges:
  assumes "wf_dag D" "u < order D" "v < order D"
  shows "addEdge D u v = (if u = v then Inl (Err ''can't make self-edge'')
    else if (u, v) \<in> edges D \<or> (v, u) \<in> edges D then Inl (Err ''dag has conflicting edge'') else replaceEdge D u v)"
proof -
  have "hasDirectedEdge D v u = Inr (dir D v u \<noteq> None)"
    using assms(3) by (simp add: hasDirectedEdge_def go_index_def dir_def order_def)
  then show ?thesis using dir_edges [OF assms(1), of v u] by (simp add: addEdge_def replaceEdge_def)
qed

lemma deleteEdge_edges:
  assumes "wf_dag D" "u < order D" "v < order D" "(v, u) \<notin> edges D"
  shows "\<exists>D'. deleteEdge D u v = Inr D' \<and> wf_dag D' \<and> same_names D D' \<and> edges D' = edges D - {(u, v)}"
proof -
  have k: "\<forall>l \<in> set (directedEdgeList D). distinct (map fst l)" using assms(1) by (simp add: wf_dag_def)
  obtain D1 where D1: "delete_key D u v = Inr D1" "same_names D D1" "\<forall>l \<in> set (directedEdgeList D1). distinct (map fst l)"
    "\<forall>a b. dir D1 a b = (if a = u \<and> b = v then None else dir D a b)"
    using delete_key_dir [OF assms(2) k] by blast
  have "v < order D1" using D1(2) assms(3) by (simp add: same_names_def)
  then obtain D2 where D2: "delete_key D1 v u = Inr D2" "same_names D1 D2" "\<forall>l \<in> set (directedEdgeList D2). distinct (map fst l)"
    "\<forall>a b. dir D2 a b = (if a = v \<and> b = u then None else dir D1 a b)"
    using delete_key_dir [OF _ D1(3)] by blast
  let ?R = "edges D - {(u, v)}"
  have sn: "same_names D D2" using D1(2) D2(2) by (rule same_names_trans)
  have "dir D2 a b = (if (a, b) \<in> ?R then Some 1 else if (b, a) \<in> ?R then Some (- 1) else None)" for a b
    using D1(4) D2(4) assms(4) dir_edges [OF assms(1), of a b] by auto
  moreover have "a < order D2 \<and> b < order D2 \<and> a \<noteq> b \<and> (b, a) \<notin> ?R" if "(a, b) \<in> ?R" for a b
    using that edges_bound [OF assms(1), of a b] edges_asym [OF assms(1), of a b] sn by (auto simp: same_names_def)
  ultimately have "wf_dag D2 \<and> edges D2 = ?R" by (rule wf_dagI [OF D2(3)])
  moreover have "deleteEdge D u v = Inr D2" using D1(1) D2(1) by (simp add: deleteEdge_def)
  ultimately show ?thesis using sn by blast
qed

text \<open>The nodes \<open>delete_key\<close> visits in \<open>resetEdges\<close> are all the neighbours.\<close>

lemma delete_keys_dir:
  assumes "\<forall>v \<in> set vs. v < order D" "\<forall>l \<in> set (directedEdgeList D). distinct (map fst l)"
  shows "\<exists>D'. foldE (\<lambda>D v. delete_key D v u) D vs = Inr D' \<and> same_names D D' \<and> (\<forall>l \<in> set (directedEdgeList D'). distinct (map fst l)) \<and>
    (\<forall>a b. dir D' a b = (if a \<in> set vs \<and> b = u then None else dir D a b))"
  using assms
proof (induction vs arbitrary: D)
  case (Cons v vs)
  obtain D1 where D1: "delete_key D v u = Inr D1" "same_names D D1" "\<forall>l \<in> set (directedEdgeList D1). distinct (map fst l)"
    "\<forall>a b. dir D1 a b = (if a = v \<and> b = u then None else dir D a b)"
    using delete_key_dir [of v D u] Cons.prems by auto
  have "\<forall>v \<in> set vs. v < order D1" using D1(2) Cons.prems(1) by (simp add: same_names_def)
  from Cons.IH [OF this D1(3)] obtain D2 where "foldE (\<lambda>D v. delete_key D v u) D1 vs = Inr D2" "same_names D1 D2"
    "\<forall>l \<in> set (directedEdgeList D2). distinct (map fst l)" "\<forall>a b. dir D2 a b = (if a \<in> set vs \<and> b = u then None else dir D1 a b)"
    by blast
  with D1 show ?case by (auto intro: same_names_trans)
qed simp

lemma resetEdges_edges:
  assumes "wf_dag D" "u < order D"
  shows "\<exists>D'. resetEdges D u = Inr D' \<and> wf_dag D' \<and> same_names D D' \<and> edges D' = {(a, b) \<in> edges D. a \<noteq> u \<and> b \<noteq> u}"
proof -
  let ?vs = "map fst (directedEdgeList D ! u)"
  have k: "\<forall>l \<in> set (directedEdgeList D). distinct (map fst l)" using assms(1) by (simp add: wf_dag_def)
  have vs: "v \<in> set ?vs \<longleftrightarrow> dir D u v \<noteq> None" for v
    using adjacency_set [OF assms] by force
  then have "\<forall>v \<in> set ?vs. v < order D" using wf_dagD(2) [OF assms(1)] by blast
  from delete_keys_dir [OF this k, of u] obtain D1 where D1: "foldE (\<lambda>D v. delete_key D v u) D ?vs = Inr D1" "same_names D D1"
    "\<forall>l \<in> set (directedEdgeList D1). distinct (map fst l)" "\<forall>a b. dir D1 a b = (if a \<in> set ?vs \<and> b = u then None else dir D a b)"
    by blast
  let ?D2 = "D1\<lparr>directedEdgeList := (directedEdgeList D1)[u := []]\<rparr>" and ?R = "{(a, b) \<in> edges D. a \<noteq> u \<and> b \<noteq> u}"
  have sn: "same_names D ?D2" using D1(2) by (simp add: same_names_def order_def)
  have dir2: "dir ?D2 a b = (if a = u then None else dir D1 a b)" for a b
    using assms(2) D1(2) by (simp add: dir_def same_names_def order_def nth_list_update)
  have k2: "\<forall>l \<in> set (directedEdgeList ?D2). distinct (map fst l)" using distinct_keys_update [OF D1(3), of "[]" u] by simp
  have "dir ?D2 a b = (if (a, b) \<in> ?R then Some 1 else if (b, a) \<in> ?R then Some (- 1) else None)" for a b
    using dir2 [of a b] D1(4) vs [of a] dir_edges [OF assms(1), of a b] dir_edges [OF assms(1), of u a] by auto
  moreover have "a < order ?D2 \<and> b < order ?D2 \<and> a \<noteq> b \<and> (b, a) \<notin> ?R" if "(a, b) \<in> ?R" for a b
    using that edges_bound [OF assms(1), of a b] edges_asym [OF assms(1), of a b] sn by (auto simp: same_names_def)
  ultimately have "wf_dag ?D2 \<and> edges ?D2 = ?R" by (rule wf_dagI [OF k2])
  moreover have "resetEdges D u = Inr ?D2" using assms(2) D1(1) by (simp add: resetEdges_def go_index_def order_def)
  ultimately show ?thesis using sn by blast
qed

end
