(* ===== verification/Dag_Sort.thy ===== *)
theory Dag_Sort
  imports Dag
begin

text \<open>
  Correctness of the topological sort of \<open>dag.go\<close>: it returns exactly on the graphs without a cycle, and then
  a list of all names in which every edge points forward.
\<close>

section \<open>The invariant of Kahn's algorithm\<close>

lemma hasIncomingEdge_edges:
  assumes "wf_dag G" "v < order G"
  shows "hasIncomingEdge G v = Inr (\<exists>u. (u, v) \<in> edges G)"
proof -
  have "(\<exists>(k, d) \<in> set (directedEdgeList G ! v). d = - 1) \<longleftrightarrow> (\<exists>u. dir G v u = Some (- 1))"
    using adjacency_set [OF assms] by auto
  also have "\<dots> \<longleftrightarrow> (\<exists>u. (u, v) \<in> edges G)"
    using dir_edges [OF assms(1), of v] edges_asym [OF assms(1)] by auto
  finally show ?thesis using assms(2) by (simp add: hasIncomingEdge_def go_index_def order_def)
qed

lemma remove_edges_edges:
  assumes "wf_dag G" "n < order G" "\<forall>u. (u, n) \<notin> edges G" "distinct ms" "\<forall>m \<in> set ms. (n, m) \<in> edges G"
  shows "\<exists>G'. foldE (remove_edge n) (G, tops) ms = Inr (G', tops @ filter (\<lambda>m. \<forall>u. (u, m) \<notin> edges G') ms) \<and>
    wf_dag G' \<and> same_names G G' \<and> edges G' = edges G - {n} \<times> set ms"
  using assms
proof (induction ms arbitrary: G tops)
  case (Cons m ms)
  have m: "m < order G" using Cons.prems(1,5) edges_bound by auto
  obtain G1 where G1: "deleteEdge G n m = Inr G1" "wf_dag G1" "same_names G G1" "edges G1 = edges G - {(n, m)}"
    using deleteEdge_edges [OF Cons.prems(1,2) m] Cons.prems(3) by auto
  have o: "order G1 = order G" using G1(3) by (simp add: same_names_def)
  let ?tops = "if \<exists>u. (u, m) \<in> edges G1 then tops else tops @ [m]"
  have r: "remove_edge n (G, tops) m = Inr (G1, ?tops)"
    using hasIncomingEdge_edges [OF G1(2), of m] m o by (simp add: remove_edge_def G1(1))
  have p: "n < order G1" "\<forall>u. (u, n) \<notin> edges G1" "distinct ms" "\<forall>m' \<in> set ms. (n, m') \<in> edges G1"
    using Cons.prems o G1(4) by auto
  obtain G' where G': "foldE (remove_edge n) (G1, ?tops) ms = Inr (G', ?tops @ filter (\<lambda>m. \<forall>u. (u, m) \<notin> edges G') ms)"
    "wf_dag G'" "same_names G1 G'" "edges G' = edges G1 - {n} \<times> set ms"
    using Cons.IH [OF G1(2) p, of ?tops] by blast
  have "(\<exists>u. (u, m) \<in> edges G1) \<longleftrightarrow> (\<exists>u. (u, m) \<in> edges G')" using G'(4) Cons.prems(4) by auto
  moreover have "foldE (remove_edge n) (G, tops) (m # ms) = Inr (G', ?tops @ filter (\<lambda>m. \<forall>u. (u, m) \<notin> edges G') ms)"
    using r G'(1) by simp
  ultimately have "foldE (remove_edge n) (G, tops) (m # ms) = Inr (G', tops @ filter (\<lambda>m. \<forall>u. (u, m) \<notin> edges G') (m # ms))"
    by simp
  moreover have "edges G' = edges G - {n} \<times> set (m # ms)" using G1(4) G'(4) by auto
  ultimately show ?case using G'(2) same_names_trans [OF G1(3) G'(3)] by blast
qed simp

text \<open>The state of the loop: the graph is what is left when the edges of the sorted nodes are taken away,
  the list holds the nodes without incoming edges that are not sorted yet, and every sorted
  node comes after its predecessors.\<close>

definition topo_inv :: "DAG \<Rightarrow> DAG \<Rightarrow> nat list \<Rightarrow> nat list \<Rightarrow> bool" where
  "topo_inv D G tops s \<longleftrightarrow> wf_dag G \<and> same_names D G \<and> edges G = {(u, v) \<in> edges D. u \<notin> set s} \<and> distinct (s @ tops) \<and>
    (\<forall>v. v \<in> set s \<union> set tops \<longleftrightarrow> v < order D \<and> (\<forall>u. (u, v) \<notin> edges G)) \<and>
    (\<forall>i < length s. \<forall>u. (u, s ! i) \<in> edges D \<longrightarrow> u \<in> set (take i s))"

lemma topo_inv_edges: "topo_inv D G tops s \<Longrightarrow> edges G = {(u, v) \<in> edges D. u \<notin> set s}"
  by (simp add: topo_inv_def)

text \<open>The nodes a pass adds, read off the edges.\<close>

definition released :: "(nat \<times> nat) set \<Rightarrow> nat \<Rightarrow> nat list" where
  "released E n = filter (\<lambda>m. \<forall>u. (u, m) \<in> E \<longrightarrow> u = n) (sorted_list_of_set {m. (n, m) \<in> E})"

lemma topo_step:
  assumes "topo_inv D G (n # tops) s"
  shows "n < order G" "\<forall>(m, d) \<in> set (directedEdgeList G ! n). d = 1"
    "\<exists>G'. foldE (remove_edge n) (G, tops) (sort (map fst (directedEdgeList G ! n))) = Inr (G', tops @ released (edges G) n) \<and>
       topo_inv D G' (tops @ released (edges G) n) (s @ [n])"
proof -
  let ?l = "directedEdgeList G ! n" and ?ms = "sort (map fst (directedEdgeList G ! n))"
  have wf: "wf_dag G" and sn: "same_names D G" and eG: "edges G = {(u, v) \<in> edges D. u \<notin> set s}"
    and dist: "distinct (s @ n # tops)" and front: "\<And>v. v \<in> set s \<union> set (n # tops) \<longleftrightarrow> v < order D \<and> (\<forall>u. (u, v) \<notin> edges G)"
    and ord: "\<forall>i < length s. \<forall>u. (u, s ! i) \<in> edges D \<longrightarrow> u \<in> set (take i s)"
    using assms unfolding topo_inv_def by blast+
  have o: "order G = order D" using sn by (simp add: same_names_def)
  show n: "n < order G" using front [of n] o by simp
  have no_in: "\<forall>u. (u, n) \<notin> edges G" using front [of n] by simp
  have adj: "(m, d) \<in> set ?l \<longleftrightarrow> d = 1 \<and> (n, m) \<in> edges G" for m d
    using adjacency_set [OF wf n] dir_edges [OF wf, of n m] no_in by auto
  then show "\<forall>(m, d) \<in> set ?l. d = 1" by blast
  have ms: "set ?ms = {m. (n, m) \<in> edges G}" using adj by force
  have "distinct (map fst ?l)" using wf n by (auto simp: wf_dag_def order_def)
  then have dms: "distinct ?ms" by simp
  obtain G' where G': "foldE (remove_edge n) (G, tops) ?ms = Inr (G', tops @ filter (\<lambda>m. \<forall>u. (u, m) \<notin> edges G') ?ms)"
    "wf_dag G'" "same_names G G'" "edges G' = edges G - {n} \<times> set ?ms"
    using remove_edges_edges [OF wf n no_in dms, of tops] ms by blast
  let ?new = "filter (\<lambda>m. \<forall>u. (u, m) \<notin> edges G') ?ms"
  have eG': "edges G' = {(u, v) \<in> edges G. u \<noteq> n}" using G'(4) ms by auto
  have new_out: "m \<notin> set s \<union> set (n # tops)" if "m \<in> set ?new" for m using that ms front [of m] by auto
  have "topo_inv D G' (tops @ ?new) (s @ [n])"
    unfolding topo_inv_def
  proof (intro conjI allI)
    show "wf_dag G'" "same_names D G'" using G'(2) same_names_trans [OF sn G'(3)] by simp_all
    show "edges G' = {(u, v) \<in> edges D. u \<notin> set (s @ [n])}" using eG eG' by auto
    show "distinct ((s @ [n]) @ tops @ ?new)" using dist new_out dms by auto
    show "v \<in> set (s @ [n]) \<union> set (tops @ ?new) \<longleftrightarrow> v < order D \<and> (\<forall>u. (u, v) \<notin> edges G')" for v
    proof (cases "\<forall>u. (u, v) \<notin> edges G")
      case True
      then show ?thesis using front [of v] eG' ms by auto
    next
      case False
      then have v: "v < order D" "v \<notin> set s \<union> set (n # tops)" using edges_bound [OF wf] o front [of v] by auto
      then show ?thesis using False eG' ms by auto
    qed
    show "i < length (s @ [n]) \<longrightarrow> (\<forall>u. (u, (s @ [n]) ! i) \<in> edges D \<longrightarrow> u \<in> set (take i (s @ [n])))" for i
      using ord no_in eG by (cases "i < length s") (auto simp: nth_append less_Suc_eq)
  qed
  moreover have "?ms = sorted_list_of_set {m. (n, m) \<in> edges G}"
    using ms dms by (metis sorted_list_of_set.idem_if_sorted_distinct sorted_sort)
  then have "?new = released (edges G) n" using ms unfolding released_def eG' by (auto intro!: filter_cong)
  ultimately show "\<exists>G'. foldE (remove_edge n) (G, tops) ?ms = Inr (G', tops @ released (edges G) n) \<and>
    topo_inv D G' (tops @ released (edges G) n) (s @ [n])" using G'(1) by auto
qed

lemma topo_loop_inv:
  assumes "topo_inv D G tops s"
  shows "\<exists>G' s'. topo_loop G tops s = Inr (G', s') \<and> topo_inv D G' [] s'"
  using assms
proof (induction G tops s rule: topo_loop.induct)
  case (2 G n tops s)
  note st = topo_step [OF "2.prems"]
  let ?tops = "tops @ released (edges G) n"
  obtain G' where f: "foldE (remove_edge n) (G, tops) (sort (map fst (directedEdgeList G ! n))) = Inr (G', ?tops)"
    "topo_inv D G' ?tops (s @ [n])" using st(3) by blast
  have i: "go_index (directedEdgeList G) n = Inr (directedEdgeList G ! n)" using st(1) by (simp add: go_index_def order_def)
  have ones: "\<not> (\<exists>(m, d) \<in> set (directedEdgeList G ! n). d \<noteq> 1)" using st(2) by auto
  have "topo_loop G (n # tops) s = topo_loop G' ?tops (s @ [n])" using f(1) i ones by simp
  with "2.IH" [OF i ones f(1) refl f(2)] show ?case by simp
qed auto

section \<open>The sort\<close>

lemma DAG_Copy_id: "wf_names D \<Longrightarrow> DAG_Copy D = Inr D"
proof -
  assume "wf_names D"
  then have n: "length (nodeNameToId D) = length (directedEdgeList D)" by (simp add: wf_names_def order_def)
  let ?F = "\<lambda>acc i. bindE (go_index (directedEdgeList D) i) (\<lambda>l. Inr (acc @ [l]))"
  have "foldE ?F [] [0..<length (directedEdgeList D)] = Inr ([] @ concat (map (\<lambda>i. [directedEdgeList D ! i]) [0..<length (directedEdgeList D)]))"
    by (rule foldE_collect) (simp add: go_index_def)
  then show ?thesis by (simp add: DAG_Copy_def n map_nth)
qed

lemma topLevel_edges:
  assumes "wf_dag D" "wf_names D"
  shows "topologicalTopLevelNodes D = Inr (filter (\<lambda>v. \<forall>u. (u, v) \<notin> edges D) [0..<order D])"
proof -
  let ?F = "\<lambda>tops i. bindE (hasIncomingEdge D i) (\<lambda>incoming. Inr (if incoming then tops else tops @ [i]))"
  let ?h = "\<lambda>i. if \<forall>u. (u, i) \<notin> edges D then [i] else []"
  have c: "concat (map ?h xs) = filter (\<lambda>v. \<forall>u. (u, v) \<notin> edges D) xs" for xs by (induction xs) auto
  have "foldE ?F [] [0..<order D] = Inr ([] @ concat (map ?h [0..<order D]))"
    by (rule foldE_collect) (simp add: hasIncomingEdge_edges [OF assms(1)])
  then show ?thesis using assms(2) by (simp add: topologicalTopLevelNodes_def c wf_names_def)
qed

definition node_name :: "DAG \<Rightarrow> nat \<Rightarrow> string" where
  "node_name D i = (case map_of (idToNodeNames D) i of None \<Rightarrow> [] | Some name \<Rightarrow> name)"

lemma idsToNames_map:
  assumes "wf_names D" "length ids = order D"
  shows "idsToNames D ids = Inr (map (node_name D) ids)"
proof -
  let ?F = "\<lambda>names i. bindE (go_index ids i) (\<lambda>id. Inr (names @ [case map_of (idToNodeNames D) id of None \<Rightarrow> [] | Some name \<Rightarrow> name]))"
  have "foldE ?F [] [0..<order D] = Inr ([] @ concat (map (\<lambda>i. [node_name D (ids ! i)]) [0..<order D]))"
    by (rule foldE_collect) (simp add: go_index_def node_name_def assms(2))
  moreover have "map (\<lambda>i. node_name D (ids ! i)) [0..<order D] = map (node_name D) ids"
    using assms(2) by (intro nth_equalityI) simp_all
  ultimately show ?thesis using assms(1) by (simp add: idsToNames_def wf_names_def)
qed

lemma hasEdges_edges:
  assumes "wf_dag G"
  shows "hasEdges G \<longleftrightarrow> edges G \<noteq> {}"
proof
  assume "hasEdges G"
  then obtain u where u: "u < order G" "directedEdgeList G ! u \<noteq> []"
    by (auto simp: hasEdges_def order_def in_set_conv_nth)
  obtain v d where "(v, d) = hd (directedEdgeList G ! u)" by (metis surj_pair)
  with u have "u < order G" "(v, d) \<in> set (directedEdgeList G ! u)" by simp_all
  then have "dir G u v = Some d" using adjacency_set [OF assms] by blast
  then show "edges G \<noteq> {}" using dir_edges [OF assms, of u v] by (auto split: if_splits)
next
  assume "edges G \<noteq> {}"
  then obtain u v where uv: "(u, v) \<in> edges G" by auto
  then have "u < order G" "dir G u v = Some 1" using edges_bound [OF assms] by (auto simp: edges_def)
  then have "(v, 1) \<in> set (directedEdgeList G ! u)" "directedEdgeList G ! u \<in> set (directedEdgeList G)"
    using adjacency_set [OF assms] by (auto simp: order_def)
  then show "hasEdges G" unfolding hasEdges_def by (metis length_pos_if_in_set)
qed

text \<open>A list of the nodes that puts the source of every edge before its target.\<close>

definition sorts :: "DAG \<Rightarrow> nat list \<Rightarrow> bool" where
  "sorts D s \<longleftrightarrow> distinct s \<and> set s = {..<order D} \<and> (\<forall>i < length s. \<forall>u. (u, s ! i) \<in> edges D \<longrightarrow> u \<in> set (take i s))"

lemma sorts_acyclic:
  assumes "sorts D s" "wf_dag D"
  shows "acyclic (edges D)"
proof -
  let ?pos = "\<lambda>v. THE i. i < length s \<and> s ! i = v"
  have pos: "?pos (s ! i) = i" if "i < length s" for i
    using that assms(1) by (intro the_equality) (auto simp: sorts_def nth_eq_iff_index_eq)
  have "edges D \<subseteq> measure ?pos"
  proof clarify
    fix u v assume uv: "(u, v) \<in> edges D"
    then have "v \<in> set s" using assms edges_bound by (auto simp: sorts_def)
    then obtain i where i: "i < length s" "v = s ! i" by (auto simp: in_set_conv_nth)
    then have "u \<in> set (take i s)" using uv assms(1) by (auto simp: sorts_def)
    then obtain j where "j < i" "u = s ! j" using i(1) by (auto simp: in_set_conv_nth)
    then show "(u, v) \<in> measure ?pos" using i pos [of i] pos [of j] by simp
  qed
  then show ?thesis by (metis acyclic_subset wf_acyclic wf_measure)
qed

lemma topo_inv_final:
  assumes "topo_inv D G [] s" "wf_dag D"
  shows "hasEdges G \<longleftrightarrow> \<not> acyclic (edges D)" "\<not> hasEdges G \<Longrightarrow> sorts D s"
proof -
  have wf: "wf_dag G" and eG: "edges G = {(u, v) \<in> edges D. u \<notin> set s}" and dist: "distinct (s @ [])"
    and front': "\<And>v. v \<in> set s \<union> set [] \<longleftrightarrow> v < order D \<and> (\<forall>u. (u, v) \<notin> edges G)"
    and ord: "\<forall>i < length s. \<forall>u. (u, s ! i) \<in> edges D \<longrightarrow> u \<in> set (take i s)"
    using assms(1) unfolding topo_inv_def by blast+
  have front: "v \<in> set s \<longleftrightarrow> v < order D \<and> (\<forall>u. (u, v) \<notin> edges G)" for v using front' [of v] by simp
  show sorts: "sorts D s" if "\<not> hasEdges G"
  proof -
    have "edges G = {}" using that hasEdges_edges [OF wf] by simp
    then have "set s = {..<order D}" using front by auto
    then show ?thesis using dist ord by (simp add: sorts_def)
  qed
  have "\<not> acyclic (edges D)" if h: "hasEdges G"
  proof
    assume "acyclic (edges D)"
    moreover have "finite (edges D)" using edges_bound [OF assms(2)]
      by (auto intro: finite_subset [of _ "{..<order D} \<times> {..<order D}", rotated])
    ultimately have "wf (edges D)" by (simp add: finite_acyclic_wf)
    moreover obtain u0 v0 where "(u0, v0) \<in> edges G" using h hasEdges_edges [OF wf] by auto
    then have "u0 \<in> {v. v < order D \<and> v \<notin> set s}" using eG edges_bound [OF assms(2)] by auto
    ultimately obtain z where z: "z < order D" "z \<notin> set s" "\<And>y. (y, z) \<in> edges D \<Longrightarrow> \<not> (y < order D \<and> y \<notin> set s)"
      by (rule wfE_min) auto
    then obtain y where "(y, z) \<in> edges G" using front [of z] by auto
    then show False using z(3) [of y] eG edges_bound [OF assms(2), of y z] by auto
  qed
  then show "hasEdges G \<longleftrightarrow> \<not> acyclic (edges D)" using sorts sorts_acyclic [OF _ assms(2)] by auto
qed

lemma TopologicalSort_ids:
  assumes "wf_dag D" "wf_names D"
  shows "acyclic (edges D) \<Longrightarrow> \<exists>s. sorts D s \<and> TopologicalSort D = Inr (map (node_name D) s)"
    "\<not> acyclic (edges D) \<Longrightarrow> TopologicalSort D =
      Inl (Panic ''dag: invalid construction, attempted to topologically sort a tree that is not a dag. A cycle exists'')"
proof -
  let ?tops = "filter (\<lambda>v. \<forall>u. (u, v) \<notin> edges D) [0..<order D]"
  have "topo_inv D D ?tops []" using assms(1) by (auto simp: topo_inv_def)
  from topo_loop_inv [OF this] obtain G s where r: "topo_loop D ?tops [] = Inr (G, s)" "topo_inv D G [] s" by blast
  note fin = topo_inv_final [OF r(2) assms(1)]
  have T: "TopologicalSort D = (if hasEdges G then
    Inl (Panic ''dag: invalid construction, attempted to topologically sort a tree that is not a dag. A cycle exists'') else idsToNames D s)"
    unfolding TopologicalSort_def using DAG_Copy_id [OF assms(2)] topLevel_edges [OF assms] r(1) by simp
  show "\<exists>s. sorts D s \<and> TopologicalSort D = Inr (map (node_name D) s)" if a: "acyclic (edges D)"
  proof -
    have s: "sorts D s" using a fin by blast
    then have "length s = order D" by (metis sorts_def distinct_card card_lessThan)
    then show ?thesis using T a fin(1) s idsToNames_map [OF assms(2)] by auto
  qed
  show "TopologicalSort D = Inl (Panic ''dag: invalid construction, attempted to topologically sort a tree that is not a dag. A cycle exists'')"
    if "\<not> acyclic (edges D)" using T that fin(1) by simp
qed

text \<open>The order of the entries in the adjacency maps has no influence: graphs with the same edges are
  sorted alike.\<close>

lemma topo_loop_same:
  assumes "topo_inv D G tops s" "topo_inv D' G' tops s" "edges D = edges D'"
  shows "map_sum id snd (topo_loop G tops s) = map_sum id snd (topo_loop G' tops s)"
  using assms(1,2)
proof (induction G tops s arbitrary: G' rule: topo_loop.induct)
  case (2 G n tops s)
  have e: "edges G = edges G'"
    using topo_inv_edges [OF "2.prems"(1)] topo_inv_edges [OF "2.prems"(2)] assms(3) by simp
  let ?tops = "tops @ released (edges G) n"
  note st = topo_step [OF "2.prems"(1)] and st' = topo_step [OF "2.prems"(2), folded e]
  obtain H where H: "foldE (remove_edge n) (G, tops) (sort (map fst (directedEdgeList G ! n))) = Inr (H, ?tops)"
    "topo_inv D H ?tops (s @ [n])" using st(3) by blast
  obtain H' where H': "foldE (remove_edge n) (G', tops) (sort (map fst (directedEdgeList G' ! n))) = Inr (H', ?tops)"
    "topo_inv D' H' ?tops (s @ [n])" using st'(3) by blast
  have i: "go_index (directedEdgeList G) n = Inr (directedEdgeList G ! n)" using st(1) by (simp add: go_index_def order_def)
  have i': "go_index (directedEdgeList G') n = Inr (directedEdgeList G' ! n)" using st'(1) by (simp add: go_index_def order_def)
  have ones: "\<not> (\<exists>(m, d) \<in> set (directedEdgeList G ! n). d \<noteq> 1)" using st(2) by auto
  have ones': "\<not> (\<exists>(m, d) \<in> set (directedEdgeList G' ! n). d \<noteq> 1)" using st'(2) by auto
  have "topo_loop G (n # tops) s = topo_loop H ?tops (s @ [n])" using H(1) i ones by simp
  moreover have "topo_loop G' (n # tops) s = topo_loop H' ?tops (s @ [n])" using H'(1) i' ones' by simp
  ultimately show ?case using "2.IH" [OF i ones H(1) refl H(2) H'(2)] by simp
qed simp

lemma TopologicalSort_same:
  assumes "wf_dag D" "wf_names D" "wf_dag D'" "same_names D D'" "edges D = edges D'"
  shows "TopologicalSort D = TopologicalSort D'"
proof -
  let ?tops = "filter (\<lambda>v. \<forall>u. (u, v) \<notin> edges D) [0..<order D]"
  have names: "wf_names D'" "order D' = order D" "nodeNameToId D' = nodeNameToId D" "idToNodeNames D' = idToNodeNames D"
    using wf_names_same [OF assms(4)] assms(2,4) by (simp_all add: same_names_def)
  have inv: "topo_inv D D ?tops []" "topo_inv D' D' ?tops []" using assms(1,3,5) names(2) by (auto simp: topo_inv_def)
  obtain G s where r: "topo_loop D ?tops [] = Inr (G, s)" "topo_inv D G [] s" using topo_loop_inv [OF inv(1)] by blast
  obtain G' s' where r': "topo_loop D' ?tops [] = Inr (G', s')" "topo_inv D' G' [] s'" using topo_loop_inv [OF inv(2)] by blast
  have "s = s'" using topo_loop_same [OF inv assms(5)] r(1) r'(1) by simp
  moreover have "hasEdges G = hasEdges G'"
    using topo_inv_final(1) [OF r(2) assms(1)] topo_inv_final(1) [OF r'(2) assms(3)] assms(5) by simp
  moreover have "topologicalTopLevelNodes D = Inr ?tops" "topologicalTopLevelNodes D' = Inr ?tops"
    using topLevel_edges [OF assms(1,2)] topLevel_edges [OF assms(3) names(1)] assms(5) names(2) by simp_all
  moreover have "idsToNames D s = idsToNames D' s" by (simp add: idsToNames_def names)
  ultimately show ?thesis
    unfolding TopologicalSort_def using DAG_Copy_id [OF assms(2)] DAG_Copy_id [OF names(1)] r(1) r'(1) by simp
qed

end
