(* ===== verification/Dag_Names.thy ===== *)
theory Dag_Names
  imports Dag_Sort
begin

text \<open>
  The graphs of \<open>dag.go\<close> seen through their names: new graphs, constraints between names, the edges that
  \<open>AddFirstElements\<close> and \<open>AddLastElements\<close> leave, and where the given nodes then stand in a sorted list.
\<close>

section \<open>New graphs and names\<close>

lemma AList_update_new: "k \<notin> fst ` set al \<Longrightarrow> AList.update k v al = al @ [(k, v)]"
  by (induction al) auto

lemma foldl_update_new:
  "distinct (map fst acc @ map fst kvs) \<Longrightarrow> foldl (\<lambda>m (k, v). AList.update k v m) acc kvs = acc @ kvs"
proof (induction kvs arbitrary: acc)
  case (Cons x kvs)
  obtain k v where x: "x = (k, v)" by fastforce
  have "AList.update k v acc = acc @ [(k, v)]" by (rule AList_update_new) (use Cons.prems in \<open>auto simp: x\<close>)
  then show ?case using Cons.IH [of "acc @ [(k, v)]"] Cons.prems by (simp add: x)
qed simp

lemma foldl_update_keys:
  assumes "distinct (map fst acc)"
  shows "distinct (map fst (foldl (\<lambda>m (k, v). AList.update k v m) acc kvs)) \<and>
    fst ` set (foldl (\<lambda>m (k, v). AList.update k v m) acc kvs) = fst ` set acc \<union> fst ` set kvs"
  using assms
proof (induction kvs arbitrary: acc)
  case (Cons x kvs)
  obtain k v where x: "x = (k, v)" by fastforce
  from Cons.IH [of "AList.update k v acc"] Cons.prems show ?case by (simp add: x distinct_update dom_update)
qed simp

lemma NewDAG_cases:
  "\<not> distinct nodes \<Longrightarrow> NewDAG nodes = Inl (Panic ''provided multiple nodes with the same name'')"
  "distinct nodes \<Longrightarrow> NewDAG nodes = Inr \<lparr>directedEdgeList = replicate (length nodes) [],
     nodeNameToId = zip nodes [0..<length nodes], idToNodeNames = zip [0..<length nodes] nodes\<rparr>"
proof -
  let ?m = "foldl (\<lambda>m (k, v). AList.update k v m) [] (zip nodes [0..<length nodes])"
  have m: "foldl (\<lambda>m (i, node). AList.update node i m) acc (zip ks ns) = foldl (\<lambda>m (k, v). AList.update k v m) acc (zip ns ks)"
    for acc ks and ns :: "string list"
    by (induction ns arbitrary: acc ks) (auto simp: zip_Cons1 split: list.split)
  have e: "enumerate 0 nodes = zip [0..<length nodes] nodes" by (simp add: enumerate_eq_zip)
  note keys = foldl_update_keys [of "[]" "zip nodes [0..<length nodes]"]
  show "NewDAG nodes = Inl (Panic ''provided multiple nodes with the same name'')" if "\<not> distinct nodes"
  proof -
    have "length ?m = card (set nodes)"
      using keys by (metis (no_types, lifting) Un_empty_left distinct.simps(1) distinct_card image_empty length_map length_upt
        list.set(1) list.simps(8) map_fst_zip minus_nat.diff_0 set_map)
    moreover have "card (set nodes) \<noteq> length nodes" using that card_distinct by blast
    ultimately show ?thesis by (simp add: NewDAG_def e m)
  qed
  show "NewDAG nodes = Inr \<lparr>directedEdgeList = replicate (length nodes) [],
     nodeNameToId = zip nodes [0..<length nodes], idToNodeNames = zip [0..<length nodes] nodes\<rparr>" if "distinct nodes"
    using that foldl_update_new [of "[]" "zip nodes [0..<length nodes]"] foldl_update_new [of "[]" "zip [0..<length nodes] nodes"]
    by (simp add: NewDAG_def e m)
qed

lemma NewDAG_wf:
  assumes "NewDAG nodes = Inr D"
  shows "wf_dag D" "wf_names D" "edges D = {}" "map fst (nodeNameToId D) = nodes"
proof -
  have d: "distinct nodes" using assms NewDAG_cases(1) by fastforce
  then have D: "D = \<lparr>directedEdgeList = replicate (length nodes) [],
     nodeNameToId = zip nodes [0..<length nodes], idToNodeNames = zip [0..<length nodes] nodes\<rparr>"
    using assms NewDAG_cases(2) by fastforce
  have dir: "dir D u v = None" for u v by (simp add: D dir_def)
  then show "wf_dag D" "edges D = {}" by (simp_all add: wf_dag_def edges_def) (simp add: D)
  show "map fst (nodeNameToId D) = nodes" by (simp add: D)
  have o: "order D = length nodes" by (simp add: D order_def)
  have "map_of (nodeNameToId D) name = Some i \<longleftrightarrow> i < length nodes \<and> nodes ! i = name" for name i
    using d by (auto simp: D map_of_zip_is_Some in_set_zip)
  moreover have "map_of (idToNodeNames D) i = Some name \<longleftrightarrow> i < length nodes \<and> nodes ! i = name" for name i
    using d by (auto simp: D in_set_zip intro!: exI [of _ i])
  ultimately show "wf_names D"
    unfolding wf_names_def o using d by (auto simp: D)
qed

section \<open>Constraints by name\<close>

definition has_edge :: "DAG \<Rightarrow> string \<Rightarrow> string \<Rightarrow> bool" where
  "has_edge D a b \<longleftrightarrow> (case (map_of (nodeNameToId D) a, map_of (nodeNameToId D) b) of
     (Some u, Some v) \<Rightarrow> dir D u v = Some 1 | _ \<Rightarrow> False)"

definition precedes :: "'a list \<Rightarrow> 'a \<Rightarrow> 'a \<Rightarrow> bool" where
  "precedes xs a b \<longleftrightarrow> (\<exists>i j. i < j \<and> j < length xs \<and> xs ! i = a \<and> xs ! j = b)"

lemma node_name_iff:
  assumes "wf_names D"
  shows "map_of (nodeNameToId D) a = Some u \<longleftrightarrow> u < order D \<and> node_name D u = a"
proof -
  have "map_of (nodeNameToId D) a = Some u \<longleftrightarrow> map_of (idToNodeNames D) u = Some a" "map_of (idToNodeNames D) u \<noteq> None \<longleftrightarrow> u < order D"
    using assms unfolding wf_names_def by blast+
  then show ?thesis by (cases "map_of (idToNodeNames D) u") (auto simp: node_name_def)
qed

lemma node_name_inj:
  assumes "wf_names D"
  shows "inj_on (node_name D) {..<order D}"
proof (rule inj_onI)
  fix u v assume "u \<in> {..<order D}" "v \<in> {..<order D}" "node_name D u = node_name D v"
  then have "map_of (nodeNameToId D) (node_name D u) = Some u" "map_of (nodeNameToId D) (node_name D u) = Some v"
    using node_name_iff [OF assms] by auto
  then show "u = v" by simp
qed

lemma names_node_name:
  assumes "wf_names D"
  shows "set (map fst (nodeNameToId D)) = node_name D ` {..<order D}"
proof -
  have "a \<in> set (map fst (nodeNameToId D)) \<longleftrightarrow> (\<exists>u. map_of (nodeNameToId D) a = Some u)" for a
    by (metis image_set map_of_eq_None_iff not_None_eq)
  then have "a \<in> set (map fst (nodeNameToId D)) \<longleftrightarrow> a \<in> node_name D ` {..<order D}" for a
    unfolding node_name_iff [OF assms] image_iff Bex_def lessThan_iff by metis
  then show ?thesis by blast
qed

lemma sorts_pos:
  assumes "sorts D s" "wf_dag D" "(u, v) \<in> edges D"
  shows "precedes s u v"
proof -
  have "v \<in> set s" using assms edges_bound by (auto simp: sorts_def)
  then obtain j where j: "j < length s" "v = s ! j" by (auto simp: in_set_conv_nth)
  then have "u \<in> set (take j s)" using assms(1,3) by (auto simp: sorts_def)
  then obtain i where "i < j" "u = s ! i" using j(1) by (auto simp: in_set_conv_nth)
  with j show ?thesis by (auto simp: precedes_def)
qed

lemma sorts_names:
  assumes "sorts D s" "wf_names D"
  shows "mset (map (node_name D) s) = mset (map fst (nodeNameToId D))"
proof -
  have "distinct (map (node_name D) s)" using assms node_name_inj [OF assms(2)] by (simp add: sorts_def distinct_map)
  moreover have "distinct (map fst (nodeNameToId D))" using assms(2) by (simp add: wf_names_def)
  moreover have "set (map (node_name D) s) = set (map fst (nodeNameToId D))"
    using names_node_name [OF assms(2)] assms(1) by (simp add: sorts_def)
  ultimately show ?thesis by (metis set_eq_iff_mset_eq_distinct)
qed

lemma sorts_has_edge:
  assumes "sorts D s" "wf_dag D" "wf_names D" "has_edge D a b"
  shows "precedes (map (node_name D) s) a b"
proof -
  obtain u v where uv: "map_of (nodeNameToId D) a = Some u" "map_of (nodeNameToId D) b = Some v" "(u, v) \<in> edges D"
    using assms(4) by (auto simp: has_edge_def edges_def split: option.splits)
  then have "precedes s u v" using sorts_pos assms by blast
  moreover have "node_name D u = a" "node_name D v = b" using uv node_name_iff [OF assms(3)] by auto
  ultimately show ?thesis unfolding precedes_def by force
qed

section \<open>First and last elements\<close>

text \<open>The first loop of \<open>addFirst\<close> and of \<open>addLast\<close>.\<close>

lemma replace_from_edges:
  assumes "wf_dag D" "n < order D" "\<forall>i \<in> set xs. i < order D \<and> i \<noteq> n"
  shows "\<exists>D'. foldE (\<lambda>D i. replaceEdge D n i) D xs = Inr D' \<and> wf_dag D' \<and> same_names D D' \<and>
    edges D' = (edges D - set xs \<times> {n}) \<union> {n} \<times> set xs"
  using assms
proof (induction xs arbitrary: D)
  case (Cons x xs)
  then obtain D1 where D1: "replaceEdge D n x = Inr D1" "wf_dag D1" "same_names D D1" "edges D1 = insert (n, x) (edges D - {(x, n)})"
    using replaceEdge_edges [of D n x] by auto
  have "n < order D1" "\<forall>i \<in> set xs. i < order D1 \<and> i \<noteq> n" using Cons.prems D1(3) by (simp_all add: same_names_def)
  from Cons.IH [OF D1(2) this] obtain D2 where D2: "foldE (\<lambda>D i. replaceEdge D n i) D1 xs = Inr D2" "wf_dag D2" "same_names D1 D2"
    "edges D2 = (edges D1 - set xs \<times> {n}) \<union> {n} \<times> set xs" by blast
  have "edges D2 = (edges D - set (x # xs) \<times> {n}) \<union> {n} \<times> set (x # xs)" using D1(4) D2(4) Cons.prems(3) by auto
  then show ?case using D1(1) D2 same_names_trans [OF D1(3) D2(3)] by auto
qed simp

lemma replace_to_edges:
  assumes "wf_dag D" "n < order D" "\<forall>i \<in> set xs. i < order D \<and> i \<noteq> n"
  shows "\<exists>D'. foldE (\<lambda>D i. replaceEdge D i n) D xs = Inr D' \<and> wf_dag D' \<and> same_names D D' \<and>
    edges D' = (edges D - {n} \<times> set xs) \<union> set xs \<times> {n}"
  using assms
proof (induction xs arbitrary: D)
  case (Cons x xs)
  then obtain D1 where D1: "replaceEdge D x n = Inr D1" "wf_dag D1" "same_names D D1" "edges D1 = insert (x, n) (edges D - {(n, x)})"
    using replaceEdge_edges [of D x n] by auto
  have "n < order D1" "\<forall>i \<in> set xs. i < order D1 \<and> i \<noteq> n" using Cons.prems D1(3) by (simp_all add: same_names_def)
  from Cons.IH [OF D1(2) this] obtain D2 where D2: "foldE (\<lambda>D i. replaceEdge D i n) D1 xs = Inr D2" "wf_dag D2" "same_names D1 D2"
    "edges D2 = (edges D1 - {n} \<times> set xs) \<union> set xs \<times> {n}" by blast
  have "edges D2 = (edges D - {n} \<times> set (x # xs)) \<union> set (x # xs) \<times> {n}" using D1(4) D2(4) Cons.prems(3) by auto
  then show ?case using D1(1) D2 same_names_trans [OF D1(3) D2(3)] by auto
qed simp

text \<open>Clearing one node and linking it to another.\<close>

lemma reset_link_edges:
  assumes "wf_dag D" "x < order D" "u < order D" "v < order D" "u \<noteq> v" "x \<in> {u, v}"
  shows "\<exists>D'. bindE (resetEdges D x) (\<lambda>D. replaceEdge D u v) = Inr D' \<and> wf_dag D' \<and> same_names D D' \<and>
    edges D' = insert (u, v) {(a, b) \<in> edges D. a \<noteq> x \<and> b \<noteq> x}"
proof -
  obtain D1 where D1: "resetEdges D x = Inr D1" "wf_dag D1" "same_names D D1" "edges D1 = {(a, b) \<in> edges D. a \<noteq> x \<and> b \<noteq> x}"
    using resetEdges_edges [OF assms(1,2)] by blast
  have "u < order D1" "v < order D1" using D1(3) assms(3,4) by (simp_all add: same_names_def)
  from replaceEdge_edges [OF D1(2) this assms(5)] obtain D2 where D2: "replaceEdge D1 u v = Inr D2" "wf_dag D2" "same_names D1 D2"
    "edges D2 = insert (u, v) (edges D1 - {(v, u)})" by blast
  have "edges D2 = insert (u, v) {(a, b) \<in> edges D. a \<noteq> x \<and> b \<noteq> x}" using D1(4) D2(4) assms(6) by auto
  then show ?thesis using D1(1) D2(1,2) same_names_trans [OF D1(3) D2(3)] by simp
qed

text \<open>The second loops link the given nodes one after the other, and clear what they had before.\<close>

lemma link_first_edges:
  assumes "wf_dag D" "distinct ids" "set ids \<subseteq> {..<order D}" "j \<le> length ids - 1"
  shows "\<exists>D'. foldE (\<lambda>D i. bindE (resetEdges D (ids ! i)) (\<lambda>D. replaceEdge D (ids ! i) (ids ! (i + 1)))) D (rev [j..<length ids - 1]) = Inr D' \<and>
    wf_dag D' \<and> same_names D D' \<and>
    edges D' = {(a, b) \<in> edges D. a \<notin> (!) ids ` {j..<length ids - 1} \<and> b \<notin> (!) ids ` {j..<length ids - 1}} \<union>
      (\<lambda>i. (ids ! i, ids ! (i + 1))) ` {j..<length ids - 1}"
  using assms(4)
proof (induction rule: inc_induct)
  case base
  then show ?case using assms(1) by (intro exI [of _ D]) auto
next
  case (step j)
  let ?F = "\<lambda>D i. bindE (resetEdges D (ids ! i)) (\<lambda>D. replaceEdge D (ids ! i) (ids ! (i + 1)))"
  let ?I = "{Suc j..<length ids - 1}"
  have j: "j + 1 < length ids" using step.hyps by simp
  obtain D1 where D1: "foldE ?F D (rev [Suc j..<length ids - 1]) = Inr D1" "wf_dag D1" "same_names D D1"
    "edges D1 = {(a, b) \<in> edges D. a \<notin> (!) ids ` ?I \<and> b \<notin> (!) ids ` ?I} \<union> (\<lambda>i. (ids ! i, ids ! (i + 1))) ` ?I"
    using step.IH by blast
  have bound: "ids ! i < order D1" if "i < length ids" for i
    using nth_mem [OF that] assms(3) D1(3) by (auto simp: same_names_def)
  have b: "ids ! j < order D1" "ids ! (j + 1) < order D1" using bound j by simp_all
  have ne: "ids ! j \<noteq> ids ! (j + 1)" using j assms(2) by (simp add: nth_eq_iff_index_eq)
  obtain D2 where D2: "?F D1 j = Inr D2" "wf_dag D2" "same_names D1 D2"
    "edges D2 = insert (ids ! j, ids ! (j + 1)) {(a, b) \<in> edges D1. a \<noteq> ids ! j \<and> b \<noteq> ids ! j}"
    using reset_link_edges [OF D1(2) b(1) b ne insertI1] by metis
  have I: "{j..<length ids - 1} = insert j ?I" using j by auto
  have later: "ids ! i \<noteq> ids ! j \<and> ids ! (i + 1) \<noteq> ids ! j" if "i \<in> ?I" for i
    using that assms(2) by (auto simp: nth_eq_iff_index_eq)
  have "edges D2 = {(a, b) \<in> edges D. a \<notin> (!) ids ` {j..<length ids - 1} \<and> b \<notin> (!) ids ` {j..<length ids - 1}} \<union>
      (\<lambda>i. (ids ! i, ids ! (i + 1))) ` {j..<length ids - 1}"
    unfolding D2(4) D1(4) I using later by auto
  moreover have "[j..<length ids - 1] = j # [Suc j..<length ids - 1]" using j by (simp add: upt_conv_Cons)
  then have "foldE ?F D (rev [j..<length ids - 1]) = Inr D2" using D1(1) D2(1) by (simp add: foldE_append)
  ultimately show ?case using D2(2) same_names_trans [OF D1(3) D2(3)] by blast
qed

lemma link_last_edges:
  assumes "wf_dag D" "distinct ids" "set ids \<subseteq> {..<order D}" "1 \<le> j" "j \<le> length ids"
  shows "\<exists>D'. foldE (\<lambda>D i. bindE (resetEdges D (ids ! i)) (\<lambda>D. replaceEdge D (ids ! (i - 1)) (ids ! i))) D [1..<j] = Inr D' \<and>
    wf_dag D' \<and> same_names D D' \<and>
    edges D' = {(a, b) \<in> edges D. a \<notin> (!) ids ` {1..<j} \<and> b \<notin> (!) ids ` {1..<j}} \<union> (\<lambda>i. (ids ! (i - 1), ids ! i)) ` {1..<j}"
  using assms(4,5)
proof (induction j rule: dec_induct)
  case base
  then show ?case using assms(1) by (intro exI [of _ D]) auto
next
  case (step j)
  let ?F = "\<lambda>D i. bindE (resetEdges D (ids ! i)) (\<lambda>D. replaceEdge D (ids ! (i - 1)) (ids ! i))"
  have j: "1 \<le> j" "j < length ids" using step by simp_all
  obtain D1 where D1: "foldE ?F D [1..<j] = Inr D1" "wf_dag D1" "same_names D D1"
    "edges D1 = {(a, b) \<in> edges D. a \<notin> (!) ids ` {1..<j} \<and> b \<notin> (!) ids ` {1..<j}} \<union> (\<lambda>i. (ids ! (i - 1), ids ! i)) ` {1..<j}"
    using step.IH j(2) by auto
  have bound: "ids ! i < order D1" if "i < length ids" for i
    using nth_mem [OF that] assms(3) D1(3) by (auto simp: same_names_def)
  have b: "ids ! j < order D1" "ids ! (j - 1) < order D1" using bound j by simp_all
  have ne: "ids ! (j - 1) \<noteq> ids ! j" using j assms(2) by (simp add: nth_eq_iff_index_eq)
  obtain D2 where D2: "?F D1 j = Inr D2" "wf_dag D2" "same_names D1 D2"
    "edges D2 = insert (ids ! (j - 1), ids ! j) {(a, b) \<in> edges D1. a \<noteq> ids ! j \<and> b \<noteq> ids ! j}"
    using reset_link_edges [OF D1(2) b(1) b(2) b(1) ne insertI2 [OF singletonI]] by metis
  have I: "{1..<Suc j} = insert j {1..<j}" using j by auto
  have earlier: "ids ! i \<noteq> ids ! j \<and> ids ! (i - 1) \<noteq> ids ! j" if "i \<in> {1..<j}" for i
    using that assms(2) j by (auto simp: nth_eq_iff_index_eq)
  have "edges D2 = {(a, b) \<in> edges D. a \<notin> (!) ids ` {1..<Suc j} \<and> b \<notin> (!) ids ` {1..<Suc j}} \<union>
      (\<lambda>i. (ids ! (i - 1), ids ! i)) ` {1..<Suc j}"
    unfolding D2(4) D1(4) I using earlier by auto
  moreover have "foldE ?F D [1..<Suc j] = Inr D2" using j(1) D1(1) D2(1) by (simp add: foldE_append)
  ultimately show ?case using D2(2) same_names_trans [OF D1(3) D2(3)] by blast
qed

text \<open>The edges after \<open>addFirst\<close> and \<open>addLast\<close>: the given nodes form a chain, which comes before or after
  everything else; the edges among the other nodes stay.\<close>

definition first_edges :: "nat \<Rightarrow> nat list \<Rightarrow> (nat \<times> nat) set \<Rightarrow> (nat \<times> nat) set" where
  "first_edges n ids E = {(a, b) \<in> E. a \<notin> set ids \<and> b \<notin> set ids} \<union> {last ids} \<times> ({..<n} - set ids) \<union>
    (\<lambda>i. (ids ! i, ids ! (i + 1))) ` {0..<length ids - 1}"

definition last_edges :: "nat \<Rightarrow> nat list \<Rightarrow> (nat \<times> nat) set \<Rightarrow> (nat \<times> nat) set" where
  "last_edges n ids E = {(a, b) \<in> E. a \<notin> set ids \<and> b \<notin> set ids} \<union> ({..<n} - set ids) \<times> {hd ids} \<union>
    (\<lambda>i. (ids ! (i - 1), ids ! i)) ` {1..<length ids}"

lemma nodes_but_last:
  assumes "distinct ids" "ids \<noteq> []"
  shows "(!) ids ` {0..<length ids - 1} = set ids - {last ids}"
proof (cases ids rule: rev_cases)
  case (snoc ys y)
  have "(!) ids ` {0..<length ids - 1} = set ys" using nth_image [of "length ys" "ys @ [y]"] by (simp add: snoc)
  then show ?thesis using assms(1) snoc by auto
qed (use assms in simp)

lemma nodes_but_first:
  assumes "distinct ids" "ids \<noteq> []"
  shows "(!) ids ` {1..<length ids} = set ids - {hd ids}"
proof (cases ids)
  case (Cons x xs)
  have "(!) ids ` Suc ` {0..<length xs} = (!) xs ` {0..<length xs}" unfolding image_image Cons by simp
  then have "(!) ids ` {1..<length ids} = (!) xs ` {0..<length xs}" by (simp add: Cons)
  also have "\<dots> = set xs" using nth_image [of "length xs" xs] by simp
  finally have "(!) ids ` {1..<length ids} = set xs" .
  then show ?thesis using assms(1) Cons by auto
qed (use assms in simp)

lemma addFirst_edges:
  assumes "wf_dag D" "wf_names D" "distinct ids" "ids \<noteq> []" "set ids \<subseteq> {..<order D}"
  shows "\<exists>D'. addFirst D ids = Inr D' \<and> wf_dag D' \<and> same_names D D' \<and> edges D' = first_edges (order D) ids (edges D)"
proof -
  have o: "set (other_nodes D ids) = {..<order D} - set ids" using assms(2) by (auto simp: other_nodes_def wf_names_def)
  have l: "last ids < order D" "\<forall>i \<in> set (other_nodes D ids). i < order D \<and> i \<noteq> last ids"
    using subsetD [OF assms(5) last_in_set [OF assms(4)]] last_in_set [OF assms(4)] o by auto
  obtain D1 where D1: "foldE (\<lambda>D i. replaceEdge D (last ids) i) D (other_nodes D ids) = Inr D1" "wf_dag D1" "same_names D D1"
    "edges D1 = (edges D - set (other_nodes D ids) \<times> {last ids}) \<union> {last ids} \<times> set (other_nodes D ids)"
    using replace_from_edges [OF assms(1) l] by blast
  have "set ids \<subseteq> {..<order D1}" using assms(5) D1(3) by (simp add: same_names_def)
  then obtain D2 where D2: "foldE (\<lambda>D i. bindE (resetEdges D (ids ! i)) (\<lambda>D. replaceEdge D (ids ! i) (ids ! (i + 1)))) D1
      (rev [0..<length ids - 1]) = Inr D2" "wf_dag D2" "same_names D1 D2"
    "edges D2 = {(a, b) \<in> edges D1. a \<notin> (!) ids ` {0..<length ids - 1} \<and> b \<notin> (!) ids ` {0..<length ids - 1}} \<union>
      (\<lambda>i. (ids ! i, ids ! (i + 1))) ` {0..<length ids - 1}"
    using link_first_edges [OF D1(2) assms(3), of 0] by blast
  have "addFirst D ids = Inr D2" using assms(4) D1(1) D2(1) by (simp add: addFirst_def)
  moreover have "edges D2 = first_edges (order D) ids (edges D)"
    unfolding D2(4) D1(4) nodes_but_last [OF assms(3,4)] o first_edges_def
    using last_in_set [OF assms(4)] edges_bound [OF assms(1)] by auto
  ultimately show ?thesis using D2(2) same_names_trans [OF D1(3) D2(3)] by blast
qed

lemma addLast_edges:
  assumes "wf_dag D" "wf_names D" "distinct ids" "ids \<noteq> []" "set ids \<subseteq> {..<order D}"
  shows "\<exists>D'. addLast D ids = Inr D' \<and> wf_dag D' \<and> same_names D D' \<and> edges D' = last_edges (order D) ids (edges D)"
proof -
  have o: "set (other_nodes D ids) = {..<order D} - set ids" using assms(2) by (auto simp: other_nodes_def wf_names_def)
  have h: "ids ! 0 = hd ids" using assms(4) by (simp add: hd_conv_nth)
  have l: "hd ids < order D" "\<forall>i \<in> set (other_nodes D ids). i < order D \<and> i \<noteq> hd ids"
    using subsetD [OF assms(5) hd_in_set [OF assms(4)]] hd_in_set [OF assms(4)] o by auto
  obtain D1 where D1: "foldE (\<lambda>D i. replaceEdge D i (hd ids)) D (other_nodes D ids) = Inr D1" "wf_dag D1" "same_names D D1"
    "edges D1 = (edges D - {hd ids} \<times> set (other_nodes D ids)) \<union> set (other_nodes D ids) \<times> {hd ids}"
    using replace_to_edges [OF assms(1) l] by blast
  have "set ids \<subseteq> {..<order D1}" "1 \<le> length ids" using assms(4,5) D1(3) by (simp_all add: same_names_def Suc_le_eq)
  then obtain D2 where D2: "foldE (\<lambda>D i. bindE (resetEdges D (ids ! i)) (\<lambda>D. replaceEdge D (ids ! (i - 1)) (ids ! i))) D1
      [1..<length ids] = Inr D2" "wf_dag D2" "same_names D1 D2"
    "edges D2 = {(a, b) \<in> edges D1. a \<notin> (!) ids ` {1..<length ids} \<and> b \<notin> (!) ids ` {1..<length ids}} \<union>
      (\<lambda>i. (ids ! (i - 1), ids ! i)) ` {1..<length ids}"
    using link_last_edges [OF D1(2) assms(3)] by blast
  have "addLast D ids = Inr D2" using assms(4) D1(1) D2(1) by (simp add: addLast_def h)
  moreover have "edges D2 = last_edges (order D) ids (edges D)"
    unfolding D2(4) D1(4) nodes_but_first [OF assms(3,4)] o last_edges_def
    using hd_in_set [OF assms(4)] edges_bound [OF assms(1)] by auto
  ultimately show ?thesis using D2(2) same_names_trans [OF D1(3) D2(3)] by blast
qed

section \<open>Positions in a sorted list\<close>

lemma precedes_nth:
  assumes "distinct s" "precedes s (s ! a) (s ! b)" "a < length s" "b < length s"
  shows "a < b"
  using assms by (auto simp: precedes_def nth_eq_iff_index_eq)

lemma precedes_trans:
  assumes "distinct s" "precedes s u v" "precedes s v w"
  shows "precedes s u w"
proof -
  obtain i j where i: "i < j" "j < length s" "s ! i = u" "s ! j = v" using assms(2) by (auto simp: precedes_def)
  obtain k l where k: "k < l" "l < length s" "s ! k = v" "s ! l = w" using assms(3) by (auto simp: precedes_def)
  have "j = k" using assms(1) i k by (metis nth_eq_iff_index_eq order.strict_trans)
  then show ?thesis using i k unfolding precedes_def by (metis order.strict_trans)
qed

lemma sorts_trancl:
  assumes "sorts D s" "wf_dag D" "(u, v) \<in> (edges D)\<^sup>+"
  shows "precedes s u v"
  using assms(3)
proof induction
  case (base v)
  then show ?case by (rule sorts_pos [OF assms(1,2)])
next
  case (step v w)
  then show ?case using sorts_pos [OF assms(1,2) step.hyps(2)] precedes_trans assms(1) by (auto simp: sorts_def)
qed

lemma consecutive_positions:
  fixes f :: "nat \<Rightarrow> nat"
  assumes "\<And>i. i + 1 < k \<Longrightarrow> f i < f (i + 1)" "c \<le> f 0" "f (k - 1) \<le> c + (k - 1)" "i < k"
  shows "f i = c + i"
proof -
  have "c + i \<le> f i" if "i < k" for i
    using that
  proof (induction i)
    case (Suc i)
    then show ?case using assms(1) [of i] by simp
  qed (use assms(2) in simp)
  moreover have "f (k - 1 - d) \<le> c + (k - 1 - d)" if "d < k" for d
    using that
  proof (induction d)
    case (Suc d)
    have "f (k - 1 - Suc d) < f (k - 1 - Suc d + 1)" using Suc.prems by (intro assms(1)) simp
    also have "k - 1 - Suc d + 1 = k - 1 - d" using Suc.prems by simp
    finally show ?case using Suc by simp
  qed (use assms(3) in simp)
  from this [of "k - 1 - i"] have "f i \<le> c + i" using assms(4) by simp
  ultimately show ?thesis using assms(4) by (metis le_antisym)
qed

text \<open>Nodes in a chain before everything else come first, and nodes in a chain after everything else come last.\<close>

lemma chain_index:
  assumes "sorts D s" "wf_dag D" "set ids \<subseteq> {..<order D}" "\<And>i. i + 1 < length ids \<Longrightarrow> (ids ! i, ids ! (i + 1)) \<in> (edges D)\<^sup>+"
  obtains f where "\<And>i. i < length ids \<Longrightarrow> f i < length s \<and> s ! f i = ids ! i" "\<And>i. i + 1 < length ids \<Longrightarrow> f i < f (i + 1)"
proof -
  have "\<exists>j. j < length s \<and> s ! j = ids ! i" if "i < length ids" for i
    using nth_mem [OF that] assms(1,3) by (auto simp: sorts_def simp flip: in_set_conv_nth)
  then obtain f where f: "\<And>i. i < length ids \<Longrightarrow> f i < length s \<and> s ! f i = ids ! i" by metis
  moreover have "f i < f (i + 1)" if "i + 1 < length ids" for i
  proof -
    have d: "distinct s" using assms(1) by (simp add: sorts_def)
    have "precedes s (s ! f i) (s ! f (i + 1))" using sorts_trancl [OF assms(1,2) assms(4) [OF that]] f that by simp
    then show ?thesis by (rule precedes_nth [OF d]) (use f that in auto)
  qed
  ultimately show ?thesis using that by blast
qed

lemma sorts_first:
  assumes "sorts D s" "wf_dag D" "set ids \<subseteq> {..<order D}" "ids \<noteq> []" "distinct ids"
    "\<And>i. i + 1 < length ids \<Longrightarrow> (ids ! i, ids ! (i + 1)) \<in> (edges D)\<^sup>+"
    "\<And>v. v < order D \<Longrightarrow> v \<notin> set ids \<Longrightarrow> (last ids, v) \<in> (edges D)\<^sup>+"
  shows "take (length ids) s = ids"
proof -
  let ?k = "length ids"
  obtain f where f: "\<And>i. i < ?k \<Longrightarrow> f i < length s \<and> s ! f i = ids ! i" "\<And>i. i + 1 < ?k \<Longrightarrow> f i < f (i + 1)"
    using chain_index [OF assms(1-3,6)] by blast
  have s: "distinct s" "set s = {..<order D}" using assms(1) by (simp_all add: sorts_def)
  have l: "f (?k - 1) < length s" "s ! f (?k - 1) = last ids" using f(1) [of "?k - 1"] assms(4) by (simp_all add: last_conv_nth)
  have "set (take (f (?k - 1)) s) \<subseteq> set ids - {last ids}"
  proof
    fix v assume "v \<in> set (take (f (?k - 1)) s)"
    then obtain j where j: "j < f (?k - 1)" "v = s ! j" by (auto simp: in_set_conv_nth)
    have "v \<in> set ids"
    proof (rule ccontr)
      assume "v \<notin> set ids"
      moreover have "v < order D" using j l(1) s(2) nth_mem [of j s] by auto
      ultimately have "precedes s (s ! f (?k - 1)) (s ! j)" using assms(7) sorts_trancl [OF assms(1,2)] l(2) j(2) by simp
      then show False using precedes_nth [OF s(1)] j l(1) by fastforce
    qed
    moreover have "v \<noteq> last ids" using j l s(1) by (metis nth_eq_iff_index_eq order.strict_trans nat_neq_iff)
    ultimately show "v \<in> set ids - {last ids}" by simp
  qed
  then have "card (set (take (f (?k - 1)) s)) \<le> card (set ids - {last ids})" by (intro card_mono) auto
  then have "f (?k - 1) \<le> ?k - 1" using s(1) l(1) assms(4,5) by (simp add: distinct_card)
  then have "f i = i" if "i < ?k" for i using consecutive_positions [of ?k f 0 i] f(2) that by simp
  then have at: "i < length s \<and> s ! i = ids ! i" if "i < ?k" for i using f(1) that by metis
  have "?k \<le> length s" using at [of "?k - 1"] assms(4) by (cases ids) auto
  then show ?thesis using at by (intro nth_equalityI) auto
qed

lemma sorts_last:
  assumes "sorts D s" "wf_dag D" "set ids \<subseteq> {..<order D}" "ids \<noteq> []" "distinct ids"
    "\<And>i. i + 1 < length ids \<Longrightarrow> (ids ! i, ids ! (i + 1)) \<in> (edges D)\<^sup>+"
    "\<And>v. v < order D \<Longrightarrow> v \<notin> set ids \<Longrightarrow> (v, hd ids) \<in> (edges D)\<^sup>+"
  shows "drop (length s - length ids) s = ids" "length ids \<le> length s"
proof -
  let ?k = "length ids" and ?c = "length s - length ids"
  obtain f where f: "\<And>i. i < ?k \<Longrightarrow> f i < length s \<and> s ! f i = ids ! i" "\<And>i. i + 1 < ?k \<Longrightarrow> f i < f (i + 1)"
    using chain_index [OF assms(1-3,6)] by blast
  have s: "distinct s" "set s = {..<order D}" using assms(1) by (simp_all add: sorts_def)
  have "card (set ids) \<le> card (set s)" using assms(3) s(2) by (intro card_mono) auto
  then show k: "?k \<le> length s" using s(1) assms(5) by (simp add: distinct_card)
  have h: "f 0 < length s" "s ! f 0 = hd ids" using f(1) [of 0] assms(4) by (simp_all add: hd_conv_nth)
  have "set (drop (f 0) s) \<subseteq> set ids"
  proof
    fix v assume "v \<in> set (drop (f 0) s)"
    then obtain i where "i < length s - f 0" "v = s ! (f 0 + i)" by (auto simp: in_set_conv_nth)
    then obtain j where j: "f 0 \<le> j" "j < length s" "v = s ! j" by (metis add.commute le_add1 less_diff_conv)
    show "v \<in> set ids"
    proof (rule ccontr)
      assume "v \<notin> set ids"
      moreover have "v < order D" using j s(2) nth_mem [of j s] by auto
      ultimately have "precedes s (s ! j) (s ! f 0)" using assms(7) sorts_trancl [OF assms(1,2)] h(2) j(3) by simp
      then show False using precedes_nth [OF s(1)] j h(1) by fastforce
    qed
  qed
  then have "card (set (drop (f 0) s)) \<le> card (set ids)" by (intro card_mono) auto
  then have "?c \<le> f 0" using s(1) assms(5) by (simp add: distinct_card)
  moreover have "f (?k - 1) \<le> ?c + (?k - 1)" using f(1) [of "?k - 1"] assms(4) k by (cases ids) auto
  ultimately have "f i = ?c + i" if "i < ?k" for i using consecutive_positions [of ?k f ?c i] f(2) that by simp
  then show "drop ?c s = ids" using f(1) k by (intro nth_equalityI) auto
qed

end
