(* ===== verification/Partial_Ord.thy ===== *)
theory Partial_Ord
  imports Dag_Names
begin

text \<open>
  \<open>osmoutils/partialord\<close>: partial orders over names, built from constraints and turned into a total order by
  the topological sort. The abstract view is the set of constrained pairs of names: every
  constraint adds its pairs, and the total order is a linear extension.
\<close>

section \<open>Partial orderings\<close>

record PartialOrdering =
  po_dag :: DAG
  firstSealed :: bool
  lastSealed :: bool

definition NewPartialOrdering :: "string list \<Rightarrow> PartialOrdering res" where
  "NewPartialOrdering elements =
    bindE (NewDAG (sort elements)) (\<lambda>dag. Inr \<lparr>po_dag = dag, firstSealed = False, lastSealed = False\<rparr>)"

text \<open>Errors of the graph become panics.\<close>

definition handleDAGErr :: "'a res \<Rightarrow> 'a res" where
  "handleDAGErr r = (case r of Inl (Err e) \<Rightarrow> Inl (Panic e) | _ \<Rightarrow> r)"

definition After :: "PartialOrdering \<Rightarrow> string \<Rightarrow> string \<Rightarrow> PartialOrdering res" where
  "After ord A B = bindE (handleDAGErr (AddEdge (po_dag ord) B A)) (\<lambda>dag. Inr (ord\<lparr>po_dag := dag\<rparr>))"

definition Before :: "PartialOrdering \<Rightarrow> string \<Rightarrow> string \<Rightarrow> PartialOrdering res" where
  "Before ord A B = bindE (handleDAGErr (AddEdge (po_dag ord) A B)) (\<lambda>dag. Inr (ord\<lparr>po_dag := dag\<rparr>))"

definition FirstElements :: "PartialOrdering \<Rightarrow> string list \<Rightarrow> PartialOrdering res" where
  "FirstElements ord elems =
    (if firstSealed ord then Inl (Panic ''FirstElements has already been called'')
     else bindE (handleDAGErr (AddFirstElements (po_dag ord) elems)) (\<lambda>dag. Inr (ord\<lparr>po_dag := dag, firstSealed := True\<rparr>)))"

definition LastElements :: "PartialOrdering \<Rightarrow> string list \<Rightarrow> PartialOrdering res" where
  "LastElements ord elems =
    (if lastSealed ord then Inl (Panic ''FirstElements has already been called'')
     else bindE (handleDAGErr (AddLastElements (po_dag ord) elems)) (\<lambda>dag. Inr (ord\<lparr>po_dag := dag, lastSealed := True\<rparr>)))"

definition PO_Sequence :: "PartialOrdering \<Rightarrow> string list \<Rightarrow> PartialOrdering res" where
  "PO_Sequence ord seq = foldE (\<lambda>ord i. bindE (handleDAGErr (AddEdge (po_dag ord) (seq ! i) (seq ! (i + 1)))) (\<lambda>dag.
     Inr (ord\<lparr>po_dag := dag\<rparr>))) ord [0..<length seq - 1]"

definition TotalOrdering :: "PartialOrdering \<Rightarrow> string list res" where
  "TotalOrdering ord = TopologicalSort (po_dag ord)"

section \<open>Constraints\<close>

text \<open>The calls a user makes between \<open>NewPartialOrdering\<close> and \<open>TotalOrdering\<close>, and the pairs each stands for.\<close>

datatype constraint = CAfter string string | CBefore string string | CSequence "string list"

fun apply_constraint :: "PartialOrdering \<Rightarrow> constraint \<Rightarrow> PartialOrdering res" where
  "apply_constraint ord (CAfter A B) = After ord A B"
| "apply_constraint ord (CBefore A B) = Before ord A B"
| "apply_constraint ord (CSequence seq) = PO_Sequence ord seq"

fun constraint_pairs :: "constraint \<Rightarrow> (string \<times> string) set" where
  "constraint_pairs (CAfter A B) = {(B, A)}"
| "constraint_pairs (CBefore A B) = {(A, B)}"
| "constraint_pairs (CSequence seq) = (\<lambda>i. (seq ! i, seq ! (i + 1))) ` {0..<length seq - 1}"

definition rel :: "PartialOrdering \<Rightarrow> (string \<times> string) set" where
  "rel ord = {(a, b). has_edge (po_dag ord) a b}"

definition wf_ord :: "PartialOrdering \<Rightarrow> bool" where
  "wf_ord ord \<longleftrightarrow> wf_dag (po_dag ord) \<and> wf_names (po_dag ord)"

lemma handleDAGErr_Inr [simp]: "handleDAGErr r = Inr x \<longleftrightarrow> r = Inr x"
  by (auto simp: handleDAGErr_def split: sum.splits go_err.splits)

lemma AddEdge_rel:
  assumes "AddEdge D a b = Inr D'" "wf_dag D" "wf_names D"
  shows "wf_dag D' \<and> same_names D D' \<and> edges D \<subseteq> edges D' \<and> (\<forall>x y. has_edge D' x y \<longleftrightarrow> has_edge D x y \<or> (x = a \<and> y = b))"
proof -
  obtain u v where uv: "map_of (nodeNameToId D) a = Some u" "map_of (nodeNameToId D) b = Some v" "addEdge D u v = Inr D'"
    using assms(1) by (auto simp: AddEdge_def split: option.splits)
  have b: "u < order D" "v < order D" using uv node_name_iff [OF assms(3)] by auto
  have ok: "u \<noteq> v" "(v, u) \<notin> edges D" "replaceEdge D u v = Inr D'"
    using addEdge_edges [OF assms(2) b] uv(3) by (auto split: if_splits)
  have D': "wf_dag D'" "same_names D D'" "edges D' = insert (u, v) (edges D)"
    using replaceEdge_edges [OF assms(2) b ok(1)] ok by auto
  have inj: "x = a" if "map_of (nodeNameToId D) x = Some u" for x
    using that uv(1) node_name_iff [OF assms(3)] by auto
  have inj': "y = b" if "map_of (nodeNameToId D) y = Some v" for y
    using that uv(2) node_name_iff [OF assms(3)] by auto
  have e: "dir D' i j = Some 1 \<longleftrightarrow> dir D i j = Some 1 \<or> (i = u \<and> j = v)" for i j
    using D'(3) by (auto simp: edges_def set_eq_iff)
  have n: "nodeNameToId D' = nodeNameToId D" using D'(2) by (simp add: same_names_def)
  have "has_edge D' x y \<longleftrightarrow> has_edge D x y \<or> (x = a \<and> y = b)" for x y
    unfolding has_edge_def n e using inj [of x] inj' [of y] uv(1,2) by (auto split: option.splits)
  then show ?thesis using D' by auto
qed

text \<open>The invariant of every operation, and what it adds.\<close>

definition extends :: "PartialOrdering \<Rightarrow> PartialOrdering \<Rightarrow> bool" where
  "extends ord ord' \<longleftrightarrow> wf_ord ord' \<and> same_names (po_dag ord) (po_dag ord') \<and> edges (po_dag ord) \<subseteq> edges (po_dag ord')"

lemma extends_trans: "extends ord ord' \<Longrightarrow> extends ord' ord'' \<Longrightarrow> extends ord ord''"
  unfolding extends_def using same_names_trans by blast

lemma extends_refl: "wf_ord ord \<Longrightarrow> extends ord ord"
  by (simp add: extends_def)

lemma link_rel:
  assumes "wf_ord ord" "AddEdge (po_dag ord) a b = Inr dag"
  shows "extends ord (ord\<lparr>po_dag := dag\<rparr>)" "rel (ord\<lparr>po_dag := dag\<rparr>) = rel ord \<union> {(a, b)}"
  using AddEdge_rel [OF assms(2)] assms(1) wf_names_same by (auto simp: extends_def wf_ord_def rel_def)

lemma PO_Sequence_rel:
  assumes "wf_ord ord" "foldE (\<lambda>ord i. bindE (handleDAGErr (AddEdge (po_dag ord) (seq ! i) (seq ! (i + 1)))) (\<lambda>dag.
     Inr (ord\<lparr>po_dag := dag\<rparr>))) ord xs = Inr ord'"
  shows "extends ord ord' \<and> rel ord' = rel ord \<union> (\<lambda>i. (seq ! i, seq ! (i + 1))) ` set xs"
  using assms
proof (induction xs arbitrary: ord)
  case (Cons i xs)
  let ?F = "\<lambda>ord i. bindE (handleDAGErr (AddEdge (po_dag ord) (seq ! i) (seq ! (i + 1)))) (\<lambda>dag. Inr (ord\<lparr>po_dag := dag\<rparr>))"
  obtain dag where dag: "AddEdge (po_dag ord) (seq ! i) (seq ! (i + 1)) = Inr dag" "foldE ?F (ord\<lparr>po_dag := dag\<rparr>) xs = Inr ord'"
    using Cons.prems(2) by auto
  note l = link_rel [OF Cons.prems(1) dag(1)]
  have "wf_ord (ord\<lparr>po_dag := dag\<rparr>)" using l(1) by (simp add: extends_def)
  from Cons.IH [OF this dag(2)] l show ?case using extends_trans by auto
qed (simp add: extends_refl)

lemma apply_constraint_rel:
  assumes "wf_ord ord" "apply_constraint ord c = Inr ord'"
  shows "extends ord ord' \<and> rel ord' = rel ord \<union> constraint_pairs c"
proof (cases c)
  case (CAfter A B)
  then show ?thesis using assms link_rel [OF assms(1)] by (auto simp: After_def)
next
  case (CBefore A B)
  then show ?thesis using assms link_rel [OF assms(1)] by (auto simp: Before_def)
next
  case (CSequence seq)
  then show ?thesis using PO_Sequence_rel [OF assms(1), of seq] assms(2) by (simp add: PO_Sequence_def)
qed

lemma apply_constraints_rel:
  assumes "wf_ord ord" "foldE apply_constraint ord cs = Inr ord'"
  shows "extends ord ord' \<and> rel ord' = rel ord \<union> (\<Union>c \<in> set cs. constraint_pairs c)"
  using assms
proof (induction cs arbitrary: ord)
  case (Cons c cs)
  obtain ord1 where o: "apply_constraint ord c = Inr ord1" "foldE apply_constraint ord1 cs = Inr ord'" using Cons.prems(2) by auto
  note a = apply_constraint_rel [OF Cons.prems(1) o(1)]
  then have "wf_ord ord1" by (simp add: extends_def)
  from Cons.IH [OF this o(2)] a show ?case using extends_trans by auto
qed (simp add: extends_refl)

lemma NewPartialOrdering_rel:
  assumes "NewPartialOrdering elements = Inr ord"
  shows "wf_ord ord" "rel ord = {}" "mset (map fst (nodeNameToId (po_dag ord))) = mset elements"
proof -
  obtain D where D: "NewDAG (sort elements) = Inr D" "po_dag ord = D" using assms by (auto simp: NewPartialOrdering_def)
  note n = NewDAG_wf [OF D(1)]
  show "wf_ord ord" using n D(2) by (simp add: wf_ord_def)
  show "mset (map fst (nodeNameToId (po_dag ord))) = mset elements" using n(4) D(2) by (metis mset_sort)
  show "rel ord = {}" using n(3) D(2) by (auto simp: rel_def has_edge_def edges_def split: option.splits)
qed

section \<open>Total orders\<close>

lemma rel_edges_trancl:
  assumes "wf_ord ord"
  shows "acyclic (rel ord) \<longleftrightarrow> acyclic (edges (po_dag ord))"
proof -
  let ?D = "po_dag ord" and ?id = "\<lambda>a. the (map_of (nodeNameToId (po_dag ord)) a)"
  have wf: "wf_dag ?D" "wf_names ?D" using assms by (simp_all add: wf_ord_def)
  have up: "(node_name ?D u, node_name ?D v) \<in> rel ord" if "(u, v) \<in> edges ?D" for u v
  proof -
    have "map_of (nodeNameToId ?D) (node_name ?D u) = Some u" "map_of (nodeNameToId ?D) (node_name ?D v) = Some v"
      using edges_bound [OF wf(1) that] node_name_iff [OF wf(2)] by simp_all
    then show ?thesis using that by (simp add: rel_def has_edge_def edges_def)
  qed
  have down: "(?id a, ?id b) \<in> edges ?D" if "(a, b) \<in> rel ord" for a b
    using that by (auto simp: rel_def has_edge_def edges_def split: option.splits)
  have "(node_name ?D u, node_name ?D v) \<in> (rel ord)\<^sup>+" if "(u, v) \<in> (edges ?D)\<^sup>+" for u v
    using that by induction (use up in \<open>auto intro: trancl_into_trancl\<close>)
  moreover have "(?id a, ?id b) \<in> (edges ?D)\<^sup>+" if "(a, b) \<in> (rel ord)\<^sup>+" for a b
    using that by induction (use down in \<open>auto intro: trancl_into_trancl\<close>)
  ultimately show ?thesis unfolding acyclic_def by blast
qed

lemma TotalOrdering_wf:
  assumes "wf_ord ord"
  shows "acyclic (rel ord) \<Longrightarrow> \<exists>s. sorts (po_dag ord) s \<and> TotalOrdering ord = Inr (map (node_name (po_dag ord)) s)"
    "\<not> acyclic (rel ord) \<Longrightarrow> TotalOrdering ord =
      Inl (Panic ''dag: invalid construction, attempted to topologically sort a tree that is not a dag. A cycle exists'')"
  using TopologicalSort_ids [of "po_dag ord"] rel_edges_trancl [OF assms] assms by (simp_all add: wf_ord_def TotalOrdering_def)

lemma TotalOrdering_sorts:
  assumes "wf_ord ord" "TotalOrdering ord = Inr names"
  obtains s where "sorts (po_dag ord) s" "names = map (node_name (po_dag ord)) s"
  using TotalOrdering_wf [OF assms(1)] assms(2) by fastforce

lemma namesToIds_Inr:
  assumes "namesToIds D names = Inr ids" "wf_names D"
  shows "map (node_name D) ids = names" "set ids \<subseteq> {..<order D}"
proof -
  let ?F = "\<lambda>nodeIds name. case map_of (nodeNameToId D) name of
     None \<Rightarrow> Inl (Err ''node does not exist in dag'') | Some nodeIndex \<Rightarrow> Inr (nodeIds @ [nodeIndex])"
  have "map (node_name D) ids = map (node_name D) acc @ names \<and> set ids \<subseteq> {..<order D}"
    if "foldE ?F acc names = Inr ids" "set acc \<subseteq> {..<order D}" for acc names
    using that
  proof (induction names arbitrary: acc)
    case (Cons name names)
    then obtain u where u: "map_of (nodeNameToId D) name = Some u" "foldE ?F (acc @ [u]) names = Inr ids"
      by (auto split: option.splits)
    then have "u < order D" "node_name D u = name" using node_name_iff [OF assms(2)] by auto
    with Cons.IH [OF u(2)] Cons.prems(2) show ?case by auto
  qed auto
  from this [of "[]" names] assms(1) show "map (node_name D) ids = names" "set ids \<subseteq> {..<order D}"
    by (simp_all add: namesToIds_def)
qed

lemma FirstElements_edges:
  assumes "wf_ord ord" "FirstElements ord fs = Inr ord'" "distinct fs"
  obtains F where "map (node_name (po_dag ord)) F = fs" "F \<noteq> []" "distinct F" "set F \<subseteq> {..<order (po_dag ord)}" "wf_ord ord'"
    "same_names (po_dag ord) (po_dag ord')" "edges (po_dag ord') = first_edges (order (po_dag ord)) F (edges (po_dag ord))"
proof -
  let ?D = "po_dag ord"
  have wf: "wf_dag ?D" "wf_names ?D" using assms(1) by (simp_all add: wf_ord_def)
  obtain F dag where F: "namesToIds ?D fs = Inr F" "addFirst ?D F = Inr dag" "po_dag ord' = dag"
    using assms(2) by (auto simp: FirstElements_def AddFirstElements_def split: if_splits)
  note n = namesToIds_Inr [OF F(1) wf(2)]
  have F': "F \<noteq> []" "distinct F" using F(2) assms(3) n(1) by (auto simp: addFirst_def distinct_map)
  with addFirst_edges [OF wf F'(2,1) n(2)] F(2,3) wf(2) wf_names_same n that show thesis by (auto simp: wf_ord_def)
qed

lemma LastElements_edges:
  assumes "wf_ord ord" "LastElements ord ls = Inr ord'" "distinct ls"
  obtains L where "map (node_name (po_dag ord)) L = ls" "L \<noteq> []" "distinct L" "set L \<subseteq> {..<order (po_dag ord)}" "wf_ord ord'"
    "same_names (po_dag ord) (po_dag ord')" "edges (po_dag ord') = last_edges (order (po_dag ord)) L (edges (po_dag ord))"
proof -
  let ?D = "po_dag ord"
  have wf: "wf_dag ?D" "wf_names ?D" using assms(1) by (simp_all add: wf_ord_def)
  obtain L dag where L: "namesToIds ?D ls = Inr L" "addLast ?D L = Inr dag" "po_dag ord' = dag"
    using assms(2) by (auto simp: LastElements_def AddLastElements_def split: if_splits)
  note n = namesToIds_Inr [OF L(1) wf(2)]
  have L': "L \<noteq> []" "distinct L" using L(2) assms(3) n(1) by (auto simp: addLast_def distinct_map)
  with addLast_edges [OF wf L'(2,1) n(2)] L(2,3) wf(2) wf_names_same n that show thesis by (auto simp: wf_ord_def)
qed

lemma first_last_split:
  assumes "sorts D s" "wf_dag D" "distinct F" "distinct L" "F \<noteq> []" "L \<noteq> []" "set F \<subseteq> {..<order D}" "set L \<subseteq> {..<order D}"
    "set F \<inter> set L = {}" "last_edges (order D) L (first_edges (order D) F E) \<subseteq> edges D"
  shows "\<exists>mid. s = F @ mid @ L"
proof -
  have chainF: "(F ! i, F ! (i + 1)) \<in> edges D" if "i + 1 < length F" for i
  proof -
    have "(F ! i, F ! (i + 1)) \<in> first_edges (order D) F E" using that by (auto simp: first_edges_def)
    moreover have "x \<notin> set L" if "x \<in> set F" for x using that assms(9) by blast
    then have "F ! i \<notin> set L" "F ! (i + 1) \<notin> set L" using that by simp_all
    ultimately show ?thesis using assms(10) by (auto simp: last_edges_def)
  qed
  have "(L ! (i + 1 - 1), L ! (i + 1)) \<in> last_edges (order D) L X" if "i + 1 < length L" for i X
    unfolding last_edges_def using that by (intro UnI2 image_eqI [of _ _ "i + 1"]) auto
  then have chainL: "(L ! i, L ! (i + 1)) \<in> edges D" if "i + 1 < length L" for i using that assms(10) by fastforce
  have toL: "(v, hd L) \<in> edges D" if "v < order D" "v \<notin> set L" for v using that assms(10) by (auto simp: last_edges_def)
  have downL: "(hd L, L ! j) \<in> (edges D)\<^sup>*" if "j < length L" for j
    using that
  proof (induction j)
    case (Suc j)
    then show ?case using chainL [of j] by (auto intro: rtrancl_into_rtrancl)
  qed (use assms(6) in \<open>simp add: hd_conv_nth\<close>)
  have "last F \<in> set F" using assms(5) by simp
  then have l: "last F < order D" "last F \<notin> set L" using assms(7,9) by blast+
  have fromF: "(last F, v) \<in> (edges D)\<^sup>+" if "v < order D" "v \<notin> set F" for v
  proof (cases "v \<in> set L")
    case True
    then obtain j where "j < length L" "v = L ! j" by (auto simp: in_set_conv_nth)
    then show ?thesis using toL [OF l] downL [of j] by (auto intro: rtrancl_into_trancl2)
  next
    case False
    have "(last F, v) \<in> first_edges (order D) F E" using that by (simp add: first_edges_def)
    then show ?thesis using False l(2) assms(10) by (auto simp: last_edges_def)
  qed
  have F: "take (length F) s = F"
    by (rule sorts_first [OF assms(1,2,7,5,3)]) (use chainF fromF in auto)
  have L: "drop (length s - length L) s = L" "length L \<le> length s"
    by (rule sorts_last [OF assms(1,2,8,6,4)]; use chainL toL in auto)+
  have "length F \<le> length s - length L"
  proof (rule ccontr)
    assume "\<not> length F \<le> length s - length L"
    moreover have "length s - length L < length s" using L(2) assms(6) by (cases L) auto
    ultimately have "s ! (length s - length L) \<in> set (take (length F) s)" by (auto simp: in_set_conv_nth intro!: exI [of _ "length s - length L"])
    moreover have "s ! (length s - length L) \<in> set L"
      using L assms(6) by (metis hd_drop_conv_nth hd_in_set diff_less length_greater_0_conv le_zero_eq not_le)
    ultimately show False using F assms(9) by auto
  qed
  then have "drop (length F) s = take (length s - length L - length F) (drop (length F) s) @ L"
    using L(1) by (metis append_take_drop_id drop_drop le_add_diff_inverse2 add.commute)
  then show ?thesis using F by (metis append_take_drop_id)
qed

section \<open>Properties\<close>

text \<open>C10: The topological sort returns on exactly the graphs without a cycle, and then lists every name once,
  with the source of each edge before its target; on a graph with a cycle it panics.\<close>

theorem TopologicalSort_spec:
  assumes "wf_dag D" "wf_names D"
  shows "case TopologicalSort D of
      Inr names \<Rightarrow> acyclic (edges D) \<and> mset names = mset (map fst (nodeNameToId D)) \<and>
        (\<forall>a b. has_edge D a b \<longrightarrow> precedes names a b)
    | Inl e \<Rightarrow> \<not> acyclic (edges D) \<and>
        e = Panic ''dag: invalid construction, attempted to topologically sort a tree that is not a dag. A cycle exists''"
proof (cases "acyclic (edges D)")
  case True
  then obtain s where "sorts D s" "TopologicalSort D = Inr (map (node_name D) s)" using TopologicalSort_ids(1) [OF assms] by blast
  then show ?thesis using True sorts_names [OF _ assms(2)] sorts_has_edge [OF _ assms] by auto
next
  case False
  then show ?thesis using TopologicalSort_ids(2) [OF assms] by simp
qed

text \<open>A graph with two edges, as the code builds it.\<close>

definition example_dag :: DAG where
  "example_dag = \<lparr>directedEdgeList = [[(2, 1)], [(2, 1)], [(0, - 1), (1, - 1)]],
     nodeNameToId = [(''a'', 0), (''b'', 1), (''c'', 2)], idToNodeNames = [(0, ''a''), (1, ''b''), (2, ''c'')]\<rparr>"

lemma example_dag_wf: "wf_dag example_dag" "wf_names example_dag"
proof -
  have "wf_dag example_dag \<and> edges example_dag = {(0, 2), (1, 2)}"
    by (rule wf_dagI) (auto simp: example_dag_def dir_def order_def nth_Cons' split: if_splits)
  then show "wf_dag example_dag" by simp
  show "wf_names example_dag"
    by (auto simp: wf_names_def example_dag_def order_def less_Suc_eq numeral_eq_Suc split: if_splits)
qed

theorem TopologicalSort_spec_witness:
  "TopologicalSort example_dag = Inr [''a'', ''b'', ''c''] \<and> precedes [''a'', ''b'', ''c''] ''a'' ''c''"
proof -
  have r: "TopologicalSort example_dag = Inr [''a'', ''b'', ''c'']" by code_simp
  have "has_edge example_dag ''a'' ''c''" by code_simp
  with TopologicalSort_spec [OF example_dag_wf] r show ?thesis by simp
qed

text \<open>C28: The topological sort does not depend on the order in which Go ranges over its maps: two
  representations of the same graph give the same list.\<close>

theorem TopologicalSort_deterministic:
  assumes "wf_dag D" "wf_names D" "wf_dag D'" "same_names D D'" "\<forall>u v. dir D u v = dir D' u v"
  shows "TopologicalSort D = TopologicalSort D'"
  by (rule TopologicalSort_same [OF assms(1-4)]) (use assms(5) in \<open>simp add: edges_def\<close>)

theorem TopologicalSort_deterministic_witness:
  "TopologicalSort example_dag =
   TopologicalSort (example_dag\<lparr>directedEdgeList := [[(2, 1)], [(2, 1)], [(1, - 1), (0, - 1)]]\<rparr>)"
proof -
  let ?D = "example_dag\<lparr>directedEdgeList := [[(2, 1)], [(2, 1)], [(1, - 1), (0, - 1)]]\<rparr>"
  have "wf_dag ?D \<and> edges ?D = {(0, 2), (1, 2)}"
    by (rule wf_dagI) (auto simp: example_dag_def dir_def order_def nth_Cons' split: if_splits)
  then show ?thesis
    using TopologicalSort_deterministic [of example_dag ?D] example_dag_wf
    by (auto simp: same_names_def order_def example_dag_def dir_def nth_Cons')
qed

text \<open>C3: A partial ordering refines the set of its constraints: when the calls to \<open>After\<close>, \<open>Before\<close> and
  \<open>Sequence\<close> return, the total ordering is a permutation of the elements in which every
  constraint holds, and it panics exactly when the constraints contradict each other.\<close>

theorem TotalOrdering_refines:
  assumes "NewPartialOrdering elements = Inr ord0" "foldE apply_constraint ord0 cs = Inr ord"
  shows "case TotalOrdering ord of
      Inr names \<Rightarrow> acyclic (\<Union>c \<in> set cs. constraint_pairs c) \<and> mset names = mset elements \<and>
        (\<forall>(a, b) \<in> (\<Union>c \<in> set cs. constraint_pairs c). precedes names a b)
    | Inl e \<Rightarrow> \<not> acyclic (\<Union>c \<in> set cs. constraint_pairs c)"
proof -
  note n = NewPartialOrdering_rel [OF assms(1)]
  have x: "extends ord0 ord" and r: "rel ord = (\<Union>c \<in> set cs. constraint_pairs c)"
    using apply_constraints_rel [OF n(1) assms(2)] n(2) by auto
  have wf: "wf_ord ord" "wf_dag (po_dag ord)" "wf_names (po_dag ord)" using x by (simp_all add: extends_def wf_ord_def)
  have names: "nodeNameToId (po_dag ord) = nodeNameToId (po_dag ord0)" using x by (simp add: extends_def same_names_def)
  show ?thesis
  proof (cases "acyclic (rel ord)")
    case True
    then obtain s where s: "sorts (po_dag ord) s" "TotalOrdering ord = Inr (map (node_name (po_dag ord)) s)"
      using TotalOrdering_wf(1) [OF wf(1)] by blast
    have "precedes (map (node_name (po_dag ord)) s) a b" if "(a, b) \<in> rel ord" for a b
      using that sorts_has_edge [OF s(1) wf(2,3)] by (simp add: rel_def)
    then show ?thesis using True s(2) sorts_names [OF s(1) wf(3)] n(3) by (auto simp: r names)
  next
    case False
    then show ?thesis using TotalOrdering_wf(2) [OF wf(1)] by (simp add: r)
  qed
qed

theorem TotalOrdering_refines_witness:
  "\<exists>ord0 ord. NewPartialOrdering [''b'', ''a'', ''c''] = Inr ord0 \<and>
     foldE apply_constraint ord0 [CAfter ''a'' ''b'', CSequence [''a'', ''c'']] = Inr ord \<and>
     TotalOrdering ord = Inr [''b'', ''a'', ''c''] \<and> precedes [''b'', ''a'', ''c''] ''b'' ''a''"
proof -
  let ?cs = "[CAfter ''a'' ''b'', CSequence [''a'', ''c'']]"
  obtain ord0 where o0: "NewPartialOrdering [''b'', ''a'', ''c''] = Inr ord0"
    and o: "is_ok (foldE apply_constraint ord0 ?cs)"
    and t: "bindE (foldE apply_constraint ord0 ?cs) TotalOrdering = Inr [''b'', ''a'', ''c'']"
  proof -
    let ?r = "NewPartialOrdering [''b'', ''a'', ''c'']"
    have "is_ok (bindE ?r (\<lambda>ord0. foldE apply_constraint ord0 ?cs))"
      "bindE ?r (\<lambda>ord0. bindE (foldE apply_constraint ord0 ?cs) TotalOrdering) = Inr [''b'', ''a'', ''c'']" by code_simp+
    then show thesis using that by (cases ?r) auto
  qed
  from o obtain ord where ord: "foldE apply_constraint ord0 ?cs = Inr ord" by (auto simp: is_ok_iff)
  then have "TotalOrdering ord = Inr [''b'', ''a'', ''c'']" using t by simp
  with TotalOrdering_refines [OF o0 ord] o0 ord show ?thesis by auto
qed

text \<open>C20: First and last elements keep their promise: whatever is constrained afterwards, a total ordering
  begins with the first elements and ends with the last elements, in the order given.\<close>

theorem FirstElements_LastElements:
  assumes "wf_ord ord0" "FirstElements ord0 fs = Inr ord1" "LastElements ord1 ls = Inr ord2"
    "foldE apply_constraint ord2 cs = Inr ord" "TotalOrdering ord = Inr names" "distinct fs" "distinct ls" "set fs \<inter> set ls = {}"
  shows "\<exists>mid. names = fs @ mid @ ls"
proof -
  obtain F where F: "map (node_name (po_dag ord0)) F = fs" "F \<noteq> []" "distinct F" "set F \<subseteq> {..<order (po_dag ord0)}" "wf_ord ord1"
    "same_names (po_dag ord0) (po_dag ord1)" "edges (po_dag ord1) = first_edges (order (po_dag ord0)) F (edges (po_dag ord0))"
    using FirstElements_edges [OF assms(1,2,6)] by blast
  obtain L where L: "map (node_name (po_dag ord1)) L = ls" "L \<noteq> []" "distinct L" "set L \<subseteq> {..<order (po_dag ord1)}" "wf_ord ord2"
    "same_names (po_dag ord1) (po_dag ord2)" "edges (po_dag ord2) = last_edges (order (po_dag ord1)) L (edges (po_dag ord1))"
    using LastElements_edges [OF F(5) assms(3,7)] by blast
  have x: "extends ord2 ord" using apply_constraints_rel [OF L(5) assms(4)] by blast
  then have wf: "wf_ord ord" "wf_dag (po_dag ord)" by (simp_all add: extends_def wf_ord_def)
  obtain s where s: "sorts (po_dag ord) s" "names = map (node_name (po_dag ord)) s" by (rule TotalOrdering_sorts [OF wf(1) assms(5)])
  have sn: "same_names (po_dag ord0) (po_dag ord)" "same_names (po_dag ord1) (po_dag ord)"
    using x F(6) L(6) same_names_trans by (auto simp: extends_def)
  then have o: "order (po_dag ord0) = order (po_dag ord)" "order (po_dag ord1) = order (po_dag ord)"
    "node_name (po_dag ord0) = node_name (po_dag ord)" "node_name (po_dag ord1) = node_name (po_dag ord)"
    by (auto simp: same_names_def node_name_def)
  have disj: "set F \<inter> set L = {}" using assms(8) F(1) L(1) o by (metis disjoint_iff image_eqI image_set)
  have "last_edges (order (po_dag ord)) L (first_edges (order (po_dag ord)) F (edges (po_dag ord0))) \<subseteq> edges (po_dag ord)"
    using x F(7) L(7) o by (simp add: extends_def)
  then obtain mid where "s = F @ mid @ L"
    using first_last_split [OF s(1) wf(2) F(3) L(3) F(2) L(2) _ _ disj] F(4) L(4) o by auto
  then have "names = fs @ map (node_name (po_dag ord)) mid @ ls" using s(2) F(1) L(1) o by simp
  then show ?thesis by blast
qed

theorem FirstElements_LastElements_witness:
  "\<exists>ord0 ord1 ord2 names mid. NewPartialOrdering [''b'', ''a'', ''c'', ''d''] = Inr ord0 \<and> FirstElements ord0 [''d'', ''b''] = Inr ord1 \<and>
     LastElements ord1 [''a''] = Inr ord2 \<and> TotalOrdering ord2 = Inr names \<and> names = [''d'', ''b''] @ mid @ [''a'']"
proof -
  let ?r = "NewPartialOrdering [''b'', ''a'', ''c'', ''d'']"
  have ok: "is_ok (bindE ?r (\<lambda>ord. bindE (FirstElements ord [''d'', ''b'']) (\<lambda>ord. bindE (LastElements ord [''a'']) TotalOrdering)))"
    by code_simp
  obtain ord0 ord1 ord2 names where o: "?r = Inr ord0" "FirstElements ord0 [''d'', ''b''] = Inr ord1" "LastElements ord1 [''a''] = Inr ord2"
    "TotalOrdering ord2 = Inr names" using ok by (auto simp: is_ok_iff)
  from FirstElements_LastElements [OF NewPartialOrdering_rel(1) [OF o(1)] o(2,3) _ o(4), of "[]"] o show ?thesis by auto
qed

end
