(* ===== verification/Sumtree.thy ===== *)
theory Sumtree
  imports SDK_Types KV_Store
begin

text \<open>
  \<open>osmoutils/sumtree\<close>: a B+ tree on a key-value store whose inner nodes hold the sums of their
  children. A node sits in the store under its level and its key; \<open>nodeKey\<close> writes the level in
  two bytes before the key, so the entries of a level are one range of the store, in the order
  of their keys. The model keeps one ordered store per level. Keys are byte strings that are not
  nil; the nil key \<open>NewTree\<close> passes to \<open>Set\<close> is the empty one (the two differ only in the search of
  siblings, and there are none then), and \<open>SubsetAccumulation\<close>, which tells them apart, takes
  optional keys. The arithmetic of the SDK's \<open>Int\<close> is a parameter and may panic.
\<close>

section \<open>Store keys\<close>

text \<open>The prefix \<open>node/\<close>, the level in two bytes, most significant first, and the key.\<close>

definition nodeKeyPrefix :: string where
  "nodeKeyPrefix = ''node/''"

definition nodeKey :: "nat \<Rightarrow> string \<Rightarrow> string" where
  "nodeKey level key = nodeKeyPrefix @ [char_of (level div 256 mod 256), char_of (level mod 256)] @ key"

definition leafKey :: "string \<Rightarrow> string" where
  "leafKey key = nodeKey 0 key"

section \<open>Nodes\<close>

type_synonym child = "string \<times> int"

text \<open>The leaves, the nodes of level 1, 2 and so on, and the capacity of a node.\<close>

record tree =
  tree_leaves :: "int kv"
  tree_levels :: "child list kv list"
  tree_m :: nat

fun node_find :: "nat \<Rightarrow> child list \<Rightarrow> string \<Rightarrow> nat \<times> bool" where
  "node_find idx [] key = (idx, False)"
| "node_find idx (child # cs) key =
    (if fst child = key then (idx, True) else if key < fst child then (idx, False) else node_find (idx + 1) cs key)"

definition accumulate :: "sdk \<Rightarrow> child list \<Rightarrow> int res" where
  "accumulate S cs = foldE (\<lambda>res child. Int_Add S res (snd child)) 0 cs"

definition setAcc :: "child list \<Rightarrow> nat \<Rightarrow> int \<Rightarrow> child list" where
  "setAcc cs idx acc = cs[idx := (fst (cs ! idx), acc)]"

definition node_insert :: "child list \<Rightarrow> nat \<Rightarrow> child \<Rightarrow> child list" where
  "node_insert cs idx c = take idx cs @ c # drop idx cs"

definition node_delete :: "child list \<Rightarrow> nat \<Rightarrow> child list" where
  "node_delete cs idx = take idx cs @ drop (idx + 1) cs"

definition node_split :: "child list \<Rightarrow> nat \<Rightarrow> child list \<times> child list" where
  "node_split cs idx = (take idx cs, drop idx cs)"

definition node_merge :: "child list \<Rightarrow> child list \<Rightarrow> child list" where
  "node_merge cs ds = cs @ ds"

section \<open>Pointers\<close>

text \<open>A pointer is a level and a key. The entries of a level above 0.\<close>

definition level_nodes :: "tree \<Rightarrow> nat \<Rightarrow> child list kv" where
  "level_nodes t level = (if 0 < level \<and> level \<le> length (tree_levels t) then tree_levels t ! (level - 1) else [])"

definition level_keys :: "tree \<Rightarrow> nat \<Rightarrow> string list" where
  "level_keys t level = (if level = 0 then map fst (kv_entries (tree_leaves t)) else map fst (kv_entries (level_nodes t level)))"

definition ptr_exists :: "tree \<Rightarrow> nat \<Rightarrow> string \<Rightarrow> bool" where
  "ptr_exists t level key \<longleftrightarrow> key \<in> set (level_keys t level)"

definition ptr_node :: "tree \<Rightarrow> nat \<Rightarrow> string \<Rightarrow> child list" where
  "ptr_node t level key = (case kv_get (level_nodes t level) key of None \<Rightarrow> [] | Some cs \<Rightarrow> cs)"

text \<open>Writing a node; a level that does not exist yet is added.\<close>

definition ptr_set :: "tree \<Rightarrow> nat \<Rightarrow> string \<Rightarrow> child list \<Rightarrow> tree" where
  "ptr_set t level key cs =
    (let ls = tree_levels t @ replicate (level - length (tree_levels t)) [] in
     t\<lparr>tree_levels := ls[level - 1 := kv_set (ls ! (level - 1)) key cs]\<rparr>)"

definition ptr_create :: "tree \<Rightarrow> nat \<Rightarrow> string \<Rightarrow> child list \<Rightarrow> tree" where
  "ptr_create t level key cs = ptr_set t level key cs"

definition setLeaf :: "tree \<Rightarrow> string \<Rightarrow> int \<Rightarrow> tree" where
  "setLeaf t key acc = t\<lparr>tree_leaves := kv_set (tree_leaves t) key acc\<rparr>"

definition ptr_delete :: "tree \<Rightarrow> nat \<Rightarrow> string \<Rightarrow> tree" where
  "ptr_delete t level key =
    (if level = 0 then t\<lparr>tree_leaves := kv_delete (tree_leaves t) key\<rparr>
     else t\<lparr>tree_levels := (tree_levels t)[level - 1 := kv_delete (level_nodes t level) key]\<rparr>)"

text \<open>The iterators over a level: the keys from \<open>begin\<close> on and below \<open>end\<close>, which may be nil.\<close>

definition ptrIterator :: "tree \<Rightarrow> nat \<Rightarrow> string \<Rightarrow> string option \<Rightarrow> string list" where
  "ptrIterator t level bgn end' = filter (\<lambda>k. bgn \<le> k \<and> (case end' of None \<Rightarrow> True | Some e \<Rightarrow> k < e)) (level_keys t level)"

definition ptrReverseIterator :: "tree \<Rightarrow> nat \<Rightarrow> string \<Rightarrow> string option \<Rightarrow> string list" where
  "ptrReverseIterator t level bgn end' = rev (ptrIterator t level bgn end')"

definition iter_ptr :: "string list \<Rightarrow> string option" where
  "iter_ptr iter = (case iter of [] \<Rightarrow> None | k # _ \<Rightarrow> Some k)"

definition leftSibling :: "tree \<Rightarrow> nat \<Rightarrow> string \<Rightarrow> string option" where
  "leftSibling t level key = iter_ptr (ptrReverseIterator t level '''' (Some key))"

definition rightSibling :: "tree \<Rightarrow> nat \<Rightarrow> string \<Rightarrow> string option" where
  "rightSibling t level key =
    (let iter = ptrIterator t level key None in
     iter_ptr (if ptr_exists t level key then tl iter else iter))"

text \<open>The key of the parent, which is on the next level.\<close>

definition ptr_parent :: "tree \<Rightarrow> nat \<Rightarrow> string \<Rightarrow> string" where
  "ptr_parent t level key =
    (if ptr_exists t (level + 1) key then key
     else case leftSibling t (level + 1) key of Some k \<Rightarrow> k | None \<Rightarrow> '''')"

section \<open>Updates\<close>

lemma length_ptr_set: "ptr_exists t (Suc level) key \<Longrightarrow> length (tree_levels (ptr_set t (Suc level) key' cs)) = length (tree_levels t)"
  by (auto simp: ptr_exists_def level_keys_def level_nodes_def ptr_set_def kv_entries_def Let_def split: if_splits)

lemma ptr_exists_level: "ptr_exists t (Suc level) key \<Longrightarrow> Suc level \<le> length (tree_levels t)"
  by (auto simp: ptr_exists_def level_keys_def level_nodes_def kv_entries_def split: if_splits)

text \<open>The levels are counted from 1: \<open>level\<close> stands for the level \<open>level + 1\<close> of the code.\<close>

function updateAccumulation :: "sdk \<Rightarrow> tree \<Rightarrow> nat \<Rightarrow> string \<Rightarrow> child \<Rightarrow> tree res" where
  "updateAccumulation S t level key c =
    (if \<not> ptr_exists t (Suc level) key then Inr t
     else
       let node = ptr_node t (Suc level) key; (idx, match) = node_find 0 node (fst c) in
       if \<not> match then Inl (Panic ''non existing key pushed from the child'')
       else
         let node = setAcc node idx (snd c); t = ptr_set t (Suc level) key node in
         bindE (accumulate S node) (\<lambda>acc.
         updateAccumulation S t (Suc level) (ptr_parent t (Suc level) key) (key, acc)))"
  by pat_completeness auto

termination updateAccumulation
  by (relation "measure (\<lambda>(S, t, level, key, c). length (tree_levels t) - level)")
    (auto simp: length_ptr_set dest: ptr_exists_level)

declare updateAccumulation.simps [simp del]

function push :: "sdk \<Rightarrow> tree \<Rightarrow> nat \<Rightarrow> string \<Rightarrow> child \<Rightarrow> tree res" where
  "push S t level key c =
    (if \<not> ptr_exists t (Suc level) key then Inr (ptr_create t (Suc level) key [c])
     else
       let cs = ptr_node t (Suc level) key; (idx, match) = node_find 0 cs (fst c) in
       if match then updateAccumulation S t level key c
       else
         let cs = node_insert cs idx c; parent = ptr_parent t (Suc level) key in
         if length cs > tree_m t then
           let split = tree_m t div 2 + 1; (leftnode, rightnode) = node_split cs split in
           bindE (go_index cs split) (\<lambda>(rkey, _).
           let t = ptr_create t (Suc level) rkey rightnode in
           if \<not> ptr_exists t (Suc (Suc level)) parent then
             bindE (accumulate S leftnode) (\<lambda>lacc.
             bindE (accumulate S rightnode) (\<lambda>racc.
             Inr (ptr_set (ptr_create t (Suc (Suc level)) parent [(key, lacc), (rkey, racc)]) (Suc level) key leftnode)))
           else
             bindE (accumulate S rightnode) (\<lambda>racc.
             bindE (push S t (Suc level) parent (rkey, racc)) (\<lambda>t.
             bindE (accumulate S leftnode) (\<lambda>lacc.
             bindE (updateAccumulation S t (Suc level) (ptr_parent t (Suc level) key) (key, lacc)) (\<lambda>t.
             Inr (ptr_set t (Suc level) key leftnode))))))
         else
           bindE (accumulate S cs) (\<lambda>acc.
           bindE (updateAccumulation S t (Suc level) parent (key, acc)) (\<lambda>t.
           Inr (ptr_set t (Suc level) key cs))))"
  by pat_completeness auto

termination push
  by (relation "measure (\<lambda>(S, t, level, key, c). length (tree_levels t) - level)")
    (auto simp: length_ptr_set ptr_create_def dest: ptr_exists_level)

declare push.simps [simp del]

text \<open>The number of levels above bounds the recursion of \<open>pull\<close>: beyond it no node exists.\<close>

fun pull :: "sdk \<Rightarrow> nat \<Rightarrow> tree \<Rightarrow> nat \<Rightarrow> string \<Rightarrow> string \<Rightarrow> tree res" where
  "pull S 0 t level pkey key = Inr t"
| "pull S (Suc n) t level pkey key =
    (if \<not> ptr_exists t (Suc level) pkey then Inr t
     else
       let node = ptr_node t (Suc level) pkey; (idx, match) = node_find 0 node key in
       if \<not> match then Inl (Panic ''pulling non existing child'')
       else
         let node = node_delete node idx in
         if length node > 0 then
           let t = ptr_set t (Suc level) pkey node in
           bindE (accumulate S node) (\<lambda>acc.
           updateAccumulation S t (Suc level) (ptr_parent t (Suc level) pkey) (pkey, acc))
         else
           let left = leftSibling t (Suc level) pkey; right = rightSibling t (Suc level) pkey;
               parent = ptr_parent t (Suc level) pkey in
           bindE (pull S n (ptr_delete t (Suc level) pkey) (Suc level) parent pkey) (\<lambda>t.
           case (left, right) of
             (Some l, Some r) \<Rightarrow>
               if \<not> (ptr_exists t (Suc level) l \<and> ptr_exists t (Suc level) r) then Inr t
               else
                 let parent = ptr_parent t (Suc level) l in
                 if parent = ptr_parent t (Suc level) r then
                   let leftnode = ptr_node t (Suc level) l; rightnode = ptr_node t (Suc level) r in
                   if length leftnode + length rightnode < tree_m t then
                     let t = ptr_delete (ptr_set t (Suc level) l (node_merge leftnode rightnode)) (Suc level) r in
                     bindE (pull S n t (Suc level) parent r) (\<lambda>t.
                     bindE (accumulate S leftnode) (\<lambda>acc.
                     updateAccumulation S t (Suc level) parent (l, acc)))
                   else Inr t
                 else Inr t
           | _ \<Rightarrow> Inr t))"

declare pull.simps [simp del]

section \<open>The operations of a tree\<close>

definition IsEmpty :: "tree \<Rightarrow> bool" where
  "IsEmpty t \<longleftrightarrow> kv_get (tree_leaves t) '''' = None"

definition tree_Set :: "sdk \<Rightarrow> tree \<Rightarrow> string \<Rightarrow> int \<Rightarrow> tree res" where
  "tree_Set S t key acc = (let t = setLeaf t key acc in push S t 0 (ptr_parent t 0 key) (key, acc))"

definition NewTree :: "sdk \<Rightarrow> tree \<Rightarrow> tree res" where
  "NewTree S t = (if IsEmpty t then tree_Set S t '''' 0 else Inr t)"

definition tree_Get :: "tree \<Rightarrow> string \<Rightarrow> int" where
  "tree_Get t key = (case kv_get (tree_leaves t) key of None \<Rightarrow> 0 | Some acc \<Rightarrow> acc)"

definition tree_Remove :: "sdk \<Rightarrow> tree \<Rightarrow> string \<Rightarrow> tree res" where
  "tree_Remove S t key =
    (if \<not> ptr_exists t 0 key then Inr t
     else let parent = ptr_parent t 0 key in
       pull S (length (tree_levels t)) (ptr_delete t 0 key) 0 parent key)"

definition Increase :: "sdk \<Rightarrow> tree \<Rightarrow> string \<Rightarrow> int \<Rightarrow> tree res" where
  "Increase S t key amt = bindE (Int_Add S (tree_Get t key) amt) (\<lambda>v. tree_Set S t key v)"

definition Decrease :: "sdk \<Rightarrow> tree \<Rightarrow> string \<Rightarrow> int \<Rightarrow> tree res" where
  "Decrease S t key amt = Increase S t key (- amt)"

definition Clear :: "tree \<Rightarrow> tree" where
  "Clear t = t\<lparr>tree_leaves := [], tree_levels := []\<rparr>"

definition tree_Iterator :: "tree \<Rightarrow> string \<Rightarrow> string option \<Rightarrow> string list" where
  "tree_Iterator t bgn end' = ptrIterator t 0 bgn end'"

definition tree_ReverseIterator :: "tree \<Rightarrow> string \<Rightarrow> string option \<Rightarrow> string list" where
  "tree_ReverseIterator t bgn end' = ptrReverseIterator t 0 bgn end'"

section \<open>Sums\<close>

text \<open>The last entry of the store: the greatest key of the highest level that has entries.\<close>

fun root_from :: "tree \<Rightarrow> nat \<Rightarrow> (nat \<times> string) option" where
  "root_from t 0 = (if level_keys t 0 = [] then None else Some (0, last (level_keys t 0)))"
| "root_from t (Suc l) = (if level_keys t (Suc l) = [] then root_from t l else Some (Suc l, last (level_keys t (Suc l))))"

definition root :: "tree \<Rightarrow> (nat \<times> string) option" where
  "root t = root_from t (length (tree_levels t))"

fun accumulationSplit :: "sdk \<Rightarrow> tree \<Rightarrow> nat \<Rightarrow> string \<Rightarrow> string \<Rightarrow> (int \<times> int \<times> int) res" where
  "accumulationSplit S t 0 pkey key = (case kv_get (tree_leaves t) pkey of
     None \<Rightarrow> Inl (Panic ''invalid memory address or nil pointer dereference'')
   | Some acc \<Rightarrow> Inr (if pkey < key then (acc, 0, 0) else if pkey = key then (0, acc, 0) else (0, 0, acc)))"
| "accumulationSplit S t (Suc level) pkey key =
    (let node = ptr_node t (Suc level) pkey; (idx, match) = node_find 0 node key in
     if \<not> match \<and> idx = 0 then Inl (Panic ''index out of range'')
     else
       let idx = (if match then idx else idx - 1) in
       bindE (go_index node idx) (\<lambda>child.
       bindE (accumulationSplit S t level (fst child) key) (\<lambda>(left, exact, right).
       bindE (accumulate S (take idx node)) (\<lambda>lacc.
       bindE (Int_Add S left lacc) (\<lambda>left.
       bindE (accumulate S (drop (idx + 1) node)) (\<lambda>racc.
       bindE (Int_Add S right racc) (\<lambda>right.
       Inr (left, exact, right))))))))"

definition SplitAcc :: "sdk \<Rightarrow> tree \<Rightarrow> string \<Rightarrow> (int \<times> int \<times> int) res" where
  "SplitAcc S t key = (case root t of
     None \<Rightarrow> Inl (Panic ''invalid memory address or nil pointer dereference'')
   | Some (level, pkey) \<Rightarrow> accumulationSplit S t level pkey key)"

definition SubsetAccumulation :: "sdk \<Rightarrow> tree \<Rightarrow> string option \<Rightarrow> string option \<Rightarrow> int res" where
  "SubsetAccumulation S t start end' = (case start of
     None \<Rightarrow> bindE (SplitAcc S t (case end' of None \<Rightarrow> '''' | Some e \<Rightarrow> e)) (\<lambda>(left, exact, _). Int_Add S left exact)
   | Some s \<Rightarrow> (case end' of
       None \<Rightarrow> bindE (SplitAcc S t s) (\<lambda>(_, exact, right). Int_Add S exact right)
     | Some e \<Rightarrow>
         bindE (SplitAcc S t s) (\<lambda>(_, leftexact, leftrest).
         bindE (SplitAcc S t e) (\<lambda>(_, _, rightest).
         bindE (Int_Add S leftexact leftrest) (\<lambda>acc. Int_Sub S acc rightest)))))"

definition TotalAccumulatedValue :: "sdk \<Rightarrow> tree \<Rightarrow> int res" where
  "TotalAccumulatedValue S t = SubsetAccumulation S t None None"

definition PrefixSum :: "sdk \<Rightarrow> tree \<Rightarrow> string \<Rightarrow> int res" where
  "PrefixSum S t key = SubsetAccumulation S t None (Some key)"

end
