(* ===== verification/Sumtree_Set.thy ===== *)
theory Sumtree_Set
  imports Sumtree
begin

text \<open>
  Well-formed trees, and that \<open>Set\<close> keeps them: every level lists the nodes of the level below with their
  sums, so the tree stands for its leaves. The only error \<open>Set\<close> can end with is a panic of the
  SDK's addition.
\<close>

section \<open>Well-formed levels\<close>

definition items :: "child list kv \<Rightarrow> child list" where
  "items L = concat (map snd L)"

definition sum_of :: "child list \<Rightarrow> int" where
  "sum_of cs = sum_list (map snd cs)"

definition node_sums :: "child list kv \<Rightarrow> child list" where
  "node_sums L = map (\<lambda>(k, cs). (k, sum_of cs)) L"

text \<open>A node is named after its first child, and its children come before the next node.\<close>

definition wf_node :: "string \<times> child list \<Rightarrow> bool" where
  "wf_node n \<longleftrightarrow> snd n \<noteq> [] \<and> fst (hd (snd n)) = fst n \<and> kv_ordered (snd n)"

definition node_before :: "string \<times> child list \<Rightarrow> string \<times> child list \<Rightarrow> bool" where
  "node_before n n' \<longleftrightarrow> (\<forall>c \<in> set (snd n). fst c < fst n')"

definition wf_level :: "child list kv \<Rightarrow> bool" where
  "wf_level L \<longleftrightarrow> L \<noteq> [] \<and> fst (hd L) = '''' \<and> (\<forall>n \<in> set L. wf_node n) \<and> sorted_wrt node_before L"

fun wf_levels :: "child list \<Rightarrow> child list kv list \<Rightarrow> bool" where
  "wf_levels base [] = False"
| "wf_levels base (L # Ls) = (wf_level L \<and> items L = base \<and> (if Ls = [] then length L = 1 else wf_levels (node_sums L) Ls))"

definition wf_tree :: "tree \<Rightarrow> bool" where
  "wf_tree t \<longleftrightarrow> wf_levels (tree_leaves t) (tree_levels t) \<and> 1 \<le> tree_m t"

lemma wf_node_first: "wf_node (k, cs) \<Longrightarrow> k \<in> fst ` set cs \<and> (\<forall>c \<in> set cs. k \<le> fst c)"
  by (cases cs) (force simp: wf_node_def kv_ordered_def)+

lemma node_before_less: "wf_node n \<Longrightarrow> node_before n n' \<Longrightarrow> fst n < fst n'"
  using wf_node_first [of "fst n" "snd n"] by (auto simp: node_before_def)

lemma wf_level_keys:
  assumes "wf_level L"
  shows "kv_ordered L"
proof -
  have "sorted_wrt node_before L" "\<forall>n \<in> set L. wf_node n" using assms by (auto simp: wf_level_def)
  then have "sorted_wrt (\<lambda>n n'. fst n < fst n') L"
    by (auto intro: sorted_wrt_mono_rel [of L node_before] node_before_less)
  then show ?thesis by (simp add: kv_ordered_def sorted_wrt_map)
qed

lemma items_append [simp]: "items (A @ B) = items A @ items B" "items [] = []" "items (n # B) = snd n @ items B"
  by (simp_all add: items_def)

lemma node_sums_append [simp]: "node_sums (A @ B) = node_sums A @ node_sums B" "node_sums [] = []" "node_sums ((k, cs) # B) = (k, sum_of cs) # node_sums B"
  by (simp_all add: node_sums_def)

lemma fst_node_sums [simp]: "map fst (node_sums L) = map fst L"
  by (simp add: node_sums_def case_prod_beta comp_def)

lemma fst_set_node_sums [simp]: "fst ` set (node_sums L) = fst ` set L"
  by (metis fst_node_sums list.set_map)

text \<open>The node of a level in whose range a key falls: the last one not above it.\<close>

definition loc :: "child list kv \<Rightarrow> string \<Rightarrow> string" where
  "loc L x = last (filter (\<lambda>k. k \<le> x) (map fst L))"

lemma level_split:
  assumes "wf_level L"
  obtains A cs B where "L = A @ (loc L x, cs) # B" "loc L x \<le> x" "\<forall>n \<in> set B. x < fst n"
proof -
  let ?A = "takeWhile (\<lambda>n. fst n \<le> x) L" and ?B = "dropWhile (\<lambda>n. fst n \<le> x) L"
  have ord: "sorted_wrt (<) (map fst L)" using wf_level_keys [OF assms] by (simp add: kv_ordered_def)
  have "fst (hd L) \<le> x" "L \<noteq> []" using assms by (auto simp: wf_level_def)
  then have "?A \<noteq> []" by (cases L) auto
  then obtain A k cs where A: "?A = A @ [(k, cs)]" by (metis rev_exhaust surj_pair)
  have L: "L = A @ (k, cs) # ?B" using takeWhile_dropWhile_id [of "\<lambda>n. fst n \<le> x" L] by (simp add: A)
  have le: "\<forall>n \<in> set ?A. fst n \<le> x" using set_takeWhileD by fastforce
  have gt: "\<forall>n \<in> set ?B. x < fst n"
  proof (cases ?B)
    case Nil
    then show ?thesis by (simp only: list.set ball_empty)
  next
    case (Cons b B)
    then have b: "x < fst b" using hd_dropWhile [of "\<lambda>n. fst n \<le> x" L] by auto
    have "sorted_wrt (<) (map fst ?B)" using ord by (metis dropWhile_eq_drop drop_map sorted_wrt_drop)
    then show ?thesis using b unfolding Cons by fastforce
  qed
  have "filter (\<lambda>k. k \<le> x) (map fst ?B) = []" using gt by (auto simp: filter_empty_conv)
  moreover have "filter (\<lambda>k. k \<le> x) (map fst ?A) = map fst ?A" using le by (auto simp: filter_id_conv)
  moreover have "map fst L = map fst ?A @ map fst ?B" by (metis map_append takeWhile_dropWhile_id)
  ultimately have "loc L x = last (map fst ?A)" by (simp add: loc_def)
  then have k: "loc L x = k" by (simp add: A)
  have "k \<le> x" using le by (simp add: A)
  then show thesis by (intro that [of A cs ?B]) (unfold k, rule L, assumption, rule gt)
qed

section \<open>Ordered lists\<close>

lemma kv_set_append_right: "\<forall>n \<in> set A. fst n < x \<Longrightarrow> kv_set (A @ B) x v = A @ kv_set B x v"
  by (induction A) auto

lemma kv_set_append_left: "\<forall>n \<in> set B. x < fst n \<Longrightarrow> kv_set (A @ B) x v = kv_set A x v @ B"
proof (induction A)
  case Nil
  then show ?case by (cases B) auto
qed auto

lemma node_find_match:
  "node_find n cs x = (idx, True) \<Longrightarrow> n \<le> idx \<and> setAcc cs (idx - n) a = kv_set cs x a \<and> x \<in> fst ` set cs"
proof (induction n cs x arbitrary: idx rule: node_find.induct)
  case (2 n c cs x)
  show ?case
  proof (cases "fst c = x")
    case True
    then show ?thesis using "2.prems" by (cases c) (simp add: setAcc_def)
  next
    case False
    then have ih: "n + 1 \<le> idx" "setAcc cs (idx - (n + 1)) a = kv_set cs x a" "x \<in> fst ` set cs" "\<not> x < fst c"
      using "2.prems" "2.IH" by (auto split: if_splits)
    moreover have "idx - n = Suc (idx - (n + 1))" using ih(1) by simp
    ultimately show ?thesis using False by (cases c) (auto simp: setAcc_def)
  qed
qed simp

lemma node_find_no_match:
  "node_find n cs x = (idx, False) \<Longrightarrow> n \<le> idx \<and> node_insert cs (idx - n) (x, a) = kv_set cs x a \<and> (kv_ordered cs \<longrightarrow> x \<notin> fst ` set cs)"
proof (induction n cs x arbitrary: idx rule: node_find.induct)
  case (2 n c cs x)
  show ?case
  proof (cases "x < fst c")
    case True
    then show ?thesis using "2.prems" by (cases c) (fastforce simp: node_insert_def kv_ordered_def split: if_splits)
  next
    case False
    then have ih: "n + 1 \<le> idx" "node_insert cs (idx - (n + 1)) (x, a) = kv_set cs x a" "kv_ordered cs \<longrightarrow> x \<notin> fst ` set cs" "fst c \<noteq> x"
      using "2.prems" "2.IH" by (auto split: if_splits)
    moreover have "idx - n = Suc (idx - (n + 1))" using ih(1) by simp
    ultimately show ?thesis using False by (cases c) (auto simp: node_insert_def kv_ordered_Cons)
  qed
qed (simp add: node_insert_def)

lemma fst_hd_kv_set: "cs \<noteq> [] \<Longrightarrow> fst (hd cs) \<le> x \<Longrightarrow> fst (hd (kv_set cs x a)) = fst (hd cs)"
  by (cases cs) auto

lemma kv_set_neq_Nil [simp]: "kv_set cs x a \<noteq> []"
  by (induction cs x a rule: kv_set.induct) auto

section \<open>Changing a node\<close>

text \<open>A node and its surroundings on a well-formed level.\<close>

lemma wf_level_app:
  "wf_level (A @ (k, cs) # B) \<longleftrightarrow> fst (hd (A @ [(k, cs)])) = '''' \<and> (\<forall>n \<in> set A \<union> set B. wf_node n) \<and> wf_node (k, cs) \<and>
    sorted_wrt node_before (A @ B) \<and> (\<forall>n \<in> set A. node_before n (k, cs)) \<and> (\<forall>n \<in> set B. node_before (k, cs) n)"
  by (cases A) (auto simp: wf_level_def sorted_wrt_append)

lemma items_around:
  assumes "wf_level (A @ (k, cs) # B)"
  shows "\<forall>c \<in> set (items A). fst c < k" "\<forall>n \<in> set A. fst n < k" "\<forall>n \<in> set B. \<forall>c \<in> set cs. fst c < fst n"
    "\<forall>c \<in> set (items B). \<exists>n \<in> set B. fst n \<le> fst c" "\<forall>n \<in> set B. k < fst n"
proof -
  show "\<forall>c \<in> set (items A). fst c < k" using assms by (auto simp: wf_level_app items_def node_before_def)
  show "\<forall>n \<in> set A. fst n < k" using assms node_before_less by (fastforce simp: wf_level_app)
  show "\<forall>n \<in> set B. \<forall>c \<in> set cs. fst c < fst n" using assms by (auto simp: wf_level_app node_before_def)
  show "\<forall>n \<in> set B. k < fst n" using assms node_before_less by (fastforce simp: wf_level_app)
  show "\<forall>c \<in> set (items B). \<exists>n \<in> set B. fst n \<le> fst c"
    using assms wf_node_first by (fastforce simp: wf_level_app items_def)
qed

lemma level_set_node:
  assumes "wf_level (A @ (k, cs) # B)" "k \<le> x" "\<forall>n \<in> set B. x < fst n"
  shows "wf_level (A @ (k, kv_set cs x a) # B)" "items (A @ (k, kv_set cs x a) # B) = kv_set (items (A @ (k, cs) # B)) x a"
    "x \<in> fst ` set (items (A @ (k, cs) # B)) \<longleftrightarrow> x \<in> fst ` set cs"
proof -
  note i = items_around [OF assms(1)]
  have wf: "wf_node (k, cs)" using assms(1) by (simp add: wf_level_app)
  then have "wf_node (k, kv_set cs x a)"
    using assms(2) fst_hd_kv_set [of cs x a] by (simp add: wf_node_def kv_ordered_set)
  moreover have "node_before (k, kv_set cs x a) n" if "n \<in> set B" for n
  proof -
    have "fst c < fst n" if "c \<in> set (kv_set cs x a)" for c
    proof -
      have "fst c \<in> insert x (fst ` set cs)" using that fst_kv_set [of cs x a] by blast
      then show ?thesis using assms(3) i(3) \<open>n \<in> set B\<close> by fastforce
    qed
    then show ?thesis by (simp add: node_before_def)
  qed
  ultimately show "wf_level (A @ (k, kv_set cs x a) # B)" using assms(1) unfolding wf_level_app by (cases A) (auto simp: node_before_def)
  have A: "\<forall>n \<in> set (items A). fst n < x" using i(1) assms(2) by auto
  have B: "\<forall>n \<in> set (items B). x < fst n" using i(4) assms(3) by fastforce
  show "items (A @ (k, kv_set cs x a) # B) = kv_set (items (A @ (k, cs) # B)) x a"
    using kv_set_append_right [OF A, of "cs @ items B" a] kv_set_append_left [OF B, of cs a] by simp
  show "x \<in> fst ` set (items (A @ (k, cs) # B)) \<longleftrightarrow> x \<in> fst ` set cs" using A B by auto
qed

lemma node_sums_set_node:
  assumes "wf_level (A @ (k, cs) # B)"
  shows "node_sums (A @ (k, cs') # B) = kv_set (node_sums (A @ (k, cs) # B)) k (sum_of cs')"
    "kv_set (A @ (k, cs) # B) k cs' = A @ (k, cs') # B"
proof -
  have A: "\<forall>n \<in> set A. fst n < k" using items_around(2) [OF assms] .
  then have S: "\<forall>n \<in> set (node_sums A). fst n < k" by (auto simp: node_sums_def)
  show "node_sums (A @ (k, cs') # B) = kv_set (node_sums (A @ (k, cs) # B)) k (sum_of cs')"
    using kv_set_append_right [OF S] by simp
  show "kv_set (A @ (k, cs) # B) k cs' = A @ (k, cs') # B" using kv_set_append_right [OF A] by simp
qed

section \<open>Pointers into the levels\<close>

lemma level_nodes_at: "tree_levels t = Pre @ L # Ls \<Longrightarrow> level_nodes t (Suc (length Pre)) = L"
  by (simp add: level_nodes_def)

lemma level_nodes_above: "tree_levels t = Pre \<Longrightarrow> level_nodes t (Suc (length Pre)) = []"
  by (auto simp: level_nodes_def)

lemma ptr_exists_at: "tree_levels t = Pre @ L # Ls \<Longrightarrow> ptr_exists t (Suc (length Pre)) k \<longleftrightarrow> k \<in> fst ` set L"
  by (simp add: ptr_exists_def level_keys_def level_nodes_at kv_entries_def)

lemma ptr_exists_above: "tree_levels t = Pre \<Longrightarrow> \<not> ptr_exists t (Suc (length Pre)) k"
  by (simp add: ptr_exists_def level_keys_def level_nodes_above kv_entries_def)

lemma ptr_node_at:
  assumes "tree_levels t = Pre @ (A @ (k, cs) # B) # Ls" "wf_level (A @ (k, cs) # B)"
  shows "ptr_node t (Suc (length Pre)) k = cs"
  using kv_get_iff [OF wf_level_keys [OF assms(2)], of k cs] by (simp add: ptr_node_def level_nodes_at [OF assms(1)])

lemma ptr_set_at: "tree_levels t = Pre @ L # Ls \<Longrightarrow> ptr_set t (Suc (length Pre)) k cs = t\<lparr>tree_levels := Pre @ kv_set L k cs # Ls\<rparr>"
  by (simp add: ptr_set_def Let_def nth_append list_update_append)

lemma ptr_set_above: "tree_levels t = Pre \<Longrightarrow> ptr_set t (Suc (length Pre)) k cs = t\<lparr>tree_levels := Pre @ [[(k, cs)]]\<rparr>"
  by (auto simp: ptr_set_def Let_def nth_append list_update_append)

lemma ptr_parent_at:
  assumes "tree_levels t = Pre @ L # Ls" "wf_level L"
  shows "ptr_parent t (length Pre) x = loc L x"
proof -
  obtain A cs B where L: "L = A @ (loc L x, cs) # B" "loc L x \<le> x" "\<forall>n \<in> set B. x < fst n" by (rule level_split [OF assms(2), of x])
  define p where "p = loc L x"
  have L': "L = A @ (p, cs) # B" "p \<le> x" using L(1,2) by (simp_all add: p_def)
  have A: "\<forall>n \<in> set A. fst n < p" using items_around(2) assms(2) L'(1) by blast
  show ?thesis
  proof (cases "x \<in> fst ` set L")
    case True
    then have "x = p" using A L' L(3) by fastforce
    then show ?thesis using True ptr_exists_at [OF assms(1)] by (simp add: ptr_parent_def p_def)
  next
    case False
    then have "p < x" using L' by (auto simp: less_le)
    moreover have "filter (\<lambda>k. '''' \<le> k \<and> k < x) (map fst A) = map fst A" using A \<open>p < x\<close> by (auto simp: filter_id_conv)
    moreover have "filter (\<lambda>k. '''' \<le> k \<and> k < x) (map fst B) = []" using L(3) by (auto simp: filter_empty_conv)
    ultimately have "filter (\<lambda>k. '''' \<le> k \<and> k < x) (map fst L) = map fst A @ [p]"
      unfolding L'(1) by simp
    then have "leftSibling t (Suc (length Pre)) x = Some p"
      by (simp add: leftSibling_def ptrReverseIterator_def ptrIterator_def level_keys_def level_nodes_at [OF assms(1)] kv_entries_def iter_ptr_def)
    then show ?thesis using False ptr_exists_at [OF assms(1)] by (simp add: ptr_parent_def p_def)
  qed
qed

lemma ptr_parent_above: "tree_levels t = Pre \<Longrightarrow> ptr_parent t (length Pre) x = ''''"
  by (simp add: ptr_parent_def ptr_exists_above leftSibling_def ptrReverseIterator_def ptrIterator_def level_keys_def
      level_nodes_above kv_entries_def iter_ptr_def)

section \<open>Results up to a panic of the SDK\<close>

definition sdk_panic :: "sdk \<Rightarrow> go_err \<Rightarrow> bool" where
  "sdk_panic S e \<longleftrightarrow> (\<exists>a b. Int_Add S a b = Inl e \<or> Int_Sub S a b = Inl e)"

definition returns :: "sdk \<Rightarrow> 'a res \<Rightarrow> ('a \<Rightarrow> bool) \<Rightarrow> bool" where
  "returns S r P \<longleftrightarrow> (case r of Inr x \<Rightarrow> P x | Inl e \<Rightarrow> sdk_panic S e)"

lemma returns_Inr [simp]: "returns S (Inr x) P \<longleftrightarrow> P x"
  by (simp add: returns_def)

lemma returns_bind: "returns S m Q \<Longrightarrow> (\<And>x. Q x \<Longrightarrow> returns S (f x) P) \<Longrightarrow> returns S (bindE m f) P"
  by (cases m) (auto simp: returns_def)

lemma returns_mono: "returns S m Q \<Longrightarrow> (\<And>x. Q x \<Longrightarrow> P x) \<Longrightarrow> returns S m P"
  by (cases m) (auto simp: returns_def)

lemma returns_add: "sdk_int_laws S \<Longrightarrow> returns S (Int_Add S a b) (\<lambda>r. r = a + b)"
  by (cases "Int_Add S a b") (auto simp: returns_def sdk_panic_def sdk_int_laws_def)

lemma returns_accumulate:
  assumes "sdk_int_laws S"
  shows "returns S (accumulate S cs) (\<lambda>r. r = sum_of cs)"
proof -
  have "returns S (foldE (\<lambda>res child. Int_Add S res (snd child)) acc cs) (\<lambda>r. r = acc + sum_of cs)" for acc
  proof (induction cs arbitrary: acc)
    case (Cons c cs)
    show ?case unfolding foldE.simps
      by (rule returns_bind [OF returns_add [OF assms]]) (use Cons [of "acc + snd c"] in \<open>simp add: sum_of_def add.assoc\<close>)
  qed (simp add: sum_of_def)
  from this [of 0] show ?thesis by (simp add: accumulate_def)
qed

lemma returns_acc_bind: "sdk_int_laws S \<Longrightarrow> returns S (f (sum_of cs)) P \<Longrightarrow> returns S (bindE (accumulate S cs) f) P"
  by (rule returns_bind [OF returns_accumulate]) simp_all

section \<open>updateAccumulation\<close>

lemma updateAccumulation_wf:
  assumes "sdk_int_laws S"
  shows "tree_levels t = Pre @ Ls \<Longrightarrow> wf_levels base Ls \<Longrightarrow> x \<in> fst ` set base \<Longrightarrow>
    returns S (updateAccumulation S t (length Pre) (loc (hd Ls) x) (x, a))
      (\<lambda>t'. \<exists>Ls'. t' = t\<lparr>tree_levels := Pre @ Ls'\<rparr> \<and> wf_levels (kv_set base x a) Ls' \<and> Ls' \<noteq> [])"
proof (induction Ls arbitrary: t Pre base x a)
  case (Cons L Ls)
  have wf: "wf_level L" and base: "items L = base" using Cons.prems(2) by simp_all
  obtain A cs B where L: "L = A @ (loc L x, cs) # B" "loc L x \<le> x" "\<forall>n \<in> set B. x < fst n" by (rule level_split [OF wf, of x])
  define p where "p = loc L x"
  have L': "L = A @ (p, cs) # B" "p \<le> x" using L(1,2) by (simp_all add: p_def)
  have wf': "wf_level (A @ (p, cs) # B)" using wf L'(1) by simp
  note n = level_set_node [OF wf' L'(2) L(3)]
  have node: "ptr_node t (Suc (length Pre)) p = cs" by (rule ptr_node_at [OF _ wf']) (use Cons.prems(1) L'(1) in simp)
  have ex: "ptr_exists t (Suc (length Pre)) p" using Cons.prems(1) ptr_exists_at [of t Pre L Ls p] L'(1) by simp
  have "x \<in> fst ` set cs" using n(3) Cons.prems(3) unfolding base [symmetric] L'(1) by blast
  moreover have "kv_ordered cs" using wf' by (simp add: wf_level_app wf_node_def)
  ultimately obtain idx where f: "node_find 0 cs x = (idx, True)"
    by (metis (full_types) node_find_no_match surj_pair)
  then have s: "setAcc cs idx a = kv_set cs x a" using node_find_match [of 0 cs x idx a] by simp
  let ?cs = "kv_set cs x a" and ?L = "A @ (p, kv_set cs x a) # B"
  let ?t = "t\<lparr>tree_levels := (Pre @ [?L]) @ Ls\<rparr>"
  have t: "ptr_set t (Suc (length Pre)) p ?cs = ?t"
    using ptr_set_at [of t Pre L Ls p ?cs] Cons.prems(1) node_sums_set_node(2) [OF wf'] L'(1) by simp
  have step: "updateAccumulation S t (length Pre) p (x, a) =
    bindE (accumulate S ?cs) (\<lambda>acc. updateAccumulation S ?t (Suc (length Pre)) (ptr_parent ?t (Suc (length Pre)) p) (p, acc))"
    by (subst updateAccumulation.simps) (simp add: ex node f s t Let_def del: append_assoc)
  have items: "items ?L = kv_set base x a" using n(2) base L'(1) by simp
  have "returns S (updateAccumulation S ?t (Suc (length Pre)) (ptr_parent ?t (Suc (length Pre)) p) (p, acc))
      (\<lambda>t'. \<exists>Ls'. t' = t\<lparr>tree_levels := Pre @ Ls'\<rparr> \<and> wf_levels (kv_set base x a) Ls' \<and> Ls' \<noteq> [])" if acc: "acc = sum_of ?cs" for acc
  proof (cases Ls)
    case Nil
    then have above: "tree_levels ?t = Pre @ [?L]" by simp
    have "updateAccumulation S ?t (Suc (length Pre)) (ptr_parent ?t (Suc (length Pre)) p) (p, acc) = Inr ?t"
      by (subst updateAccumulation.simps) (use ptr_exists_above [OF above] in simp)
    moreover have "length ?L = 1" using Cons.prems(2) Nil L'(1) by simp
    ultimately show ?thesis using n(1) [of a] items Nil by (auto intro!: exI [of _ "[?L]"])
  next
    case (Cons M Ms)
    have wfs: "wf_levels (node_sums L) Ls" "wf_level M" using Cons.prems(2) Cons by simp_all
    have par: "ptr_parent ?t (Suc (length Pre)) p = loc (hd Ls) p"
      using ptr_parent_at [of ?t "Pre @ [?L]" M Ms p] wfs(2) Cons by simp
    have mem: "p \<in> fst ` set (node_sums L)" using L'(1) by simp
    have sums: "node_sums ?L = kv_set (node_sums L) p acc" using node_sums_set_node(1) [OF wf', of ?cs] L'(1) acc by simp
    have up: "returns S (updateAccumulation S ?t (Suc (length Pre)) (loc (hd Ls) p) (p, acc))
      (\<lambda>t'. \<exists>Ls'. t' = ?t\<lparr>tree_levels := (Pre @ [?L]) @ Ls'\<rparr> \<and> wf_levels (kv_set (node_sums L) p acc) Ls' \<and> Ls' \<noteq> [])"
      using Cons.IH [of ?t "Pre @ [?L]" "node_sums L" p acc] wfs(1) mem by simp
    show ?thesis unfolding par
    proof (rule returns_mono [OF up])
      fix t' assume "\<exists>Ls'. t' = ?t\<lparr>tree_levels := (Pre @ [?L]) @ Ls'\<rparr> \<and> wf_levels (kv_set (node_sums L) p acc) Ls' \<and> Ls' \<noteq> []"
      then obtain Ls' where "t' = ?t\<lparr>tree_levels := (Pre @ [?L]) @ Ls'\<rparr>" "wf_levels (node_sums ?L) Ls'" "Ls' \<noteq> []" unfolding sums by blast
      then show "\<exists>Ls'. t' = t\<lparr>tree_levels := Pre @ Ls'\<rparr> \<and> wf_levels (kv_set base x a) Ls' \<and> Ls' \<noteq> []"
        using n(1) [of a] items by (intro exI [of _ "?L # Ls'"]) simp
    qed
  qed
  then show ?case
    unfolding list.sel p_def [symmetric] step by (rule returns_bind [OF returns_accumulate [OF assms]])
qed simp

text \<open>The tree with the levels above a prefix replaced by well-formed ones over new entries.\<close>

definition over :: "tree \<Rightarrow> child list kv list \<Rightarrow> child list \<Rightarrow> tree \<Rightarrow> bool" where
  "over t Pre base t' \<longleftrightarrow> (\<exists>Ls'. t' = t\<lparr>tree_levels := Pre @ Ls'\<rparr> \<and> wf_levels base Ls')"

lemma update_over:
  assumes "sdk_int_laws S" "tree_levels t = Pre @ Ls" "wf_levels base Ls" "x \<in> fst ` set base"
  shows "returns S (updateAccumulation S t (length Pre) (loc (hd Ls) x) (x, a)) (over t Pre (kv_set base x a))"
  unfolding over_def by (rule returns_mono [OF updateAccumulation_wf [OF assms]]) blast

text \<open>A node passes its new sum on to its parent, if there is one.\<close>

lemma update_parent:
  assumes "sdk_int_laws S" "tree_levels t = Pre @ L # Ls" "Ls \<noteq> [] \<longrightarrow> wf_levels base Ls" "p \<in> fst ` set base"
  shows "returns S (updateAccumulation S t (Suc (length Pre)) (ptr_parent t (Suc (length Pre)) p) (p, acc))
    (\<lambda>t'. \<exists>Ls'. t' = t\<lparr>tree_levels := Pre @ L # Ls'\<rparr> \<and> (Ls' = [] \<longleftrightarrow> Ls = []) \<and> (Ls' \<noteq> [] \<longrightarrow> wf_levels (kv_set base p acc) Ls'))"
proof (cases Ls)
  case Nil
  then have above: "tree_levels t = Pre @ [L]" using assms(2) by simp
  have "updateAccumulation S t (Suc (length Pre)) (ptr_parent t (Suc (length Pre)) p) (p, acc) = Inr t"
    by (subst updateAccumulation.simps) (use ptr_exists_above [OF above] in simp)
  then show ?thesis using Nil above by simp
next
  case (Cons M Ms)
  have wf: "wf_levels base Ls" "wf_level M" using assms(3) Cons by simp_all
  have "ptr_parent t (Suc (length Pre)) p = loc (hd Ls) p"
    using ptr_parent_at [of t "Pre @ [L]" M Ms p] wf(2) assms(2) Cons by simp
  moreover have "returns S (updateAccumulation S t (length (Pre @ [L])) (loc (hd Ls) p) (p, acc)) (over t (Pre @ [L]) (kv_set base p acc))"
    by (rule update_over [OF assms(1) _ wf(1)]) (use assms(2,4) in simp_all)
  ultimately have "returns S (updateAccumulation S t (Suc (length Pre)) (ptr_parent t (Suc (length Pre)) p) (p, acc))
    (over t (Pre @ [L]) (kv_set base p acc))" by simp
  then show ?thesis
  proof (rule returns_mono)
    fix t' assume "over t (Pre @ [L]) (kv_set base p acc) t'"
    then obtain Ls' where "t' = t\<lparr>tree_levels := Pre @ L # Ls'\<rparr>" "wf_levels (kv_set base p acc) Ls'" by (auto simp: over_def)
    then show "\<exists>Ls'. t' = t\<lparr>tree_levels := Pre @ L # Ls'\<rparr> \<and> (Ls' = [] \<longleftrightarrow> Ls = []) \<and> (Ls' \<noteq> [] \<longrightarrow> wf_levels (kv_set base p acc) Ls')"
      using Cons by (intro exI [of _ Ls']) auto
  qed
qed

section \<open>push\<close>

lemma push_fits:
  assumes "sdk_int_laws S" "tree_levels t = Pre @ (A @ (p, cs) # B) # Ls" "wf_levels base ((A @ (p, cs) # B) # Ls)"
    "p \<le> x" "\<forall>n \<in> set B. x < fst n"
  shows "returns S (bindE (accumulate S (kv_set cs x a)) (\<lambda>acc.
      bindE (updateAccumulation S t (Suc (length Pre)) (ptr_parent t (Suc (length Pre)) p) (p, acc)) (\<lambda>t.
      Inr (ptr_set t (Suc (length Pre)) p (kv_set cs x a))))) (over t Pre (kv_set base x a))"
proof (rule returns_bind [OF returns_accumulate [OF assms(1)]], rule returns_bind [OF update_parent [OF assms(1,2), of "node_sums (A @ (p, cs) # B)"]])
  let ?L = "A @ (p, cs) # B" and ?cs = "kv_set cs x a"
  have wf: "wf_level ?L" and base: "items ?L = base" and up: "if Ls = [] then length ?L = 1 else wf_levels (node_sums ?L) Ls"
    using assms(3) unfolding wf_levels.simps by blast+
  show "Ls \<noteq> [] \<longrightarrow> wf_levels (node_sums ?L) Ls" using up by meson
  show "p \<in> fst ` set (node_sums ?L)" by simp
  fix acc t' assume acc: "acc = sum_of ?cs"
    and "\<exists>Ls'. t' = t\<lparr>tree_levels := Pre @ ?L # Ls'\<rparr> \<and> (Ls' = [] \<longleftrightarrow> Ls = []) \<and> (Ls' \<noteq> [] \<longrightarrow> wf_levels (kv_set (node_sums ?L) p acc) Ls')"
  then obtain Ls' where t': "t' = t\<lparr>tree_levels := Pre @ ?L # Ls'\<rparr>" "Ls' = [] \<longleftrightarrow> Ls = []" "Ls' \<noteq> [] \<longrightarrow> wf_levels (kv_set (node_sums ?L) p acc) Ls'"
    by blast
  note n = level_set_node(1,2) [OF wf assms(4,5), of a] and s = node_sums_set_node [OF wf, of ?cs]
  have "ptr_set t' (Suc (length Pre)) p ?cs = t\<lparr>tree_levels := Pre @ (A @ (p, ?cs) # B) # Ls'\<rparr>"
    using ptr_set_at [of t' Pre ?L Ls' p ?cs] s(2) t'(1) by simp
  moreover have "wf_levels (kv_set base x a) ((A @ (p, ?cs) # B) # Ls')"
    unfolding wf_levels.simps using n(1,2) base up t'(2,3) s(1) acc by auto
  ultimately show "returns S (Inr (ptr_set t' (Suc (length Pre)) p ?cs)) (over t Pre (kv_set base x a))" by (auto simp: over_def)
qed

text \<open>Cutting an overfull node in two.\<close>

lemma split_node:
  assumes "wf_level (A @ (k, cs) # B)" "k \<le> x" "\<forall>n \<in> set B. x < fst n" "0 < i" "i < length (kv_set cs x a)"
  defines "l \<equiv> take i (kv_set cs x a)" and "r \<equiv> drop i (kv_set cs x a)" and "rk \<equiv> fst (kv_set cs x a ! i)"
  shows "wf_level (A @ (k, l) # (rk, r) # B)" "items (A @ (k, l) # (rk, r) # B) = kv_set (items (A @ (k, cs) # B)) x a"
    "k < rk" "\<forall>n \<in> set B. rk < fst n" "kv_set (A @ (k, cs) # B) rk r = A @ (k, cs) # (rk, r) # B"
    "node_sums (A @ (k, l) # (rk, r) # B) = kv_set (kv_set (node_sums (A @ (k, cs) # B)) rk (sum_of r)) k (sum_of l)"
proof -
  let ?cs = "kv_set cs x a"
  note n = level_set_node(1,2) [OF assms(1-3), of a]
  have wf: "wf_node (k, ?cs)" "\<forall>n \<in> set B. node_before (k, ?cs) n" using n(1) by (simp_all add: wf_level_app)
  have lr: "?cs = l @ r" by (simp add: l_def r_def)
  have ne: "l \<noteq> []" "r \<noteq> []" using assms(4,5) by (auto simp: l_def r_def)
  have rk: "fst (hd r) = rk" using assms(5) by (simp add: r_def rk_def hd_drop_conv_nth)
  have ord: "sorted_wrt (<) (map fst l @ map fst r)" using wf(1) lr by (simp add: wf_node_def kv_ordered_def)
  have "hd r \<in> set r" using ne by simp
  then have lt: "\<forall>c \<in> set l. fst c < rk" using ord rk by (auto simp: sorted_wrt_append)
  have hd: "fst (hd l) = k" using wf(1) lr ne(1) by (simp add: wf_node_def)
  then show k: "k < rk" using lt ne(1) by force
  show B: "\<forall>n \<in> set B. rk < fst n" using wf(2) \<open>hd r \<in> set r\<close> rk lr by (auto simp: node_before_def)
  have "wf_node (k, l)" "wf_node (rk, r)" using ne rk hd ord by (simp_all add: wf_node_def kv_ordered_def sorted_wrt_append)
  then show "wf_level (A @ (k, l) # (rk, r) # B)"
    using n(1) lt lr B k node_before_less [of _ "(k, ?cs)"] unfolding wf_level_app
    by (cases A) (fastforce simp: node_before_def sorted_wrt_append)+
  show "items (A @ (k, l) # (rk, r) # B) = kv_set (items (A @ (k, cs) # B)) x a" using n(2) lr by simp
  have A: "\<forall>n \<in> set (A @ [(k, cs)]). fst n < rk" using items_around(2) [OF assms(1)] k by auto
  show "kv_set (A @ (k, cs) # B) rk r = A @ (k, cs) # (rk, r) # B"
    using kv_set_append_right [OF A, of B r] kv_set_append_left [OF B, of "[]" r] by simp
  have SA: "\<forall>n \<in> set (node_sums A @ [(k, sum_of cs)]). fst n < rk" using A by (auto simp: node_sums_def)
  have SB: "\<forall>n \<in> set (node_sums B). rk < fst n" using B by (auto simp: node_sums_def)
  have SK: "\<forall>n \<in> set (node_sums A). fst n < k" using items_around(2) [OF assms(1)] by (auto simp: node_sums_def)
  show "node_sums (A @ (k, l) # (rk, r) # B) = kv_set (kv_set (node_sums (A @ (k, cs) # B)) rk (sum_of r)) k (sum_of l)"
    using kv_set_append_right [OF SA, of "node_sums B" "sum_of r"] kv_set_append_left [OF SB, of "[]" "sum_of r"] kv_set_append_right [OF SK] by simp
qed

lemma loc_next:
  assumes "wf_level M" "items M = node_sums (A @ (k, cs) # B)" "wf_level (A @ (k, cs) # B)" "k < rk" "\<forall>n \<in> set B. rk < fst n"
  shows "loc M rk = loc M k"
proof -
  obtain A' ds B' where M: "M = A' @ (loc M k, ds) # B'" "loc M k \<le> k" "\<forall>n \<in> set B'. k < fst n" by (rule level_split [OF assms(1), of k])
  define p where "p = loc M k"
  have M': "M = A' @ (p, ds) # B'" "p \<le> k" using M by (simp_all add: p_def)
  have later: "rk < fst n" if "n \<in> set B'" for n
  proof -
    have "wf_node n" using that assms(1) M'(1) by (auto simp: wf_level_app)
    then have "fst n \<in> fst ` set (items M)" using that M'(1) wf_node_first [of "fst n" "snd n"] by (auto simp: items_def)
    then have "fst n \<in> fst ` set (A @ (k, cs) # B)" by (simp only: assms(2) fst_set_node_sums)
    then have "fst n \<in> fst ` set B" using M(3) that items_around(2) [OF assms(3)] by fastforce
    then show ?thesis using assms(5) by auto
  qed
  have "\<forall>n \<in> set A'. fst n < p" using items_around(2) assms(1) M'(1) by blast
  then have "filter (\<lambda>j. j \<le> rk) (map fst A') = map fst A'" using M'(2) assms(4) by (auto simp: filter_id_conv)
  moreover have "filter (\<lambda>j. j \<le> rk) (map fst B') = []" using later by (fastforce simp: filter_empty_conv)
  moreover have "p \<le> rk" using M'(2) assms(4) by simp
  ultimately have "loc M rk = p" unfolding loc_def by (simp add: M'(1))
  then show ?thesis by (simp add: p_def)
qed

text \<open>The end of an overflow: the left half is stored and its sum passed on, after the right half went up.\<close>

lemma push_splits:
  assumes "sdk_int_laws S" "wf_level (A @ (p, cs) # B)" "items (A @ (p, cs) # B) = base" "p \<le> x" "\<forall>n \<in> set B. x < fst n"
    "0 < i" "i < length (kv_set cs x a)" "rk = fst (kv_set cs x a ! i)"
    "tree_levels t2 = Pre @ (A @ (p, cs) # (rk, drop i (kv_set cs x a)) # B) # Ls"
    "wf_levels (kv_set (node_sums (A @ (p, cs) # B)) rk (sum_of (drop i (kv_set cs x a)))) Ls"
  shows "returns S (bindE (updateAccumulation S t2 (Suc (length Pre)) (ptr_parent t2 (Suc (length Pre)) p) (p, sum_of (take i (kv_set cs x a)))) (\<lambda>t.
      Inr (ptr_set t (Suc (length Pre)) p (take i (kv_set cs x a))))) (over t2 Pre (kv_set base x a))"
proof -
  let ?l = "take i (kv_set cs x a)" and ?r = "drop i (kv_set cs x a)"
  let ?L = "A @ (p, cs) # B" and ?L1 = "A @ (p, cs) # (rk, ?r) # B" and ?L2 = "A @ (p, ?l) # (rk, ?r) # B"
  note sp = split_node [OF assms(2,4,5,6,7), folded assms(8)]
  have A: "\<forall>n \<in> set A. fst n < p" using items_around(2) [OF assms(2)] .
  obtain M Ms where Ls: "Ls = M # Ms" "wf_level M" using assms(10) by (cases Ls) auto
  have par: "ptr_parent t2 (Suc (length Pre)) p = loc (hd Ls) p"
    using ptr_parent_at [of t2 "Pre @ [?L1]" M Ms p] assms(9) Ls by simp
  have mem: "p \<in> fst ` set (kv_set (node_sums ?L) rk (sum_of ?r))" by (simp add: fst_kv_set)
  have "returns S (updateAccumulation S t2 (length (Pre @ [?L1])) (loc (hd Ls) p) (p, sum_of ?l))
    (over t2 (Pre @ [?L1]) (kv_set (kv_set (node_sums ?L) rk (sum_of ?r)) p (sum_of ?l)))"
    by (rule update_over [OF assms(1) _ assms(10) mem]) (use assms(9) in simp)
  then have up: "returns S (updateAccumulation S t2 (Suc (length Pre)) (ptr_parent t2 (Suc (length Pre)) p) (p, sum_of ?l))
    (over t2 (Pre @ [?L1]) (node_sums ?L2))" unfolding par sp(6) by simp
  show ?thesis
  proof (rule returns_bind [OF up])
    fix t assume "over t2 (Pre @ [?L1]) (node_sums ?L2) t"
    then obtain Ls' where t: "t = t2\<lparr>tree_levels := Pre @ ?L1 # Ls'\<rparr>" "wf_levels (node_sums ?L2) Ls'" by (auto simp: over_def)
    have "kv_set ?L1 p ?l = ?L2" using kv_set_append_right [OF A] by simp
    then have "ptr_set t (Suc (length Pre)) p ?l = t2\<lparr>tree_levels := Pre @ ?L2 # Ls'\<rparr>"
      using ptr_set_at [of t Pre ?L1 Ls' p ?l] t(1) by simp
    moreover have "wf_levels (kv_set base x a) (?L2 # Ls')"
      unfolding wf_levels.simps using sp(1,2) t(2) assms(3) by (cases Ls') auto
    ultimately show "returns S (Inr (ptr_set t (Suc (length Pre)) p ?l)) (over t2 Pre (kv_set base x a))" by (auto simp: over_def)
  qed
qed

lemma push_new_root:
  assumes "wf_level [(p, cs)]" "cs = base" "0 < i" "i < length (kv_set cs x a)" "rk = fst (kv_set cs x a ! i)"
    "tree_levels t1 = Pre @ [[(p, cs), (rk, drop i (kv_set cs x a))]]"
  shows "over t1 Pre (kv_set base x a) (ptr_set (ptr_create t1 (Suc (Suc (length Pre))) ''''
      [(p, sum_of (take i (kv_set cs x a))), (rk, sum_of (drop i (kv_set cs x a)))]) (Suc (length Pre)) p (take i (kv_set cs x a)))"
proof -
  let ?l = "take i (kv_set cs x a)" and ?r = "drop i (kv_set cs x a)"
  have p: "p = ''''" using assms(1) by (simp add: wf_level_def)
  note sp = split_node [of "[]" p cs "[]" x i a, unfolded append_Nil, OF assms(1) _ _ assms(3,4), folded assms(5)]
  have "wf_level [(p, ?l), (rk, ?r)]" "items [(p, ?l), (rk, ?r)] = kv_set base x a" "p < rk" using sp p assms(2) by auto
  moreover from this have "wf_level [('''', [(p, sum_of ?l), (rk, sum_of ?r)])]"
    using p by (simp add: wf_level_def wf_node_def kv_ordered_def)
  ultimately have "wf_levels (kv_set base x a) [[(p, ?l), (rk, ?r)], [('''', [(p, sum_of ?l), (rk, sum_of ?r)])]]" by simp
  moreover have "ptr_create t1 (Suc (Suc (length Pre))) '''' [(p, sum_of ?l), (rk, sum_of ?r)] =
    t1\<lparr>tree_levels := Pre @ [(p, cs), (rk, ?r)] # [[('''', [(p, sum_of ?l), (rk, sum_of ?r)])]]\<rparr>" (is "_ = ?t2")
    using ptr_set_above [OF assms(6)] assms(6) by (simp add: ptr_create_def)
  moreover have "ptr_set ?t2 (Suc (length Pre)) p ?l =
    t1\<lparr>tree_levels := Pre @ [(p, ?l), (rk, ?r)] # [[('''', [(p, sum_of ?l), (rk, sum_of ?r)])]]\<rparr>"
    using ptr_set_at [of ?t2 Pre "[(p, cs), (rk, ?r)]" _ p ?l] by simp
  ultimately show ?thesis unfolding over_def by auto
qed

lemma over_levels [simp]: "over (t\<lparr>tree_levels := X\<rparr>) Pre base = over t Pre base"
  by (simp add: over_def fun_eq_iff)

lemma loc_in: "wf_level M \<Longrightarrow> loc M x \<in> fst ` set M"
  using level_split [of M x] by (metis fst_conv image_eqI in_set_conv_decomp)

text \<open>What an overflow does above the node, given that \<open>push\<close> is right there.\<close>

lemma push_full:
  assumes S: "sdk_int_laws S" and lv: "tree_levels t = Pre @ (A @ (p, cs) # B) # Ls"
    and wfs: "wf_levels base ((A @ (p, cs) # B) # Ls)" and px: "p \<le> x" and B: "\<forall>n \<in> set B. x < fst n"
    and i: "0 < i" "i < length (kv_set cs x a)" and m: "1 \<le> tree_m t" and rk: "rk = fst (kv_set cs x a ! i)"
    and push: "\<And>t Pre base x a. tree_levels t = Pre @ Ls \<Longrightarrow> wf_levels base Ls \<Longrightarrow> 1 \<le> tree_m t \<Longrightarrow>
      returns S (push S t (length Pre) (loc (hd Ls) x) (x, a)) (over t Pre (kv_set base x a))"
  defines "l \<equiv> take i (kv_set cs x a)" and "r \<equiv> drop i (kv_set cs x a)" and "par \<equiv> ptr_parent t (Suc (length Pre)) p"
  defines "t1 \<equiv> t\<lparr>tree_levels := Pre @ (A @ (p, cs) # (rk, r) # B) # Ls\<rparr>"
  shows "returns S (if \<not> ptr_exists t1 (Suc (Suc (length Pre))) par then
      bindE (accumulate S l) (\<lambda>lacc. bindE (accumulate S r) (\<lambda>racc.
      Inr (ptr_set (ptr_create t1 (Suc (Suc (length Pre))) par [(p, lacc), (rk, racc)]) (Suc (length Pre)) p l)))
    else bindE (accumulate S r) (\<lambda>racc. bindE (push S t1 (Suc (length Pre)) par (rk, racc)) (\<lambda>t.
      bindE (accumulate S l) (\<lambda>lacc.
      bindE (updateAccumulation S t (Suc (length Pre)) (ptr_parent t (Suc (length Pre)) p) (p, lacc)) (\<lambda>t.
      Inr (ptr_set t (Suc (length Pre)) p l)))))) (over t Pre (kv_set base x a))"
proof (cases Ls)
  case Nil
  then have one: "A = []" "B = []" "wf_level [(p, cs)]" "cs = base" using wfs by auto
  have "par = ''''" unfolding par_def using ptr_parent_above [of t "Pre @ [A @ (p, cs) # B]"] lv Nil by simp
  moreover have t1: "tree_levels t1 = Pre @ [[(p, cs), (rk, drop i (kv_set cs x a))]]" using one Nil by (simp add: t1_def r_def)
  ultimately have "\<not> ptr_exists t1 (Suc (Suc (length Pre))) par" "over t Pre (kv_set base x a)
      (ptr_set (ptr_create t1 (Suc (Suc (length Pre))) par [(p, sum_of l), (rk, sum_of r)]) (Suc (length Pre)) p l)"
    using ptr_exists_above [OF t1] push_new_root [OF one(3,4) i rk t1] by (simp_all add: l_def r_def t1_def)
  then show ?thesis by (auto intro!: returns_acc_bind [OF S])
next
  case (Cons M Ms)
  let ?L = "A @ (p, cs) # B" and ?L1 = "A @ (p, cs) # (rk, r) # B"
  have wf: "wf_level ?L" "items ?L = base" "wf_level M" "items M = node_sums ?L" "wf_levels (node_sums ?L) Ls"
    using wfs Cons unfolding wf_levels.simps by auto
  note sp = split_node [OF wf(1) px B i, folded rk]
  have par: "par = loc M rk"
    unfolding par_def using ptr_parent_at [of t "Pre @ [?L]" M Ms p] wf(3) lv Cons loc_next [OF wf(3,4,1) sp(3,4)] by simp
  have ex: "ptr_exists t1 (Suc (Suc (length Pre))) par"
    using ptr_exists_at [of t1 "Pre @ [?L1]" M Ms par] loc_in [OF wf(3)] Cons unfolding par by (simp add: t1_def)
  have up: "returns S (push S t1 (Suc (length Pre)) par (rk, sum_of r)) (over t1 (Pre @ [?L1]) (kv_set (node_sums ?L) rk (sum_of r)))"
    using push [of t1 "Pre @ [?L1]" "node_sums ?L" rk "sum_of r"] wf(5) m Cons par by (simp add: t1_def)
  have "returns S (bindE (updateAccumulation S t2 (Suc (length Pre)) (ptr_parent t2 (Suc (length Pre)) p) (p, sum_of l)) (\<lambda>t.
      Inr (ptr_set t (Suc (length Pre)) p l))) (over t Pre (kv_set base x a))"
    if ov: "over t1 (Pre @ [?L1]) (kv_set (node_sums ?L) rk (sum_of r)) t2" for t2
  proof -
    obtain Ls' where t2: "t2 = t1\<lparr>tree_levels := (Pre @ [?L1]) @ Ls'\<rparr>" "wf_levels (kv_set (node_sums ?L) rk (sum_of r)) Ls'"
      using ov unfolding over_def by blast
    have "over t2 Pre (kv_set base x a) = over t Pre (kv_set base x a)" using t2(1) by (simp add: t1_def)
    then show ?thesis
      using push_splits [OF S wf(1,2) px B i rk, of t2 Pre Ls', folded l_def r_def] t2 by simp
  qed
  then have "returns S (bindE (accumulate S r) (\<lambda>racc. bindE (push S t1 (Suc (length Pre)) par (rk, racc)) (\<lambda>t2.
      bindE (accumulate S l) (\<lambda>lacc.
      bindE (updateAccumulation S t2 (Suc (length Pre)) (ptr_parent t2 (Suc (length Pre)) p) (p, lacc)) (\<lambda>t.
      Inr (ptr_set t (Suc (length Pre)) p l)))))) (over t Pre (kv_set base x a))"
    by (intro returns_acc_bind [OF S] returns_bind [OF up])
  then show ?thesis using ex by simp
qed

lemma push_wf:
  assumes "sdk_int_laws S"
  shows "tree_levels t = Pre @ Ls \<Longrightarrow> wf_levels base Ls \<Longrightarrow> 1 \<le> tree_m t \<Longrightarrow>
    returns S (push S t (length Pre) (loc (hd Ls) x) (x, a)) (over t Pre (kv_set base x a))"
proof (induction Ls arbitrary: t Pre base x a)
  case (Cons L Ls)
  have wf: "wf_level L" and base: "items L = base" using Cons.prems(2) by simp_all
  obtain A cs B where L: "L = A @ (loc L x, cs) # B" "loc L x \<le> x" "\<forall>n \<in> set B. x < fst n" by (rule level_split [OF wf, of x])
  define p where "p = loc L x"
  have L': "L = A @ (p, cs) # B" "p \<le> x" using L(1,2) by (simp_all add: p_def)
  have lv: "tree_levels t = Pre @ (A @ (p, cs) # B) # Ls" using Cons.prems(1) L'(1) by simp
  have wf': "wf_level (A @ (p, cs) # B)" "wf_levels base ((A @ (p, cs) # B) # Ls)" using wf Cons.prems(2) unfolding L'(1) .
  have ex: "ptr_node t (Suc (length Pre)) p = cs" "ptr_exists t (Suc (length Pre)) p"
    using ptr_node_at [OF lv wf'(1)] ptr_exists_at [OF lv] by simp_all
  obtain idx match where f: "node_find 0 cs x = (idx, match)" by fastforce
  let ?cs = "kv_set cs x a" and ?i = "tree_m t div 2 + 1" and ?par = "ptr_parent t (Suc (length Pre)) p"
  consider "match" | "\<not> match" "length ?cs \<le> tree_m t" | "\<not> match" "tree_m t < length ?cs" by linarith
  then have "returns S (push S t (length Pre) p (x, a)) (over t Pre (kv_set base x a))"
  proof cases
    case 1
    then have "x \<in> fst ` set base" using node_find_match [of 0 cs x idx a] f base L'(1) by auto
    from update_over [OF assms Cons.prems(1,2) this, of a] show ?thesis
      using ex f 1 by (subst push.simps) (simp add: p_def)
  next
    case 2
    then have ins: "node_insert cs idx (x, a) = ?cs" using node_find_no_match [of 0 cs x idx a] f by simp
    have "push S t (length Pre) p (x, a) = bindE (accumulate S ?cs) (\<lambda>acc. bindE (updateAccumulation S t (Suc (length Pre)) ?par (p, acc)) (\<lambda>t.
      Inr (ptr_set t (Suc (length Pre)) p ?cs)))"
      using ex f 2 ins by (subst push.simps) (simp add: Let_def)
    then show ?thesis using push_fits [OF assms lv wf'(2) L'(2) L(3), of a] by (simp only:)
  next
    case 3
    then have ins: "node_insert cs idx (x, a) = ?cs" using node_find_no_match [of 0 cs x idx a] f by simp
    have i: "0 < ?i" "?i < length ?cs" using Cons.prems(3) 3(2) by auto
    let ?rk = "fst (?cs ! ?i)" and ?l = "take ?i ?cs" and ?r = "drop ?i ?cs"
    let ?t1 = "t\<lparr>tree_levels := Pre @ (A @ (p, cs) # (?rk, ?r) # B) # Ls\<rparr>"
    have idx: "go_index ?cs ?i = Inr (?cs ! ?i)" using i(2) by (simp add: go_index_def)
    have t1: "ptr_create t (Suc (length Pre)) ?rk ?r = ?t1"
      using ptr_set_at [OF lv, of ?rk ?r] split_node(5) [OF wf'(1) L'(2) L(3) i] by (simp add: ptr_create_def)
    have "push S t (length Pre) p (x, a) = (if \<not> ptr_exists ?t1 (Suc (Suc (length Pre))) ?par then
        bindE (accumulate S ?l) (\<lambda>lacc. bindE (accumulate S ?r) (\<lambda>racc.
        Inr (ptr_set (ptr_create ?t1 (Suc (Suc (length Pre))) ?par [(p, lacc), (?rk, racc)]) (Suc (length Pre)) p ?l)))
      else bindE (accumulate S ?r) (\<lambda>racc. bindE (push S ?t1 (Suc (length Pre)) ?par (?rk, racc)) (\<lambda>t.
        bindE (accumulate S ?l) (\<lambda>lacc.
        bindE (updateAccumulation S t (Suc (length Pre)) (ptr_parent t (Suc (length Pre)) p) (p, lacc)) (\<lambda>t.
        Inr (ptr_set t (Suc (length Pre)) p ?l))))))"
      (is "_ = ?step")
      using ex f 3 ins idx t1 by (subst push.simps) (simp add: node_split_def case_prod_beta Let_def cong: if_cong)
    moreover have "returns S ?step (over t Pre (kv_set base x a))"
      by (rule push_full [OF assms lv wf'(2) L'(2) L(3) i Cons.prems(3) refl Cons.IH])
    ultimately show ?thesis by (simp only:)
  qed
  then show ?case by (simp add: p_def)
qed simp

end
