(* ===== verification/Sumtree_Sums.thy ===== *)
theory Sumtree_Sums
  imports Sumtree_Set
begin

text \<open>
  What the sums of \<open>osmoutils/sumtree\<close> are: \<open>Set\<close> changes the map of leaves and keeps the tree well
  formed, and the descent of \<open>SplitAcc\<close> adds up exactly the leaves below, at and above a key.
\<close>

section \<open>Set\<close>

lemma tree_Set_wf:
  assumes "sdk_int_laws S" "wf_tree t"
  shows "returns S (tree_Set S t key acc)
    (\<lambda>t'. wf_tree t' \<and> tree_leaves t' = kv_set (tree_leaves t) key acc \<and> tree_m t' = tree_m t)"
proof -
  let ?t = "setLeaf t key acc"
  have wf: "wf_levels (tree_leaves t) (tree_levels t)" "1 \<le> tree_m t" using assms(2) by (auto simp: wf_tree_def)
  then obtain L Ls where L: "tree_levels t = L # Ls" "wf_level L" by (cases "tree_levels t") auto
  have "ptr_parent ?t 0 key = loc (hd (tree_levels t)) key"
    using ptr_parent_at [of ?t "[]" L Ls key] L by (simp add: setLeaf_def)
  moreover have "returns S (push S ?t 0 (loc (hd (tree_levels t)) key) (key, acc)) (over ?t [] (kv_set (tree_leaves t) key acc))"
    using push_wf [OF assms(1), of ?t "[]" "tree_levels t" "tree_leaves t"] wf by (simp add: setLeaf_def)
  ultimately have "returns S (tree_Set S t key acc) (over ?t [] (kv_set (tree_leaves t) key acc))" by (simp add: tree_Set_def Let_def)
  then show ?thesis by (rule returns_mono) (use wf in \<open>auto simp: over_def wf_tree_def setLeaf_def\<close>)
qed

text \<open>The tree that \<open>NewTree\<close> sets up in an empty store.\<close>

lemma NewTree_wf:
  assumes "tree_leaves t = []" "tree_levels t = []" "1 \<le> tree_m t"
  shows "\<exists>t'. NewTree S t = Inr t' \<and> wf_tree t' \<and> tree_leaves t' = [('''', 0)] \<and> tree_m t' = tree_m t"
proof -
  let ?t = "setLeaf t '''' 0"
  have l: "tree_levels ?t = []" using assms(2) by (simp add: setLeaf_def)
  have "NewTree S t = Inr (?t\<lparr>tree_levels := [[('''', [('''', 0)])]]\<rparr>)"
    using assms ptr_parent_above [OF l] ptr_exists_above [OF l] ptr_set_above [OF l]
    by (simp add: NewTree_def IsEmpty_def tree_Set_def push.simps ptr_create_def)
  then show ?thesis using assms
    by (simp add: wf_tree_def wf_level_def wf_node_def kv_ordered_def items_def setLeaf_def)
qed

section \<open>The leaves under a node\<close>

fun leaves_under :: "tree \<Rightarrow> nat \<Rightarrow> string \<Rightarrow> child list" where
  "leaves_under t 0 k = (case kv_get (tree_leaves t) k of None \<Rightarrow> [] | Some a \<Rightarrow> [(k, a)])"
| "leaves_under t (Suc l) k = concat (map (\<lambda>c. leaves_under t l (fst c)) (ptr_node t (Suc l) k))"

definition entries_at :: "tree \<Rightarrow> nat \<Rightarrow> child list" where
  "entries_at t l = (if l = 0 then tree_leaves t else node_sums (tree_levels t ! (l - 1)))"

lemma wf_levels_nth:
  "wf_levels base Ls \<Longrightarrow> i < length Ls \<Longrightarrow>
    wf_level (Ls ! i) \<and> items (Ls ! i) = (if i = 0 then base else node_sums (Ls ! (i - 1))) \<and> (Suc i = length Ls \<longrightarrow> length (Ls ! i) = 1)"
proof (induction base Ls arbitrary: i rule: wf_levels.induct)
  case (2 base L Ls)
  show ?case
  proof (cases i)
    case 0
    then show ?thesis using "2.prems" by (auto split: if_splits)
  next
    case (Suc j)
    then have "Ls \<noteq> []" "j < length Ls" using "2.prems" by auto
    then have "wf_level (Ls ! j) \<and> items (Ls ! j) = (if j = 0 then node_sums L else node_sums (Ls ! (j - 1))) \<and>
        (Suc j = length Ls \<longrightarrow> length (Ls ! j) = 1)"
      using "2.IH" "2.prems"(1) by simp
    then show ?thesis unfolding Suc nth_Cons_Suc diff_Suc_1 by (cases j) auto
  qed
qed simp

lemma wf_tree_level:
  assumes "wf_tree t" "l < length (tree_levels t)"
  shows "wf_level (tree_levels t ! l)" "items (tree_levels t ! l) = entries_at t l" "level_nodes t (Suc l) = tree_levels t ! l"
    "Suc l = length (tree_levels t) \<Longrightarrow> length (tree_levels t ! l) = 1"
  using wf_levels_nth [of "tree_leaves t" "tree_levels t" l] assms by (auto simp: wf_tree_def entries_at_def level_nodes_def)

lemma wf_tree_node:
  assumes "wf_tree t" "l < length (tree_levels t)" "(k, cs) \<in> set (tree_levels t ! l)"
  shows "ptr_node t (Suc l) k = cs" "wf_node (k, cs)" "set cs \<subseteq> set (entries_at t l)"
proof -
  note wf = wf_tree_level [OF assms(1,2)]
  show "ptr_node t (Suc l) k = cs"
    using kv_get_iff [OF wf_level_keys [OF wf(1)], of k cs] assms(3) by (simp add: ptr_node_def wf(3))
  show "wf_node (k, cs)" using wf(1) assms(3) by (auto simp: wf_level_def)
  show "set cs \<subseteq> set (entries_at t l)" unfolding wf(2) [symmetric] using assms(3) by (auto simp: items_def)
qed


text \<open>The entries of every level spread out to the leaves, with their sums.\<close>

definition spread :: "tree \<Rightarrow> nat \<Rightarrow> child list \<Rightarrow> child list" where
  "spread t l cs = concat (map (\<lambda>c. leaves_under t l (fst c)) cs)"

lemma spread_simps [simp]: "spread t l [] = []" "spread t l (c # cs) = leaves_under t l (fst c) @ spread t l cs"
  "spread t l (cs @ ds) = spread t l cs @ spread t l ds"
  by (simp_all add: spread_def)

definition sums_up :: "tree \<Rightarrow> nat \<Rightarrow> child \<Rightarrow> bool" where
  "sums_up t l c \<longleftrightarrow> sum_of (leaves_under t l (fst c)) = snd c \<and> leaves_under t l (fst c) \<noteq> [] \<and> fst (hd (leaves_under t l (fst c))) = fst c"

lemma sum_of_append [simp]: "sum_of [] = 0" "sum_of (c # cs) = snd c + sum_of cs" "sum_of (cs @ ds) = sum_of cs + sum_of ds"
  by (simp_all add: sum_of_def)

lemma sum_of_spread: "\<forall>c \<in> set cs. sums_up t l c \<Longrightarrow> sum_of (spread t l cs) = sum_of cs"
  by (induction cs) (auto simp: sums_up_def)

lemma spread_nodes:
  assumes "wf_tree t" "l < length (tree_levels t)"
  shows "set L \<subseteq> set (tree_levels t ! l) \<Longrightarrow> spread t (Suc l) (node_sums L) = spread t l (items L)"
  by (induction L) (use wf_tree_node(1) [OF assms] in \<open>auto simp: spread_def\<close>)

lemma spread_leaves: "\<forall>c \<in> set xs. kv_get (tree_leaves t) (fst c) = Some (snd c) \<Longrightarrow> spread t 0 xs = xs"
  by (induction xs) auto

lemma wf_level_ordered:
  assumes "wf_level L"
  shows "kv_ordered (items L)"
proof -
  have "kv_ordered (items L)" if "\<forall>n \<in> set L. wf_node n" "sorted_wrt node_before L" for L
    using that
  proof (induction L)
    case (Cons n L)
    have "fst c < fst d" if "c \<in> set (snd n)" "d \<in> set (items L)" for c d
    proof -
      from that(2) obtain n' where n': "n' \<in> set L" "d \<in> set (snd n')" by (auto simp: items_def)
      then have "fst n' \<le> fst d" using Cons.prems(1) wf_node_first [of "fst n'" "snd n'"] by auto
      moreover have "fst c < fst n'" using Cons.prems(2) n'(1) that(1) by (auto simp: node_before_def)
      ultimately show ?thesis by simp
    qed
    then show ?case using Cons by (auto simp: kv_ordered_def sorted_wrt_append wf_node_def)
  qed (simp add: kv_ordered_def)
  then show ?thesis using assms by (simp add: wf_level_def)
qed

lemma wf_tree_leaves: "wf_tree t \<Longrightarrow> kv_ordered (tree_leaves t)"
  using wf_tree_level(1,2) [of t 0] wf_level_ordered [of "tree_levels t ! 0"] by (cases "tree_levels t") (auto simp: entries_at_def wf_tree_def)

lemma entries_spread:
  assumes "wf_tree t"
  shows "l \<le> length (tree_levels t) \<Longrightarrow> spread t l (entries_at t l) = tree_leaves t \<and> (\<forall>c \<in> set (entries_at t l). sums_up t l c)"
proof (induction l)
  case 0
  have "\<forall>c \<in> set (tree_leaves t). kv_get (tree_leaves t) (fst c) = Some (snd c)"
    using kv_get_iff [OF wf_tree_leaves [OF assms]] by simp
  then show ?case using spread_leaves by (simp add: entries_at_def sums_up_def)
next
  case (Suc l)
  let ?L = "tree_levels t ! l"
  have l: "l < length (tree_levels t)" using Suc.prems by simp
  note wf = wf_tree_level [OF assms l]
  have "spread t (Suc l) (node_sums ?L) = tree_leaves t" using spread_nodes [OF assms l, of ?L] Suc wf(2) by simp
  moreover have "sums_up t (Suc l) (k, sum_of cs)" if n: "(k, cs) \<in> set ?L" for k cs
  proof -
    note node = wf_tree_node [OF assms l n]
    have u: "leaves_under t (Suc l) k = spread t l cs" by (simp add: node(1) spread_def)
    have s: "\<forall>c \<in> set cs. sums_up t l c" using node(3) Suc by auto
    obtain c ds where "cs = c # ds" "fst c = k" using node(2) by (cases cs) (auto simp: wf_node_def)
    then show ?thesis using sum_of_spread [OF s] s by (simp add: sums_up_def u del: leaves_under.simps)
  qed
  ultimately show ?case by (auto simp: entries_at_def node_sums_def)
qed


section \<open>SplitAcc\<close>

definition split_sums :: "string \<Rightarrow> child list \<Rightarrow> int \<times> int \<times> int" where
  "split_sums key xs = (sum_of (filter (\<lambda>c. fst c < key) xs), sum_of (filter (\<lambda>c. fst c = key) xs), sum_of (filter (\<lambda>c. key < fst c) xs))"

lemma split_sums_around:
  assumes "\<forall>c \<in> set A. fst c < key" "\<forall>c \<in> set B. key < fst c" "split_sums key xs = (l, e, r)"
  shows "split_sums key (A @ xs @ B) = (l + sum_of A, e, r + sum_of B)"
proof -
  have "filter (\<lambda>c. fst c < key) A = A" "filter (\<lambda>c. fst c < key) B = []" "filter (\<lambda>c. fst c = key) A = []"
    "filter (\<lambda>c. fst c = key) B = []" "filter (\<lambda>c. key < fst c) A = []" "filter (\<lambda>c. key < fst c) B = B"
    using assms(1,2) by (force simp: filter_empty_conv filter_id_conv)+
  then show ?thesis using assms(3) by (simp add: split_sums_def)
qed

lemma node_find_split:
  "node_find n cs key = (idx, m) \<Longrightarrow> kv_ordered cs \<Longrightarrow>
    \<exists>A B. cs = A @ B \<and> idx = n + length A \<and> (\<forall>c \<in> set A. fst c < key) \<and>
      (if m then \<exists>c B'. B = c # B' \<and> fst c = key \<and> (\<forall>c \<in> set B'. key < fst c) else \<forall>c \<in> set B. key < fst c)"
proof (induction n cs key arbitrary: idx m rule: node_find.induct)
  case (2 n c cs key)
  have o: "\<forall>d \<in> set cs. fst c < fst d" "kv_ordered cs" using "2.prems"(2) by (auto simp: kv_ordered_def)
  consider "fst c = key" | "key < fst c" | "fst c < key" by fastforce
  then show ?case
  proof cases
    case 3
    then have "node_find (n + 1) cs key = (idx, m)" using "2.prems"(1) by (auto split: if_splits)
    moreover have "fst c \<noteq> key" "\<not> key < fst c" using 3 by auto
    ultimately obtain A B where "cs = A @ B" "idx = n + 1 + length A" "\<forall>c \<in> set A. fst c < key"
      "if m then \<exists>c B'. B = c # B' \<and> fst c = key \<and> (\<forall>c \<in> set B'. key < fst c) else \<forall>c \<in> set B. key < fst c" using "2.IH" o(2) by blast
    with 3 show ?thesis by (intro exI [of _ "c # A"] exI [of _ B]) simp
  next
    case 1
    then show ?thesis using o "2.prems"(1) by (intro exI [of _ "[]"] exI [of _ "c # cs"]) auto
  next
    case 2
    then show ?thesis using o "2.prems"(1) by (intro exI [of _ "[]"] exI [of _ "c # cs"]) (auto dest: less_trans split: if_splits)
  qed
qed (auto simp: kv_ordered_def)

text \<open>The child into which the descent goes.\<close>

lemma descend:
  assumes "node_find 0 cs key = (idx, m)" "kv_ordered cs" "cs \<noteq> []" "fst (hd cs) \<le> key"
  obtains A c B where "cs = A @ c # B" "(if m then idx else idx - 1) = length A" "\<not> m \<longrightarrow> idx \<noteq> 0" "fst c \<le> key" "\<forall>d \<in> set B. key < fst d"
proof -
  obtain A B where AB: "cs = A @ B" "idx = length A" "\<forall>c \<in> set A. fst c < key"
    "if m then \<exists>c B'. B = c # B' \<and> fst c = key \<and> (\<forall>c \<in> set B'. key < fst c) else \<forall>c \<in> set B. key < fst c"
    using node_find_split [OF assms(1,2)] by auto
  show thesis
  proof (cases m)
    case True
    with AB obtain c B' where "B = c # B'" "fst c = key" "\<forall>c \<in> set B'. key < fst c" by auto
    then show ?thesis using that [of A c B'] AB True by simp
  next
    case False
    with AB assms(3,4) have "A \<noteq> []" by (cases B) auto
    then have "A = butlast A @ [last A]" "fst (last A) \<le> key" using AB(3) by (auto simp: less_imp_le)
    then show ?thesis using that [of "butlast A" "last A" B] AB False \<open>A \<noteq> []\<close> by (metis append.assoc append_Cons append_Nil length_0_conv length_butlast)
  qed
qed


lemma spread_ordered:
  assumes "wf_tree t" "l < length (tree_levels t)" "(k, cs) \<in> set (tree_levels t ! l)"
  shows "kv_ordered (spread t l cs)"
proof -
  obtain X Y where "tree_levels t ! l = X @ (k, cs) # Y" using assms(3) by (meson split_list)
  then have "tree_leaves t = spread t l (items X) @ spread t l cs @ spread t l (items Y)"
    using entries_spread [OF assms(1), of l] assms(2) unfolding wf_tree_level(2) [OF assms(1,2), symmetric] by simp
  then show ?thesis using wf_tree_leaves [OF assms(1)] by (simp add: kv_ordered_def sorted_wrt_append)
qed

lemma spread_around:
  assumes "kv_ordered (spread t l (A @ c # B))" "\<forall>d \<in> set (A @ c # B). sums_up t l d" "fst c \<le> key" "\<forall>d \<in> set B. key < fst d"
  shows "\<forall>d \<in> set (spread t l A). fst d < key" "\<forall>d \<in> set (spread t l B). key < fst d"
proof -
  obtain c' us where c: "leaves_under t l (fst c) = c' # us" "fst c' = fst c" using assms(2) by (cases "leaves_under t l (fst c)") (auto simp: sums_up_def)
  have o: "kv_ordered (spread t l A @ c' # us @ spread t l B)" using assms(1) c(1) by simp
  then show "\<forall>d \<in> set (spread t l A). fst d < key" using c(2) assms(3) by (fastforce simp: kv_ordered_def sorted_wrt_append)
  have "kv_ordered (spread t l B)" using o by (simp add: kv_ordered_def sorted_wrt_append)
  then show "\<forall>d \<in> set (spread t l B). key < fst d" using assms(2,4)
  proof (induction B)
    case (Cons b B)
    obtain b' us where b: "leaves_under t l (fst b) = b' # us" "fst b' = fst b" using Cons.prems(2) by (cases "leaves_under t l (fst b)") (auto simp: sums_up_def)
    have "\<forall>d \<in> set us. fst b < fst d" "kv_ordered (spread t l B)" using Cons.prems(1) b by (auto simp: kv_ordered_def sorted_wrt_append)
    then show ?case using Cons b by (auto simp del: leaves_under.simps dest: less_trans)
  qed simp
qed

lemma add_around:
  assumes "sdk_int_laws S"
  shows "returns S (bindE (accumulate S A) (\<lambda>lacc. bindE (Int_Add S le lacc) (\<lambda>left. bindE (accumulate S B) (\<lambda>racc.
    bindE (Int_Add S ri racc) (\<lambda>right. Inr (left, ex, right)))))) (\<lambda>r. r = (le + sum_of A, ex, ri + sum_of B))"
  apply (rule returns_bind [OF returns_accumulate [OF assms]])
  apply (rule returns_bind [OF returns_add [OF assms]])
  apply (rule returns_bind [OF returns_accumulate [OF assms]])
  apply (rule returns_bind [OF returns_add [OF assms]])
  apply simp
  done

lemma accumulationSplit_sums:
  assumes "sdk_int_laws S" "wf_tree t"
  shows "l \<le> length (tree_levels t) \<Longrightarrow> (k, a) \<in> set (entries_at t l) \<Longrightarrow> l = 0 \<or> k \<le> key \<Longrightarrow>
    returns S (accumulationSplit S t l k key) (\<lambda>r. r = split_sums key (leaves_under t l k))"
proof (induction l arbitrary: k a)
  case 0
  then have "kv_get (tree_leaves t) k = Some a" using kv_get_iff [OF wf_tree_leaves [OF assms(2)]] by (simp add: entries_at_def)
  then show ?case by (auto simp: split_sums_def)
next
  case (Suc l)
  have l: "l < length (tree_levels t)" using Suc.prems(1) by simp
  obtain cs where n: "(k, cs) \<in> set (tree_levels t ! l)" using Suc.prems(2) by (auto simp: entries_at_def node_sums_def)
  note node = wf_tree_node [OF assms(2) l n]
  have up: "\<forall>d \<in> set cs. sums_up t l d" using entries_spread [OF assms(2), of l] node(3) l by auto
  obtain idx m where f: "node_find 0 cs key = (idx, m)" by fastforce
  obtain A c B where d: "cs = A @ c # B" "(if m then idx else idx - 1) = length A" "\<not> m \<longrightarrow> idx \<noteq> 0" "fst c \<le> key" "\<forall>d \<in> set B. key < fst d"
    by (rule descend [OF f]) (use node(2) Suc.prems(3) in \<open>auto simp: wf_node_def\<close>)
  have around: "\<forall>d \<in> set (spread t l A). fst d < key" "\<forall>d \<in> set (spread t l B). key < fst d"
    by (rule spread_around [OF spread_ordered [OF assms(2) l n, unfolded d(1)] up [unfolded d(1)] d(4,5)])+
  have sums: "sum_of (spread t l A) = sum_of A" "sum_of (spread t l B) = sum_of B" using sum_of_spread up d(1) by simp_all
  have u: "leaves_under t (Suc l) k = spread t l A @ leaves_under t l (fst c) @ spread t l B" by (simp add: node(1) d(1) spread_def)
  have step: "accumulationSplit S t (Suc l) k key = bindE (accumulationSplit S t l (fst c) key) (\<lambda>(left, exact, right).
      bindE (accumulate S A) (\<lambda>lacc. bindE (Int_Add S left lacc) (\<lambda>left. bindE (accumulate S B) (\<lambda>racc.
      bindE (Int_Add S right racc) (\<lambda>right. Inr (left, exact, right))))))"
    using d(2,3) by (auto simp: node(1) d(1) f [unfolded d(1)] go_index_def Let_def)
  have c: "(fst c, snd c) \<in> set (entries_at t l)" using node(3) d(1) by auto
  show ?case unfolding step u
  proof (rule returns_bind [OF Suc.IH [OF _ c]])
    fix r
    assume r: "r = split_sums key (leaves_under t l (fst c))"
    obtain le ex ri where s: "split_sums key (leaves_under t l (fst c)) = (le, ex, ri)" by (metis prod_cases3)
    show "returns S (case r of (left, exact, right) \<Rightarrow> bindE (accumulate S A) (\<lambda>lacc. bindE (Int_Add S left lacc) (\<lambda>left.
        bindE (accumulate S B) (\<lambda>racc. bindE (Int_Add S right racc) (\<lambda>right. Inr (left, exact, right))))))
      (\<lambda>r. r = split_sums key (spread t l A @ leaves_under t l (fst c) @ spread t l B))"
      unfolding r s split_sums_around [OF around s] sums prod.case by (rule add_around [OF assms(1)])
  next
    show "l \<le> length (tree_levels t)" using l by simp
    show "l = 0 \<or> fst c \<le> key" using d(4) by simp
  qed
qed


lemma root_wf:
  assumes "wf_tree t"
  shows "root t = Some (length (tree_levels t), '''')" "\<exists>a. ('''', a) \<in> set (entries_at t (length (tree_levels t)))"
    "leaves_under t (length (tree_levels t)) '''' = tree_leaves t"
proof -
  obtain n where n: "length (tree_levels t) = Suc n" using assms by (cases "tree_levels t") (auto simp: wf_tree_def)
  then have nl: "n < length (tree_levels t)" by simp
  note wf = wf_tree_level [OF assms nl]
  obtain cs where L: "tree_levels t ! n = [('''', cs)]"
    using wf(1) wf(4) [OF n [symmetric]] by (cases "tree_levels t ! n") (auto simp: wf_level_def)
  then show "root t = Some (length (tree_levels t), '''')"
    using wf(3) n by (simp add: root_def level_keys_def kv_entries_def)
  show "\<exists>a. ('''', a) \<in> set (entries_at t (length (tree_levels t)))" using L n by (simp add: entries_at_def)
  have "entries_at t (Suc n) = [('''', sum_of cs)]" using L by (simp add: entries_at_def)
  then have "spread t (Suc n) [('''', sum_of cs)] = tree_leaves t" using entries_spread [OF assms, of "Suc n"] n by simp
  then show "leaves_under t (length (tree_levels t)) '''' = tree_leaves t" by (simp only: n spread_simps append_Nil2 fst_conv)
qed

lemma SplitAcc_sums:
  assumes "sdk_int_laws S" "wf_tree t"
  shows "returns S (SplitAcc S t key) (\<lambda>r. r = split_sums key (tree_leaves t))"
proof -
  obtain a where "('''', a) \<in> set (entries_at t (length (tree_levels t)))" using root_wf(2) [OF assms(2)] by blast
  from accumulationSplit_sums [OF assms le_refl this, of key] show ?thesis by (simp add: SplitAcc_def root_wf [OF assms(2)])
qed


lemma returns_sub: "sdk_int_laws S \<Longrightarrow> returns S (Int_Sub S a b) (\<lambda>r. r = a - b)"
  by (cases "Int_Sub S a b") (auto simp: returns_def sdk_panic_def sdk_int_laws_def)

lemma sum_of_filter_split: "sum_of (filter P xs) = sum_of (filter (\<lambda>c. P c \<and> Q c) xs) + sum_of (filter (\<lambda>c. P c \<and> \<not> Q c) xs)"
  by (induction xs) auto

lemma PrefixSum_sums:
  assumes "sdk_int_laws S" "wf_tree t"
  shows "returns S (PrefixSum S t key) (\<lambda>r. r = sum_of (filter (\<lambda>c. fst c \<le> key) (tree_leaves t)))"
proof -
  have "sum_of (filter (\<lambda>c. fst c \<le> key) (tree_leaves t)) =
      sum_of (filter (\<lambda>c. fst c < key) (tree_leaves t)) + sum_of (filter (\<lambda>c. fst c = key) (tree_leaves t))"
    using sum_of_filter_split [of "\<lambda>c. fst c \<le> key" "tree_leaves t" "\<lambda>c. fst c < key"]
    by (simp add: order.strict_iff_order conj_ac cong: conj_cong)
  then show ?thesis
    unfolding PrefixSum_def SubsetAccumulation_def
    by (auto intro!: returns_bind [OF SplitAcc_sums [OF assms]] simp: split_sums_def returns_add [OF assms(1)])
qed

lemma SubsetAccumulation_sums:
  assumes "sdk_int_laws S" "wf_tree t" "s \<le> e"
  shows "returns S (SubsetAccumulation S t (Some s) (Some e)) (\<lambda>r. r = sum_of (filter (\<lambda>c. s \<le> fst c \<and> fst c \<le> e) (tree_leaves t)))"
proof -
  let ?f = "\<lambda>P. sum_of (filter (\<lambda>c. P (fst c)) (tree_leaves t))"
  have "?f (\<lambda>k. s \<le> k) = ?f (\<lambda>k. k = s) + ?f (\<lambda>k. s < k)"
    by (rule trans [OF sum_of_filter_split [of _ _ "\<lambda>c. fst c = s"]]) (auto intro!: arg_cong2 [of _ _ _ _ "(+)"] arg_cong [of _ _ sum_of] filter_cong)
  moreover have "?f (\<lambda>k. s \<le> k) = ?f (\<lambda>k. s \<le> k \<and> k \<le> e) + ?f (\<lambda>k. e < k)"
    by (rule trans [OF sum_of_filter_split [of _ _ "\<lambda>c. fst c \<le> e"]])
      (use assms(3) in \<open>auto intro!: arg_cong [of _ _ sum_of] filter_cong\<close>)
  ultimately have eq: "?f (\<lambda>k. k = s) + ?f (\<lambda>k. s < k) - ?f (\<lambda>k. e < k) = ?f (\<lambda>k. s \<le> k \<and> k \<le> e)" by simp
  show ?thesis
    unfolding SubsetAccumulation_def option.case eq [symmetric]
    by (auto intro!: returns_bind [OF SplitAcc_sums [OF assms(1,2)]] returns_bind [OF returns_add [OF assms(1)]] returns_sub [OF assms(1)] simp: split_sums_def)
qed


section \<open>Remove\<close>

lemma kv_delete_append:
  "k \<in> fst ` set cs \<Longrightarrow> \<forall>n \<in> set A. fst n \<noteq> k \<Longrightarrow> kv_delete (A @ cs @ B) k = A @ kv_delete cs k @ B"
proof (induction A)
  case Nil
  then show ?case by (induction cs) force+
qed auto

lemma node_find_delete:
  assumes "kv_ordered cs" "x \<in> fst ` set cs"
  shows "\<exists>idx. node_find 0 cs x = (idx, True) \<and> node_delete cs idx = kv_delete cs x"
proof -
  obtain idx m where f: "node_find 0 cs x = (idx, m)" by fastforce
  obtain A B where AB: "cs = A @ B" "idx = length A" "\<forall>c \<in> set A. fst c < x"
    "if m then \<exists>c B'. B = c # B' \<and> fst c = x \<and> (\<forall>c \<in> set B'. x < fst c) else \<forall>c \<in> set B. x < fst c"
    using node_find_split [OF f assms(1)] by auto
  then have m: "m" using assms(2) by (force split: if_splits)
  then obtain c B' where "B = c # B'" "fst c = x" using AB(4) by auto
  moreover have "\<forall>n \<in> set A. fst n \<noteq> x" using AB(3) by auto
  ultimately show ?thesis using f m AB kv_delete_append [of x "[c]" A B'] by (cases c) (auto simp: node_delete_def)
qed

lemma level_delete_node:
  assumes "wf_level (A @ (k, cs) # B)" "x \<in> fst ` set cs" "x \<noteq> k"
  shows "wf_level (A @ (k, kv_delete cs x) # B)" "items (A @ (k, kv_delete cs x) # B) = kv_delete (items (A @ (k, cs) # B)) x"
    "kv_delete cs x \<noteq> []"
proof -
  have wf: "wf_node (k, cs)" using assms(1) by (simp add: wf_level_app)
  then obtain a ds where cs: "cs = (k, a) # ds" "kv_ordered cs" by (cases cs) (auto simp: wf_node_def)
  then show "kv_delete cs x \<noteq> []" using assms(3) by simp
  have "wf_node (k, kv_delete cs x)" using cs assms(3) kv_ordered_delete [OF cs(2), of x] by (simp add: wf_node_def)
  moreover have "\<forall>n \<in> set B. node_before (k, kv_delete cs x) n" "\<forall>n \<in> set A. node_before n (k, kv_delete cs x)"
    using assms(1) set_kv_delete [of cs x] unfolding wf_level_app node_before_def snd_conv fst_conv by blast+
  ultimately show "wf_level (A @ (k, kv_delete cs x) # B)" using assms(1) unfolding wf_level_app by (cases A) simp_all
  have "k \<le> x" using assms(2) wf_node_first [OF wf] by auto
  then have "\<forall>n \<in> set (items A). fst n \<noteq> x" using items_around(1) [OF assms(1)] by auto
  then show "items (A @ (k, kv_delete cs x) # B) = kv_delete (items (A @ (k, cs) # B)) x"
    using kv_delete_append [OF assms(2)] by simp
qed


text \<open>The node without the leaf hands its new sum up.\<close>

lemma delete_over:
  assumes "sdk_int_laws S" "tree_levels t = (A @ (p, kv_delete cs x) # B) # Ls" "wf_levels base ((A @ (p, cs) # B) # Ls)"
    "x \<in> fst ` set cs" "x \<noteq> p"
  shows "returns S (bindE (accumulate S (kv_delete cs x)) (\<lambda>acc. updateAccumulation S t (Suc 0) (ptr_parent t (Suc 0) p) (p, acc)))
    (over t [] (kv_delete base x))"
proof (rule returns_bind [OF returns_accumulate [OF assms(1)]], rule returns_mono)
  let ?L = "A @ (p, kv_delete cs x) # B"
  have wf: "wf_level (A @ (p, cs) # B)" "items (A @ (p, cs) # B) = base"
    "if Ls = [] then length (A @ (p, cs) # B) = 1 else wf_levels (node_sums (A @ (p, cs) # B)) Ls"
    using assms(3) unfolding wf_levels.simps by blast+
  note del = level_delete_node [OF wf(1) assms(4,5)]
  fix acc
  show "returns S (updateAccumulation S t (Suc 0) (ptr_parent t (Suc 0) p) (p, acc)) (\<lambda>t'. \<exists>Ls'. t' = t\<lparr>tree_levels := [] @ ?L # Ls'\<rparr> \<and>
      (Ls' = [] \<longleftrightarrow> Ls = []) \<and> (Ls' \<noteq> [] \<longrightarrow> wf_levels (kv_set (node_sums (A @ (p, cs) # B)) p acc) Ls'))"
    using update_parent [OF assms(1), of t "[]" ?L Ls "node_sums (A @ (p, cs) # B)" p acc] wf(3) assms(2) by (simp del: node_sums_append split: if_splits)
  fix t'
  assume acc: "acc = sum_of (kv_delete cs x)" and "\<exists>Ls'. t' = t\<lparr>tree_levels := [] @ ?L # Ls'\<rparr> \<and>
      (Ls' = [] \<longleftrightarrow> Ls = []) \<and> (Ls' \<noteq> [] \<longrightarrow> wf_levels (kv_set (node_sums (A @ (p, cs) # B)) p acc) Ls')"
  then obtain Ls' where t': "t' = t\<lparr>tree_levels := ?L # Ls'\<rparr>" "Ls' = [] \<longleftrightarrow> Ls = []" "Ls' \<noteq> [] \<longrightarrow> wf_levels (node_sums ?L) Ls'"
    unfolding node_sums_set_node(1) [OF wf(1), of "kv_delete cs x"] by auto
  have "wf_levels (kv_delete base x) (?L # Ls')"
    unfolding wf_levels.simps using del(1,2) wf(2,3) t'(2,3) by (auto split: if_splits)
  then show "over t [] (kv_delete base x) t'" using t'(1) unfolding over_def by (intro exI [of _ "?L # Ls'"]) (simp del: wf_levels.simps)
qed

text \<open>Removing a leaf that no inner node is named after keeps the tree well formed.\<close>

lemma tree_Remove_wf:
  assumes "sdk_int_laws S" "wf_tree t" "ptr_exists t 0 key" "\<not> ptr_exists t 1 key"
  shows "returns S (tree_Remove S t key) (\<lambda>t'. wf_tree t' \<and> tree_leaves t' = kv_delete (tree_leaves t) key \<and> tree_m t' = tree_m t)"
proof -
  obtain L Ls where lv: "tree_levels t = L # Ls" using assms(2) by (cases "tree_levels t") (auto simp: wf_tree_def)
  have wf: "wf_level L" "items L = tree_leaves t" "wf_levels (tree_leaves t) (L # Ls)" using assms(2) lv by (auto simp: wf_tree_def)
  obtain A cs B where L: "L = A @ (loc L key, cs) # B" "loc L key \<le> key" "\<forall>n \<in> set B. key < fst n" by (rule level_split [OF wf(1), of key])
  define p where "p = loc L key"
  have L': "L = A @ (p, cs) # B" "p \<le> key" using L(1,2) by (simp_all add: p_def)
  note wf' = wf [unfolded L'(1)]
  have x: "key \<in> fst ` set cs" using level_set_node(3) [OF wf'(1) L'(2) L(3)] assms(3) unfolding wf'(2)
    by (simp add: ptr_exists_def level_keys_def kv_entries_def)
  have "key \<notin> fst ` set L" using assms(4) ptr_exists_at [of t "[]" L Ls key] lv by simp
  then have px: "key \<noteq> p" using L'(1) by auto
  let ?t1 = "t\<lparr>tree_leaves := kv_delete (tree_leaves t) key\<rparr>"
  let ?t2 = "?t1\<lparr>tree_levels := (A @ (p, kv_delete cs key) # B) # Ls\<rparr>"
  obtain idx where f: "node_find 0 cs key = (idx, True)" "node_delete cs idx = kv_delete cs key"
    using node_find_delete [OF _ x] wf'(1) by (auto simp: wf_level_app wf_node_def)
  have par: "ptr_parent t 0 key = p" using ptr_parent_at [of t "[]" L Ls key] lv wf(1) by (simp add: p_def)
  have lv1: "tree_levels ?t1 = [] @ (A @ (p, cs) # B) # Ls" using lv L'(1) by simp
  have at: "ptr_exists ?t1 (Suc 0) p" "ptr_node ?t1 (Suc 0) p = cs" "ptr_set ?t1 (Suc 0) p (kv_delete cs key) = ?t2"
    using ptr_exists_at [OF lv1, of p] ptr_node_at [OF lv1 wf'(1)] ptr_set_at [OF lv1, of p "kv_delete cs key"] node_sums_set_node(2) [OF wf'(1)] by simp_all
  have "tree_Remove S t key = bindE (accumulate S (kv_delete cs key)) (\<lambda>acc. updateAccumulation S ?t2 (Suc 0) (ptr_parent ?t2 (Suc 0) p) (p, acc))"
    using assms(3) at f level_delete_node(3) [OF wf'(1) x px] by (simp add: tree_Remove_def par ptr_delete_def lv pull.simps Let_def)
  moreover have "returns S \<dots> (over ?t2 [] (kv_delete (tree_leaves t) key))"
    by (rule delete_over [OF assms(1) _ wf'(3) x px]) simp
  ultimately have "returns S (tree_Remove S t key) (over ?t2 [] (kv_delete (tree_leaves t) key))" by simp
  then show ?thesis by (rule returns_mono) (use assms(2) in \<open>auto simp: over_def wf_tree_def\<close>)
qed

text \<open>A tree after a history of calls to \<open>Set\<close>.\<close>

definition tree_Sets :: "sdk \<Rightarrow> tree \<Rightarrow> child list \<Rightarrow> tree res" where
  "tree_Sets S t kvs = foldE (\<lambda>t (k, v). tree_Set S t k v) t kvs"

lemma tree_Sets_wf:
  assumes "sdk_int_laws S"
  shows "wf_tree t \<Longrightarrow> returns S (tree_Sets S t kvs) (\<lambda>t'. wf_tree t' \<and> tree_leaves t' = fold (\<lambda>(k, v) s. kv_set s k v) kvs (tree_leaves t))"
proof (induction kvs arbitrary: t)
  case (Cons kv kvs)
  have "returns S (tree_Set S t (fst kv) (snd kv)) (\<lambda>t'. wf_tree t' \<and> tree_leaves t' = kv_set (tree_leaves t) (fst kv) (snd kv))"
    by (rule returns_mono [OF tree_Set_wf [OF assms Cons.prems]]) simp
  moreover have "returns S (tree_Sets S t1 kvs) (\<lambda>t'. wf_tree t' \<and> tree_leaves t' = fold (\<lambda>(k, v) s. kv_set s k v) (kv # kvs) (tree_leaves t))"
    if "wf_tree t1 \<and> tree_leaves t1 = kv_set (tree_leaves t) (fst kv) (snd kv)" for t1
    using Cons.IH [of t1] that by (cases kv) simp
  ultimately have "returns S (bindE (tree_Set S t (fst kv) (snd kv)) (\<lambda>t. tree_Sets S t kvs))
    (\<lambda>t'. wf_tree t' \<and> tree_leaves t' = fold (\<lambda>(k, v) s. kv_set s k v) (kv # kvs) (tree_leaves t))" by (rule returns_bind)
  then show ?case by (cases kv) (simp add: tree_Sets_def)
qed (simp add: tree_Sets_def)

lemma sum_of_at:
  assumes "kv_ordered s"
  shows "sum_of (filter (\<lambda>c. fst c = k) s) = (case kv_get s k of None \<Rightarrow> 0 | Some a \<Rightarrow> a)"
proof (cases "kv_get s k")
  case None
  then have "filter (\<lambda>c. fst c = k) s = []" using kv_get_iff [OF assms, of k] by (auto simp: filter_empty_conv)
  then show ?thesis using None by simp
next
  case (Some a)
  then have "(k, a) \<in> set s" using kv_get_iff [OF assms] by blast
  then obtain A B where "s = A @ (k, a) # B" by (meson split_list)
  moreover from this have "filter (\<lambda>c. fst c = k) A = []" "filter (\<lambda>c. fst c = k) B = []"
    using assms by (auto simp: filter_empty_conv kv_ordered_def sorted_wrt_append)
  ultimately show ?thesis using Some by simp
qed

section \<open>Properties\<close>

text \<open>C8: Setting a leaf implements the update of an ordered map of leaves: on a well-formed tree \<open>Set\<close>, whose
  splits and updated sums reach up to the root, ends with a well-formed tree whose leaves are
  those before with the one at the key changed. It fails only when the SDK's arithmetic panics.\<close>

theorem sumtree_Set_refines:
  assumes "sdk_int_laws S" "wf_tree t"
  shows "returns S (tree_Set S t key acc) (\<lambda>t'. wf_tree t' \<and> tree_leaves t' = kv_set (tree_leaves t) key acc \<and>
    (\<forall>k. tree_Get t' k = (if k = key then acc else tree_Get t k)))"
  by (rule returns_mono [OF tree_Set_wf [OF assms]])
    (simp add: tree_Get_def kv_get_set)

text \<open>An empty store for nodes of at most three children.\<close>

definition empty_tree :: tree where
  "empty_tree = \<lparr>tree_leaves = [], tree_levels = [], tree_m = 3\<rparr>"

lemma plain_Add [simp]: "Int_Add plain_sdk a b = Inr (a + b)" "Int_Sub plain_sdk a b = Inr (a - b)"
  by (simp_all add: plain_sdk_def)

lemma returns_plain: "returns plain_sdk r P \<longleftrightarrow> (\<exists>x. r = Inr x \<and> P x)"
  by (cases r) (auto simp: returns_def sdk_panic_def)

lemma plain_int_laws: "sdk_int_laws plain_sdk"
  using plain_sdk_laws by (simp add: sdk_laws_def)

theorem sumtree_Set_refines_witness:
  "\<exists>t t'. NewTree plain_sdk empty_tree = Inr t \<and> tree_Set plain_sdk t ''a'' 5 = Inr t' \<and> wf_tree t' \<and> tree_Get t' ''a'' = 5"
proof -
  obtain t where t: "NewTree plain_sdk empty_tree = Inr t" "wf_tree t" using NewTree_wf [of empty_tree plain_sdk] by (auto simp: empty_tree_def)
  from sumtree_Set_refines [OF plain_int_laws t(2), of "''a''" 5] t(1) show ?thesis by (auto simp: returns_plain)
qed


text \<open>C5: The sums are right after any history of updates: starting from an empty store, \<open>PrefixSum\<close> returns the
  total of the leaves up to its key and \<open>SubsetAccumulation\<close> that of the leaves between its two keys,
  both included, for the leaves last set.\<close>

theorem sumtree_sums_after_Sets:
  fixes kvs :: "child list"
  assumes "sdk_int_laws S" "tree_leaves t0 = []" "tree_levels t0 = []" "1 \<le> tree_m t0" "s \<le> e"
  defines "leaves \<equiv> fold (\<lambda>(k, v) s. kv_set s k v) kvs [('''', 0)]"
  shows "returns S (bindE (NewTree S t0) (\<lambda>t. bindE (tree_Sets S t kvs) (\<lambda>t.
      bindE (PrefixSum S t key) (\<lambda>p. bindE (SubsetAccumulation S t (Some s) (Some e)) (\<lambda>q. Inr (p, q))))))
    (\<lambda>(p, q). p = sum_of (filter (\<lambda>c. fst c \<le> key) leaves) \<and> q = sum_of (filter (\<lambda>c. s \<le> fst c \<and> fst c \<le> e) leaves))"
proof -
  obtain t where t: "NewTree S t0 = Inr t" "wf_tree t" "tree_leaves t = [('''', 0)]" using NewTree_wf [OF assms(2-4)] by blast
  show ?thesis unfolding t(1) bindE_Inr
  proof (rule returns_bind [OF tree_Sets_wf [OF assms(1) t(2)]])
    fix t' assume "wf_tree t' \<and> tree_leaves t' = fold (\<lambda>(k, v) s. kv_set s k v) kvs (tree_leaves t)"
    then have t': "wf_tree t'" "tree_leaves t' = leaves" by (simp_all add: t(3) leaves_def)
    show "returns S (bindE (PrefixSum S t' key) (\<lambda>p. bindE (SubsetAccumulation S t' (Some s) (Some e)) (\<lambda>q. Inr (p, q))))
      (\<lambda>(p, q). p = sum_of (filter (\<lambda>c. fst c \<le> key) leaves) \<and> q = sum_of (filter (\<lambda>c. s \<le> fst c \<and> fst c \<le> e) leaves))"
      by (rule returns_bind [OF PrefixSum_sums [OF assms(1) t'(1)]], rule returns_bind [OF SubsetAccumulation_sums [OF assms(1) t'(1) assms(5)]])
        (simp add: t'(2))
  qed
qed

theorem sumtree_sums_after_Sets_witness:
  "bindE (NewTree plain_sdk empty_tree) (\<lambda>t.
     bindE (tree_Sets plain_sdk t [(''c'', 3), (''a'', 1), (''b'', 2), (''e'', 5), (''d'', 4), (''a'', 7)]) (\<lambda>t.
     bindE (PrefixSum plain_sdk t ''b'') (\<lambda>p. bindE (SubsetAccumulation plain_sdk t (Some ''b'') (Some ''d'')) (\<lambda>q. Inr (p, q))))) = Inr (9, 9)"
  using sumtree_sums_after_Sets [OF plain_int_laws, where ?t0.0 = empty_tree and s = "''b''" and e = "''d''" and key = "''b''"
      and kvs = "[(''c'', 3), (''a'', 1), (''b'', 2), (''e'', 5), (''d'', 4), (''a'', 7)]"]
  by (auto simp: empty_tree_def returns_plain)

text \<open>C39: \<open>TotalAccumulatedValue\<close> is not the total: it stands for the prefix up to the empty key, so on every
  well-formed tree it returns the one leaf at that key.\<close>

theorem TotalAccumulatedValue_one_leaf:
  assumes "sdk_int_laws S" "wf_tree t"
  shows "returns S (TotalAccumulatedValue S t) (\<lambda>r. r = tree_Get t '''')"
proof -
  have "filter (\<lambda>c. fst c \<le> '''') (tree_leaves t) = filter (\<lambda>c. fst c = '''') (tree_leaves t)" by simp
  then have "TotalAccumulatedValue S t = PrefixSum S t ''''" "sum_of (filter (\<lambda>c. fst c \<le> '''') (tree_leaves t)) = tree_Get t ''''"
    using sum_of_at [OF wf_tree_leaves [OF assms(2)], of "''''"]
    by (simp_all add: TotalAccumulatedValue_def PrefixSum_def SubsetAccumulation_def tree_Get_def)
  then show ?thesis using PrefixSum_sums [OF assms, of "''''"] by simp
qed

theorem TotalAccumulatedValue_one_leaf_witness:
  "\<exists>t. bindE (NewTree plain_sdk empty_tree) (\<lambda>t. tree_Sets plain_sdk t [(''a'', 5)]) = Inr t \<and>
     TotalAccumulatedValue plain_sdk t = Inr 0 \<and> tree_Get t ''a'' = 5"
proof -
  obtain t0 where t0: "NewTree plain_sdk empty_tree = Inr t0" "wf_tree t0" "tree_leaves t0 = [('''', 0)]"
    using NewTree_wf [of empty_tree plain_sdk] by (auto simp: empty_tree_def)
  obtain t where "tree_Sets plain_sdk t0 [(''a'', 5)] = Inr t" "wf_tree t" "tree_leaves t = [('''', 0), (''a'', 5)]"
    using tree_Sets_wf [OF plain_int_laws t0(2), of "[(''a'', 5)]"] t0(3) by (auto simp: returns_plain)
  then show ?thesis using TotalAccumulatedValue_one_leaf [OF plain_int_laws, of t] t0(1) by (auto simp: returns_plain tree_Get_def)
qed


text \<open>C29: Removing a leaf after which no inner node is named deletes it from the map of leaves and keeps the tree
  well formed, with the sums updated up to the root.\<close>

theorem sumtree_Remove_refines:
  assumes "sdk_int_laws S" "wf_tree t" "ptr_exists t 0 key" "\<not> ptr_exists t 1 key"
  shows "returns S (tree_Remove S t key) (\<lambda>t'. wf_tree t' \<and> tree_leaves t' = kv_delete (tree_leaves t) key \<and>
    (\<forall>k. tree_Get t' k = (if k = key then 0 else tree_Get t k)))"
  by (rule returns_mono [OF tree_Remove_wf [OF assms]])
    (simp add: tree_Get_def kv_get_delete [OF wf_tree_leaves [OF assms(2)]])

theorem sumtree_Remove_refines_witness:
  "\<exists>t t'. bindE (NewTree plain_sdk empty_tree) (\<lambda>t. tree_Sets plain_sdk t [(''a'', 5)]) = Inr t \<and>
     tree_Remove plain_sdk t ''a'' = Inr t' \<and> tree_leaves t' = [('''', 0)]"
proof -
  obtain t0 where t0: "NewTree plain_sdk empty_tree = Inr t0" "wf_tree t0" "tree_leaves t0 = [('''', 0)]"
    using NewTree_wf [of empty_tree plain_sdk] by (auto simp: empty_tree_def)
  obtain t where t: "tree_Sets plain_sdk t0 [(''a'', 5)] = Inr t" "wf_tree t" "tree_leaves t = [('''', 0), (''a'', 5)]"
    using tree_Sets_wf [OF plain_int_laws t0(2), of "[(''a'', 5)]"] t0(3) by (auto simp: returns_plain)
  have "bindE (bindE (NewTree plain_sdk empty_tree) (\<lambda>t. tree_Sets plain_sdk t [(''a'', 5)]))
      (\<lambda>t. Inr (ptr_exists t 0 ''a'', ptr_exists t 1 ''a'')) = Inr (True, False)" by code_simp
  then have "ptr_exists t 0 ''a''" "\<not> ptr_exists t 1 ''a''" using t0(1) t(1) by simp_all
  from sumtree_Remove_refines [OF plain_int_laws t(2) this] t t0(1) show ?thesis by (auto simp: returns_plain)
qed


end
